(* ===== verification/Idos_Prelude.thy ===== *)
theory Idos_Prelude
  imports Main "HOL-Library.Word"
begin

text \<open>
  Shared vocabulary of the development: the machine integer types of the 32-bit targets
  (\<^verbatim>\<open>kernel/i386-kernel.json\<close>, pointer width 32), checked and saturating arithmetic as the Rust
  sources use it, and the generic facts about lists, options, finite maps and words that the
  component theories share.

  The build profile is \<^verbatim>\<open>--release\<close> throughout (see the Makefile), so plain \<open>+\<close>, \<open>-\<close> and \<open>*\<close> on
  machine integers wrap around. Lengths and indices of Rust slices and vectors (\<^verbatim>\<open>usize\<close>) are
  natural numbers; where the source computes an address or an index with wrap-around the
  definition says so explicitly.
\<close>

section \<open>Machine integers\<close>

unbundle bit_operations_syntax

type_synonym u8 = "8 word"
type_synonym u16 = "16 word"
type_synonym u32 = "32 word"
type_synonym u64 = "64 word"

named_theorems idos_inv \<open>preservation of component invariants\<close>
named_theorems idos_abs \<open>abstraction functions commute with operations\<close>

text \<open>Rust's \<^verbatim>\<open>saturating_sub\<close> on an unsigned integer.\<close>

definition sat_sub :: "'a::len word \<Rightarrow> 'a word \<Rightarrow> 'a word" where
  "sat_sub a b = (if b \<le> a then a - b else 0)"

lemma unat_sat_sub [simp]: "unat (sat_sub a b) = unat a - unat b"
  by (auto simp: sat_sub_def unat_sub word_le_nat_alt)

lemma sat_sub_eq: "b \<le> a \<Longrightarrow> sat_sub a b = a - b"
  by (simp add: sat_sub_def)

text \<open>A slice access or vector index that panics out of range.\<close>

definition nth_opt :: "'a list \<Rightarrow> nat \<Rightarrow> 'a option" where
  "nth_opt xs i = (if i < length xs then Some (xs ! i) else None)"

lemma nth_opt_Some [simp]: "nth_opt xs i = Some x \<longleftrightarrow> i < length xs \<and> xs ! i = x"
  by (auto simp: nth_opt_def)

lemma nth_opt_None [simp]: "nth_opt xs i = None \<longleftrightarrow> length xs \<le> i"
  by (auto simp: nth_opt_def)

section \<open>Lists\<close>

lemma list_update_append_Cons [simp]: "(xs @ x # ys)[length xs := y] = xs @ y # ys"
  by (simp add: list_update_append)

lemma nth_list_update_if:
  "i < length xs \<Longrightarrow> xs[i := x] ! j = (if i = j then x else xs ! j)"
  by (auto simp: nth_list_update)

section \<open>Words and natural numbers\<close>

lemma unat_add_small:
  "unat a + unat b < 2 ^ LENGTH('a) \<Longrightarrow> unat (a + b :: 'a::len word) = unat a + unat b"
  by (simp add: unat_word_ariths)

lemma unat_of_nat_small: "n < 2 ^ LENGTH('a) \<Longrightarrow> unat (of_nat n :: 'a::len word) = n"
  by (simp add: unat_of_nat take_bit_nat_eq_self)

lemma unat_less_max32 [simp]: "unat (w :: u32) < 4294967296"
  using unsigned_less [of w] by simp

lemma unat_drop_bit [simp]: "unat (drop_bit n (w :: 'a::len word)) = unat w div 2 ^ n"
  by (simp only: unat_drop_bit_eq) (simp add: drop_bit_eq_div)

lemma unat_take_bit: "unat (take_bit n (w :: 'a::len word)) = unat w mod 2 ^ n"
  by (simp only: unsigned_take_bit_eq) (simp add: take_bit_eq_mod)

lemma unat_and_mask: "unat (w AND mask n) = unat (w :: 'a::len word) mod 2 ^ n"
  by (simp only: take_bit_eq_mask [symmetric] unat_take_bit)

lemma and_not_mask: "(w :: 'a::len word) AND NOT (mask n) = w - take_bit n w"
proof -
  have "NOT w AND take_bit n w = 0"
    by (auto simp: bit_eq_iff bit_simps)
  then have "w - take_bit n w = w AND NOT (take_bit n w)"
    by (simp add: disjunctive_diff_eq_and_not)
  also have "\<dots> = w AND NOT (mask n)"
    by (auto simp: bit_eq_iff bit_simps)
  finally show ?thesis by simp
qed

lemma unat_and_not_mask: "unat (w AND NOT (mask n)) = unat (w :: 'a::len word) - unat w mod 2 ^ n"
proof -
  have "take_bit n w \<le> w"
    by (simp only: word_le_nat_alt unat_take_bit) simp
  then show ?thesis
    by (simp only: and_not_mask unat_sub unat_take_bit)
qed

text \<open>The page masks of the sources, on 32-bit addresses.\<close>

lemma page_offset_mask: "(0xfff :: u32) = mask 12"
  by (simp add: mask_eq_exp_minus_1)

lemma page_frame_mask: "(0xfffff000 :: u32) = NOT (mask 12)"
  by (simp add: mask_eq_exp_minus_1)

lemma unat_page_offset [simp]: "unat ((w :: u32) AND 0xfff) = unat w mod 4096"
  by (simp add: page_offset_mask unat_and_mask)

lemma unat_page_frame [simp]: "unat ((w :: u32) AND 0xfffff000) = unat w - unat w mod 4096"
  by (simp add: page_frame_mask unat_and_not_mask)

lemma page_offset_0: "(w :: u32) AND 0xfff = 0 \<longleftrightarrow> unat w mod 4096 = 0"
  by (metis unat_eq_zero unat_page_offset)

text \<open>Rounding to multiples.\<close>

lemma round_up_cases:
  fixes n k :: nat
  assumes "0 < k"
  shows "(n + (k - 1)) div k * k = (if n mod k = 0 then n else n + k - n mod k)"
proof -
  define q r where "q = n div k" and "r = n mod k"
  have n: "n = k * q + r" and r: "r < k"
    using assms by (simp_all add: q_def r_def)
  have "(n + (k - 1)) div k = (if r = 0 then q else Suc q)"
  proof (rule div_nat_eqI)
    show "k * (if r = 0 then q else Suc q) \<le> n + (k - 1)"
      using r assms by (simp add: n) arith
    show "n + (k - 1) < k * Suc (if r = 0 then q else Suc q)"
      using r assms by (simp add: n) arith
  qed
  moreover have "n + k - r = Suc q * k"
    using n by (simp add: mult.commute)
  moreover have "r = 0 \<Longrightarrow> n = q * k"
    using n by (simp add: mult.commute)
  ultimately show ?thesis
    by (simp add: r_def [symmetric])
qed

text \<open>
  Bits of the constant masks. The simplifier reads a bit of a word numeral as a bit of the integer,
  so the facts are about integers.
\<close>

lemma int_mask_bits [simp]:
  "bit (0x1f :: int) n \<longleftrightarrow> n < 5" "bit (0xff :: int) n \<longleftrightarrow> n < 8" "bit (0xfff :: int) n \<longleftrightarrow> n < 12"
  "bit (0xfffff000 :: int) n \<longleftrightarrow> 12 \<le> n \<and> n < 32"
proof -
  have "(0x1f :: int) = mask 5" "(0xff :: int) = mask 8" "(0xfff :: int) = mask 12"
      "(0xfffff000 :: int) = push_bit 12 (mask 20)"
    by (simp_all add: mask_eq_exp_minus_1)
  then show "bit (0x1f :: int) n \<longleftrightarrow> n < 5" "bit (0xff :: int) n \<longleftrightarrow> n < 8" "bit (0xfff :: int) n \<longleftrightarrow> n < 12"
    "bit (0xfffff000 :: int) n \<longleftrightarrow> 12 \<le> n \<and> n < 32"
    by (auto simp only: bit_mask_iff bit_push_bit_iff possible_bit_int)
qed

end
