(* ===== verification/Slot_List.thy ===== *)
theory Slot_List
  imports Idos_Prelude
begin

text \<open>
  \<^verbatim>\<open>kernel/src/collections/slotlist.rs\<close>: a vector of optional slots whose indices are handed out as
  handles and reused after removal; \<^verbatim>\<open>kernel/src/io/handle.rs\<close>: the handle table built on it; and
  the FAT driver's own \<^verbatim>\<open>SlotList\<close> (\<^verbatim>\<open>components/drivers/fatdriver/src/driver.rs\<close>).
  The interface \<open>slot_table\<close> states what a client relies on; all three implementations interpret it.
\<close>

section \<open>The interface: a table of slots indexed by handles\<close>

datatype 'a slot_op = Slot_Insert 'a | Slot_Remove nat

fun run_slot_ops ::
  "('a \<Rightarrow> 't \<Rightarrow> nat \<times> 't) \<Rightarrow> (nat \<Rightarrow> 't \<Rightarrow> 'a option \<times> 't) \<Rightarrow> 't \<Rightarrow> 'a slot_op list \<Rightarrow> 't" where
  "run_slot_ops ins del t [] = t"
| "run_slot_ops ins del t (Slot_Insert x # ops) = run_slot_ops ins del (snd (ins x t)) ops"
| "run_slot_ops ins del t (Slot_Remove i # ops) = run_slot_ops ins del (snd (del i t)) ops"

locale slot_table =
  fixes empty_t :: "'t"
    and ins :: "'a \<Rightarrow> 't \<Rightarrow> nat \<times> 't"
    and look :: "'t \<Rightarrow> nat \<Rightarrow> 'a option"
    and del :: "nat \<Rightarrow> 't \<Rightarrow> 'a option \<times> 't"
  assumes look_empty: "look empty_t i = None"
    and ins_fresh: "ins x t = (i, t') \<Longrightarrow> look t i = None"
    and ins_least: "ins x t = (i, t') \<Longrightarrow> j < i \<Longrightarrow> look t j \<noteq> None"
    and ins_look: "ins x t = (i, t') \<Longrightarrow> look t' = (look t)(i \<mapsto> x)"
    and del_result: "del i t = (r, t') \<Longrightarrow> r = look t i"
    and del_look: "del i t = (r, t') \<Longrightarrow> look t' = (look t)(i := None)"
    and finite_dom: "finite (dom (look t))"
begin

lemma look_ins [simp]: "look (snd (ins x t)) = (look t)(fst (ins x t) \<mapsto> x)"
  using ins_look [of x t "fst (ins x t)" "snd (ins x t)"] by simp

lemma look_del [simp]: "look (snd (del i t)) = (look t)(i := None)"
  using del_look [of i t "fst (del i t)" "snd (del i t)"] by simp

lemma fst_del [simp]: "fst (del i t) = look t i"
  using del_result [of i t "fst (del i t)" "snd (del i t)"] by simp

lemma fst_ins_fresh [simp]: "look t (fst (ins x t)) = None"
  using ins_fresh [of x t "fst (ins x t)" "snd (ins x t)"] by simp

text \<open>A live handle keeps its item through any operations that do not remove that handle.\<close>

lemma live_stable:
  "look t i = Some x \<Longrightarrow> Slot_Remove i \<notin> set ops \<Longrightarrow> look (run_slot_ops ins del t ops) i = Some x"
proof (induction ops arbitrary: t)
  case (Cons op ops)
  show ?case
  proof (cases op)
    case (Slot_Insert y)
    have "fst (ins y t) \<noteq> i"
      using fst_ins_fresh [of t y] Cons.prems(1) by auto
    then show ?thesis
      using Cons Slot_Insert by simp
  next
    case (Slot_Remove j)
    then show ?thesis
      using Cons by simp
  qed
qed simp

text \<open>Handles are compact: a fresh handle never exceeds the number of live entries.\<close>

lemma ins_compact: "fst (ins x t) \<le> card (dom (look t))"
proof -
  have "{..<fst (ins x t)} \<subseteq> dom (look t)"
    using ins_least [of x t "fst (ins x t)" "snd (ins x t)"] by auto
  from card_mono [OF finite_dom this] show ?thesis
    by simp
qed

end

section \<open>The kernel's SlotList\<close>

record 'a slot_list =
  slots :: "'a option list"

definition slot_list_new :: "'a slot_list" where
  "slot_list_new = \<lparr>slots = []\<rparr>"

text \<open>The search loop of \<^verbatim>\<open>find_empty_slot\<close>: the index of the first empty slot from \<open>i\<close> on.\<close>

fun scan_empty :: "'a option list \<Rightarrow> nat \<Rightarrow> nat option" where
  "scan_empty [] i = None"
| "scan_empty (s # ss) i = (if Option.is_none s then Some i else scan_empty ss (i + 1))"

definition find_empty_slot :: "'a slot_list \<Rightarrow> nat \<times> 'a slot_list" where
  "find_empty_slot sl =
     (case scan_empty (slots sl) 0 of
        Some i \<Rightarrow> (i, sl)
      | None \<Rightarrow> (length (slots sl), sl\<lparr>slots := slots sl @ [None]\<rparr>))"

definition slot_insert :: "'a \<Rightarrow> 'a slot_list \<Rightarrow> nat \<times> 'a slot_list" where
  "slot_insert item sl =
     (let (index, sl') = find_empty_slot sl
      in (index, sl'\<lparr>slots := (slots sl')[index := Some item]\<rparr>))"

definition slot_get :: "'a slot_list \<Rightarrow> nat \<Rightarrow> 'a option" where
  "slot_get sl index = (if index < length (slots sl) then slots sl ! index else None)"

text \<open>\<^verbatim>\<open>get_mut\<close> hands out a mutable reference; its only use is to change the item in place.\<close>

definition slot_get_mut :: "('a \<Rightarrow> 'a) \<Rightarrow> nat \<Rightarrow> 'a slot_list \<Rightarrow> 'a option \<times> 'a slot_list" where
  "slot_get_mut f index sl =
     (case slot_get sl index of
        None \<Rightarrow> (None, sl)
      | Some x \<Rightarrow> (Some (f x), sl\<lparr>slots := (slots sl)[index := Some (f x)]\<rparr>))"

definition slot_remove :: "nat \<Rightarrow> 'a slot_list \<Rightarrow> 'a option \<times> 'a slot_list" where
  "slot_remove index sl =
     (if index < length (slots sl)
      then (slots sl ! index, sl\<lparr>slots := (slots sl)[index := None]\<rparr>)
      else (None, sl))"

text \<open>The padding loop of \<^verbatim>\<open>replace\<close> pushes empty slots until \<open>index\<close> is in range.\<close>

function pad_slots :: "nat \<Rightarrow> 'a option list \<Rightarrow> 'a option list" where
  "pad_slots index ss = (if length ss \<le> index then pad_slots index (ss @ [None]) else ss)"
  by pat_completeness auto
termination
  by (relation "measure (\<lambda>(index, ss). Suc index - length ss)") auto

declare pad_slots.simps [simp del]

definition slot_replace :: "nat \<Rightarrow> 'a \<Rightarrow> 'a slot_list \<Rightarrow> 'a option \<times> 'a slot_list" where
  "slot_replace index item sl =
     (let ss = pad_slots index (slots sl)
      in (ss ! index, sl\<lparr>slots := ss[index := Some item]\<rparr>))"

definition slot_len :: "'a slot_list \<Rightarrow> nat" where
  "slot_len sl = length (slots sl)"

definition slot_iter :: "'a slot_list \<Rightarrow> 'a list" where
  "slot_iter sl = List.map_filter (\<lambda>i. i) (slots sl)"

definition slot_enumerate :: "'a slot_list \<Rightarrow> (nat \<times> 'a) list" where
  "slot_enumerate sl =
     List.map_filter (\<lambda>(index, i). map_option (\<lambda>t. (index, t)) i) (List.enumerate 0 (slots sl))"

subsection \<open>Facts about the operations\<close>

lemma scan_empty_Some:
  "scan_empty ss k = Some i \<Longrightarrow>
   k \<le> i \<and> i - k < length ss \<and> ss ! (i - k) = None \<and> (\<forall>j < i - k. ss ! j \<noteq> None)"
proof (induction ss k rule: scan_empty.induct)
  case (2 s ss k)
  show ?case
  proof (cases s)
    case None
    then show ?thesis using 2 by simp
  next
    case (Some a)
    then have *: "Suc k \<le> i" "i - Suc k < length ss" "ss ! (i - Suc k) = None"
        "\<forall>j < i - Suc k. ss ! j \<noteq> None"
      using 2 by auto
    then have "i - k = Suc (i - Suc k)" by simp
    then show ?thesis
      using * Some by (auto simp: less_Suc_eq_0_disj)
  qed
qed simp

lemma scan_empty_None: "scan_empty ss k = None \<Longrightarrow> j < length ss \<Longrightarrow> ss ! j \<noteq> None"
  by (induction ss k arbitrary: j rule: scan_empty.induct)
    (auto simp: nth_Cons' Option.is_none_def split: if_splits)

lemma slot_get_beyond: "length (slots sl) \<le> i \<Longrightarrow> slot_get sl i = None"
  by (simp add: slot_get_def)

lemma slot_insert_cases:
  assumes "slot_insert x sl = (i, sl')"
  obtains (reuse) "i < length (slots sl)" "slots sl ! i = None"
      "\<forall>j < i. slots sl ! j \<noteq> None" "slots sl' = (slots sl)[i := Some x]"
    | (grow) "i = length (slots sl)" "\<forall>j < i. slots sl ! j \<noteq> None" "slots sl' = slots sl @ [Some x]"
proof (cases "scan_empty (slots sl) 0")
  case None
  then show ?thesis
    using assms grow scan_empty_None [OF None]
    by (auto simp: slot_insert_def find_empty_slot_def)
next
  case (Some k)
  then show ?thesis
    using assms reuse scan_empty_Some [OF Some]
    by (auto simp: slot_insert_def find_empty_slot_def)
qed

lemma slot_insert_get:
  assumes "slot_insert x sl = (i, sl')"
  shows "slot_get sl' = (slot_get sl)(i \<mapsto> x)"
  using assms
proof (cases rule: slot_insert_cases)
  case reuse
  then show ?thesis
    by (auto simp: slot_get_def fun_eq_iff nth_list_update)
next
  case grow
  then show ?thesis
    by (auto simp: slot_get_def fun_eq_iff nth_append)
qed

lemma dom_slot_get: "dom (slot_get sl) \<subseteq> {..<length (slots sl)}"
  by (auto simp: slot_get_def split: if_splits)

lemma pad_slots_eq: "pad_slots index ss = ss @ replicate (Suc index - length ss) None"
proof (induction index ss rule: pad_slots.induct)
  case (1 index ss)
  show ?case
  proof (cases "length ss \<le> index")
    case True
    then have "Suc index - length ss = Suc (Suc index - Suc (length ss))" by simp
    then show ?thesis
      using 1 True by (simp add: pad_slots.simps [of index ss])
  qed (simp add: pad_slots.simps [of index ss])
qed

lemma slot_replace_spec:
  "fst (slot_replace i x sl) = slot_get sl i"
  "slot_get (snd (slot_replace i x sl)) = (slot_get sl)(i \<mapsto> x)"
  by (auto simp: slot_replace_def pad_slots_eq slot_get_def fun_eq_iff nth_append nth_list_update)

interpretation kernel_slots: slot_table slot_list_new slot_insert slot_get slot_remove
proof unfold_locales
  fix x :: 'a and sl sl' :: "'a slot_list" and i j
  assume ins: "slot_insert x sl = (i, sl')"
  show "slot_get sl i = None"
    using ins by (cases rule: slot_insert_cases) (auto simp: slot_get_def)
  show "j < i \<Longrightarrow> slot_get sl j \<noteq> None"
    using ins by (cases rule: slot_insert_cases) (auto simp: slot_get_def)
  show "slot_get sl' = (slot_get sl)(i \<mapsto> x)"
    using ins by (rule slot_insert_get)
next
  fix sl :: "'a slot_list"
  show "finite (dom (slot_get sl))"
    by (rule finite_subset [OF dom_slot_get]) simp
qed (auto simp: slot_list_new_def slot_get_def slot_remove_def fun_eq_iff nth_list_update
       split: if_splits)

text \<open>\<^verbatim>\<open>enumerate\<close> visits exactly the live entries, in increasing order of handle.\<close>

lemma map_filter_enumerate_Cons:
  "List.map_filter f (List.enumerate k (s # ss)) =
   (case f (k, s) of None \<Rightarrow> [] | Some y \<Rightarrow> [y]) @ List.map_filter f (List.enumerate (Suc k) ss)"
  by (simp add: map_filter_def split: option.splits)

lemma enumerate_live_aux:
  "set (List.map_filter (\<lambda>(index, i). map_option (\<lambda>t. (index, t)) i) (List.enumerate k ss)) =
     {(k + j, x) | j x. j < length ss \<and> ss ! j = Some x}"
proof (induction ss arbitrary: k)
  case (Cons s ss)
  have "{(k + j, x) | j x. j < length (s # ss) \<and> (s # ss) ! j = Some x} =
      {(k, x) | x. s = Some x} \<union> {(Suc k + j, x) | j x. j < length ss \<and> ss ! j = Some x}"
    by (force simp: less_Suc_eq_0_disj)
  then show ?case
    by (auto simp: map_filter_enumerate_Cons Cons.IH split: option.splits)
qed (simp add: map_filter_def)

lemma enumerate_sorted_aux:
  "sorted_wrt (<) (map fst (List.map_filter (\<lambda>(index, i). map_option (\<lambda>t. (index, t)) i)
      (List.enumerate k ss)))"
proof (induction ss arbitrary: k)
  case (Cons s ss)
  have "\<forall>p \<in> set (List.map_filter (\<lambda>(index, i). map_option (\<lambda>t. (index, t)) i)
      (List.enumerate (Suc k) ss)). k < fst p"
    unfolding enumerate_live_aux by auto
  then show ?case
    using Cons.IH [of "Suc k"] by (auto simp: map_filter_enumerate_Cons split: option.splits)
qed (simp add: map_filter_def)

section \<open>Handle tables\<close>

datatype handle = Handle (handle_index: nat)

record 'a handle_table =
  inner :: "'a slot_list"

definition handle_table_new :: "'a handle_table" where
  "handle_table_new = \<lparr>inner = slot_list_new\<rparr>"

definition handle_insert :: "'a \<Rightarrow> 'a handle_table \<Rightarrow> handle \<times> 'a handle_table" where
  "handle_insert v ht = (let (i, sl) = slot_insert v (inner ht) in (Handle i, ht\<lparr>inner := sl\<rparr>))"

definition handle_get :: "'a handle_table \<Rightarrow> handle \<Rightarrow> 'a option" where
  "handle_get ht h = slot_get (inner ht) (handle_index h)"

definition handle_remove :: "handle \<Rightarrow> 'a handle_table \<Rightarrow> 'a option \<times> 'a handle_table" where
  "handle_remove h ht = (let (r, sl) = slot_remove (handle_index h) (inner ht) in (r, ht\<lparr>inner := sl\<rparr>))"

definition handle_replace :: "handle \<Rightarrow> 'a \<Rightarrow> 'a handle_table \<Rightarrow> 'a option \<times> 'a handle_table" where
  "handle_replace h v ht =
     (let (r, sl) = slot_replace (handle_index h) v (inner ht) in (r, ht\<lparr>inner := sl\<rparr>))"

definition handle_iter :: "'a handle_table \<Rightarrow> (handle \<times> 'a) list" where
  "handle_iter ht = map (\<lambda>(index, item). (Handle index, item)) (slot_enumerate (inner ht))"

lemma handle_index_eq: "handle_index h = i \<longleftrightarrow> h = Handle i"
  by (cases h) auto

lemma handle_get_insert:
  assumes "handle_insert v ht = (h, ht')"
  shows "handle_get ht' = (handle_get ht)(h \<mapsto> v)" "handle_get ht h = None"
  using assms kernel_slots.ins_look [of v "inner ht"] kernel_slots.ins_fresh [of v "inner ht"]
  by (auto simp: handle_insert_def handle_get_def fun_eq_iff handle_index_eq split: prod.splits)

lemma handle_get_remove:
  assumes "handle_remove h ht = (r, ht')"
  shows "handle_get ht' = (handle_get ht)(h := None)" "r = handle_get ht h"
  using assms kernel_slots.del_look [of "handle_index h" "inner ht"]
    kernel_slots.del_result [of "handle_index h" "inner ht"]
  by (auto simp: handle_remove_def handle_get_def fun_eq_iff handle_index_eq split: prod.splits)

lemma handle_get_replace:
  assumes "handle_replace h v ht = (r, ht')"
  shows "handle_get ht' = (handle_get ht)(h \<mapsto> v)" "r = handle_get ht h"
  using assms slot_replace_spec [of "handle_index h" v "inner ht"]
  by (auto simp: handle_replace_def handle_get_def fun_eq_iff handle_index_eq split: prod.splits)

section \<open>The FAT driver's SlotList\<close>

text \<open>
  The driver keeps its own copy of the collection. Its \<^verbatim>\<open>insert\<close> stores into the first empty slot
  while it scans, instead of searching first and storing afterwards.
\<close>

record 'a fat_slot_list =
  fat_slots :: "'a option list"

definition fat_slot_new :: "'a fat_slot_list" where
  "fat_slot_new = \<lparr>fat_slots = []\<rparr>"

fun fat_scan_insert :: "'a \<Rightarrow> 'a option list \<Rightarrow> nat \<Rightarrow> (nat \<times> 'a option list) option" where
  "fat_scan_insert item [] i = None"
| "fat_scan_insert item (s # ss) i =
     (if Option.is_none s then Some (i, Some item # ss)
      else map_option (\<lambda>(j, ss'). (j, s # ss')) (fat_scan_insert item ss (i + 1)))"

definition fat_slot_insert :: "'a \<Rightarrow> 'a fat_slot_list \<Rightarrow> nat \<times> 'a fat_slot_list" where
  "fat_slot_insert item sl =
     (case fat_scan_insert item (fat_slots sl) 0 of
        Some (i, ss) \<Rightarrow> (i, sl\<lparr>fat_slots := ss\<rparr>)
      | None \<Rightarrow> let ss = fat_slots sl @ [Some item] in (length ss - 1, sl\<lparr>fat_slots := ss\<rparr>))"

definition fat_slot_get :: "'a fat_slot_list \<Rightarrow> nat \<Rightarrow> 'a option" where
  "fat_slot_get sl index = (if index < length (fat_slots sl) then fat_slots sl ! index else None)"

definition fat_slot_remove :: "nat \<Rightarrow> 'a fat_slot_list \<Rightarrow> 'a option \<times> 'a fat_slot_list" where
  "fat_slot_remove index sl =
     (if index < length (fat_slots sl)
      then (fat_slots sl ! index, sl\<lparr>fat_slots := (fat_slots sl)[index := None]\<rparr>)
      else (None, sl))"

lemma fat_scan_insert_eq:
  "fat_scan_insert x ss k =
     map_option (\<lambda>i. (i, ss[i - k := Some x])) (scan_empty ss k)"
proof (induction ss k rule: scan_empty.induct)
  case (2 s ss k)
  show ?case
  proof (cases "scan_empty ss (k + 1)")
    case (Some i)
    then have "Suc k \<le> i" using scan_empty_Some [OF Some] by simp
    then have "i - k = Suc (i - Suc k)" by simp
    then show ?thesis using 2 Some by simp
  qed (use 2 in simp)
qed simp

lemma fat_slot_insert_eq:
  "fat_slot_insert x sl =
     map_prod id (\<lambda>s. sl\<lparr>fat_slots := slots s\<rparr>) (slot_insert x \<lparr>slots = fat_slots sl\<rparr>)"
  by (auto simp: fat_slot_insert_def slot_insert_def find_empty_slot_def fat_scan_insert_eq Let_def
      list_update_append split: option.splits)

lemma fat_slot_get_eq: "fat_slot_get sl = slot_get \<lparr>slots = fat_slots sl\<rparr>"
  by (auto simp: fat_slot_get_def slot_get_def)

interpretation fat_slots: slot_table fat_slot_new fat_slot_insert fat_slot_get fat_slot_remove
proof unfold_locales
  fix x :: 'a and sl sl' :: "'a fat_slot_list" and i j
  assume ins: "fat_slot_insert x sl = (i, sl')"
  then obtain s where s: "slot_insert x \<lparr>slots = fat_slots sl\<rparr> = (i, s)"
      "slots s = fat_slots sl'"
    by (auto simp: fat_slot_insert_eq map_prod_def split: prod.splits)
  then have sl': "slot_get \<lparr>slots = fat_slots sl'\<rparr> = slot_get s"
    by (simp add: slot_get_def fun_eq_iff)
  show "fat_slot_get sl i = None" "j < i \<Longrightarrow> fat_slot_get sl j \<noteq> None"
    "fat_slot_get sl' = (fat_slot_get sl)(i \<mapsto> x)"
    using kernel_slots.ins_fresh [OF s(1)] kernel_slots.ins_least [OF s(1)]
      kernel_slots.ins_look [OF s(1)] by (simp_all add: fat_slot_get_eq sl')
next
  fix sl :: "'a fat_slot_list"
  show "finite (dom (fat_slot_get sl))"
    using kernel_slots.finite_dom by (simp add: fat_slot_get_eq)
qed (auto simp: fat_slot_new_def fat_slot_get_def fat_slot_remove_def fun_eq_iff nth_list_update
       split: if_splits)

section \<open>Properties\<close>

text \<open>
  (C28) Inserting into the kernel's \<open>SlotList\<close> returns the lowest free handle, never one in use, and
  whatever is inserted and removed afterwards, the item stays reachable under that handle until the
  handle itself is removed.
\<close>

theorem slot_handle_stable:
  assumes "slot_insert x sl = (i, sl')" "Slot_Remove i \<notin> set ops"
  shows "slot_get sl i = None \<and> (\<forall>j < i. slot_get sl j \<noteq> None) \<and>
    slot_get (run_slot_ops slot_insert slot_remove sl' ops) i = Some x"
proof -
  have "slot_get sl' i = Some x"
    using kernel_slots.ins_look [OF assms(1)] by simp
  then show ?thesis
    using kernel_slots.ins_fresh [OF assms(1)] kernel_slots.ins_least [OF assms(1)]
      kernel_slots.live_stable [OF _ assms(2)] by blast
qed

theorem slot_handle_stable_witness:
  "slot_get (run_slot_ops slot_insert slot_remove \<lparr>slots = [Some 1, Some (5 :: nat), Some 3]\<rparr>
     [Slot_Remove 0, Slot_Insert 8, Slot_Insert 9, Slot_Remove 2]) 1 = Some 5"
  using slot_handle_stable [of 5 "\<lparr>slots = [Some 1, None, Some 3]\<rparr>" 1
      "\<lparr>slots = [Some 1, Some (5 :: nat), Some 3]\<rparr>"
      "[Slot_Remove 0, Slot_Insert 8, Slot_Insert 9, Slot_Remove 2]"]
  by (simp add: slot_insert_def find_empty_slot_def)

text \<open>
  A task's handle table is a map: inserting, replacing and removing update exactly the entry of
  the handle concerned and return what was there, and iterating over the table yields exactly the
  open handles with their values, in increasing order.
\<close>

theorem handle_table_map:
  "(case handle_insert v ht of (h', ht') \<Rightarrow>
      handle_get ht h' = None \<and> handle_get ht' = (handle_get ht)(h' \<mapsto> v)) \<and>
   (case handle_replace h v ht of (r, ht') \<Rightarrow>
      r = handle_get ht h \<and> handle_get ht' = (handle_get ht)(h \<mapsto> v)) \<and>
   (case handle_remove h ht of (r, ht') \<Rightarrow>
      r = handle_get ht h \<and> handle_get ht' = (handle_get ht)(h := None)) \<and>
   set (handle_iter ht) = {(k, x). handle_get ht k = Some x} \<and>
   sorted_wrt (<) (map (handle_index \<circ> fst) (handle_iter ht))"
proof -
  have "set (handle_iter ht) = {(k, x). handle_get ht k = Some x}"
    using enumerate_live_aux [of 0 "slots (inner ht)"]
    by (force simp: handle_iter_def slot_enumerate_def handle_get_def slot_get_def handle_index_eq
        split: if_splits)
  moreover have "sorted_wrt (<) (map (handle_index \<circ> fst) (handle_iter ht))"
    using enumerate_sorted_aux [of 0 "slots (inner ht)"]
    by (simp add: handle_iter_def slot_enumerate_def comp_def case_prod_beta')
  ultimately show ?thesis
    using handle_get_insert [of v ht] handle_get_replace [of h v ht] handle_get_remove [of h ht]
    by (auto split: prod.splits)
qed

end
