(* ===== verification/Ring_Buffer.thy ===== *)
theory Ring_Buffer
  imports Idos_Prelude
begin

text \<open>
  \<^verbatim>\<open>kernel/src/collections/ringbuffer.rs\<close>: the lock-free single-producer single-consumer ring buffer.
  The operations \<open>rb_write\<close> and \<open>rb_read\<close> are the two methods run without interference and
  interpret the bounded FIFO interface. The relation \<open>rb_step\<close> splits both methods into their
  individual loads and stores and interleaves one writer with one reader, in the sequentially
  consistent order the Acquire/Release pairs of the source establish.
\<close>

section \<open>The interface: a bounded FIFO queue\<close>

text \<open>Writing a list of values and reading a number of values, with the operations as arguments.\<close>

fun put_all :: "('a \<Rightarrow> 'q \<Rightarrow> bool \<times> 'q) \<Rightarrow> 'a list \<Rightarrow> 'q \<Rightarrow> 'q" where
  "put_all put [] q = q"
| "put_all put (x # xs) q = put_all put xs (snd (put x q))"

fun take_all :: "('q \<Rightarrow> 'a option \<times> 'q) \<Rightarrow> nat \<Rightarrow> 'q \<Rightarrow> 'a list \<times> 'q" where
  "take_all take_one 0 q = ([], q)"
| "take_all take_one (Suc n) q =
     (case take_one q of
        (None, q') \<Rightarrow> ([], q')
      | (Some y, q') \<Rightarrow> map_prod (\<lambda>ys. y # ys) id (take_all take_one n q'))"

locale bounded_fifo =
  fixes contents :: "'q \<Rightarrow> 'a list"
    and capacity :: "'q \<Rightarrow> nat"
    and put :: "'a \<Rightarrow> 'q \<Rightarrow> bool \<times> 'q"
    and take_one :: "'q \<Rightarrow> 'a option \<times> 'q"
    and valid :: "'q \<Rightarrow> bool"
  assumes put_room: "valid q \<Longrightarrow> length (contents q) < capacity q \<Longrightarrow>
      fst (put x q) \<and> contents (snd (put x q)) = contents q @ [x]"
    and put_full: "valid q \<Longrightarrow> length (contents q) = capacity q \<Longrightarrow> put x q = (False, q)"
    and take_some: "valid q \<Longrightarrow> contents q = y # ys \<Longrightarrow>
      fst (take_one q) = Some y \<and> contents (snd (take_one q)) = ys"
    and take_none: "valid q \<Longrightarrow> contents q = [] \<Longrightarrow> take_one q = (None, q)"
    and within: "valid q \<Longrightarrow> length (contents q) \<le> capacity q"
    and valid_put: "valid q \<Longrightarrow> valid (snd (put x q))"
    and valid_take: "valid q \<Longrightarrow> valid (snd (take_one q))"
    and capacity_put: "valid q \<Longrightarrow> capacity (snd (put x q)) = capacity q"
    and capacity_take: "valid q \<Longrightarrow> capacity (snd (take_one q)) = capacity q"
begin

lemma valid_put_all: "valid q \<Longrightarrow> valid (put_all put xs q)"
  by (induction xs arbitrary: q) (simp_all add: valid_put)

lemma put_all_contents:
  "valid q \<Longrightarrow> contents (put_all put xs q) = contents q @ take (capacity q - length (contents q)) xs"
proof (induction xs arbitrary: q)
  case (Cons x xs)
  show ?case
  proof (cases "length (contents q) < capacity q")
    case True
    then have "capacity q - length (contents q) = Suc (capacity q - Suc (length (contents q)))"
      by simp
    then show ?thesis
      using Cons True put_room [OF Cons.prems True, of x]
      by (simp add: valid_put capacity_put)
  next
    case False
    then have "length (contents q) = capacity q"
      using within [OF Cons.prems] by simp
    then show ?thesis
      using Cons put_full by simp
  qed
qed simp

lemma take_all_contents: "valid q \<Longrightarrow> fst (take_all take_one n q) = take n (contents q)"
proof (induction n arbitrary: q)
  case (Suc n)
  show ?case
  proof (cases "contents q")
    case Nil
    then show ?thesis using take_none [OF Suc.prems] by simp
  next
    case (Cons y ys)
    then obtain q' where q': "take_one q = (Some y, q')" "contents q' = ys" "valid q'"
      using take_some [OF Suc.prems Cons] valid_take [OF Suc.prems]
      by (cases "take_one q") auto
    then show ?thesis using Cons Suc.IH by simp
  qed
qed simp

text \<open>Values come out in the order they went in, up to the capacity.\<close>

lemma fifo_order:
  "valid q \<Longrightarrow> contents q = [] \<Longrightarrow> length xs \<le> capacity q \<Longrightarrow>
   fst (take_all take_one (length xs) (put_all put xs q)) = xs"
  by (simp add: take_all_contents valid_put_all put_all_contents)

end

section \<open>The ring buffer\<close>

record 'a ring_buffer =
  rb_data :: "'a list"
  rb_size :: nat
  write_index :: nat
  read_index :: nat

definition for_buffer :: "'a list \<Rightarrow> 'a ring_buffer" where
  "for_buffer data = \<lparr>rb_data = data, rb_size = length data - 1, write_index = 0, read_index = 0\<rparr>"

definition next_index :: "'a ring_buffer \<Rightarrow> nat \<Rightarrow> nat" where
  "next_index rb current = (current + 1) mod length (rb_data rb)"

definition rb_write :: "'a \<Rightarrow> 'a ring_buffer \<Rightarrow> bool \<times> 'a ring_buffer" where
  "rb_write v rb =
     (let w = write_index rb; nxt = next_index rb w
      in if nxt = read_index rb then (False, rb)
         else (True, rb\<lparr>rb_data := (rb_data rb)[w := v], write_index := nxt\<rparr>))"

definition rb_read :: "'a ring_buffer \<Rightarrow> 'a option \<times> 'a ring_buffer" where
  "rb_read rb =
     (let r = read_index rb
      in if r = write_index rb then (None, rb)
         else (Some (rb_data rb ! r), rb\<lparr>read_index := next_index rb r\<rparr>))"

definition rb_capacity :: "'a ring_buffer \<Rightarrow> nat" where
  "rb_capacity rb = rb_size rb"

text \<open>The values between the read and the write index, oldest first.\<close>

definition rb_count :: "nat \<Rightarrow> nat \<Rightarrow> nat \<Rightarrow> nat" where
  "rb_count n r w = (if r \<le> w then w - r else w + n - r)"

definition ring_slice :: "'a list \<Rightarrow> nat \<Rightarrow> nat \<Rightarrow> 'a list" where
  "ring_slice data r w =
     map (\<lambda>k. data ! ((r + k) mod length data)) [0..<rb_count (length data) r w]"

definition rb_contents :: "'a ring_buffer \<Rightarrow> 'a list" where
  "rb_contents rb = ring_slice (rb_data rb) (read_index rb) (write_index rb)"

definition rb_valid :: "'a ring_buffer \<Rightarrow> bool" where
  "rb_valid rb \<longleftrightarrow> write_index rb < length (rb_data rb) \<and> read_index rb < length (rb_data rb) \<and>
     rb_size rb = length (rb_data rb) - 1"

subsection \<open>Index arithmetic\<close>

lemma Suc_mod_if: "i < n \<Longrightarrow> Suc i mod n = (if Suc i = n then 0 else Suc i)"
  by auto

lemma rb_count_less: "r < n \<Longrightarrow> w < n \<Longrightarrow> rb_count n r w < n"
  by (auto simp: rb_count_def)

lemma rb_count_0: "r < n \<Longrightarrow> w < n \<Longrightarrow> rb_count n r w = 0 \<longleftrightarrow> r = w"
  by (auto simp: rb_count_def)

lemma rb_count_full:
  "r < n \<Longrightarrow> w < n \<Longrightarrow> rb_count n r w = n - 1 \<longleftrightarrow> Suc w mod n = r"
  by (auto simp: rb_count_def Suc_mod_if)

lemma rb_count_put:
  "r < n \<Longrightarrow> w < n \<Longrightarrow> Suc w mod n \<noteq> r \<Longrightarrow> rb_count n r (Suc w mod n) = Suc (rb_count n r w)"
  by (auto simp: rb_count_def Suc_mod_if split: if_splits)

lemma rb_count_take:
  "r < n \<Longrightarrow> w < n \<Longrightarrow> r \<noteq> w \<Longrightarrow> rb_count n r w = Suc (rb_count n (Suc r mod n) w)"
  by (auto simp: rb_count_def Suc_mod_if split: if_splits)

lemma rb_index_last: "r < n \<Longrightarrow> w < n \<Longrightarrow> (r + rb_count n r w) mod n = w"
  by (auto simp: rb_count_def)

lemma add_mod_if: "r < n \<Longrightarrow> k < n \<Longrightarrow> (r + k) mod n = (if r + k < n then r + k else r + k - n)" for n :: nat
  by (simp add: mod_if)

lemma rb_index_before:
  "r < n \<Longrightarrow> w < n \<Longrightarrow> k < rb_count n r w \<Longrightarrow> (r + k) mod n \<noteq> w"
  using rb_count_less [of r n w] by (auto simp: add_mod_if rb_count_def split: if_splits)

lemma Suc_mod_add: "(Suc r mod n + k) mod n = (r + Suc k) mod n"
  by (simp add: mod_simps)

lemma Suc_mod_inj: "r < n \<Longrightarrow> w < n \<Longrightarrow> Suc r mod n = Suc w mod n \<longleftrightarrow> r = w"
  by (auto simp: Suc_mod_if split: if_splits)

subsection \<open>The slice between the indices\<close>

lemma length_ring_slice [simp]: "length (ring_slice data r w) = rb_count (length data) r w"
  by (simp add: ring_slice_def)

lemma ring_slice_store:
  assumes "r < length data" "w < length data"
  shows "ring_slice (data[w := v]) r w = ring_slice data r w"
  using rb_index_before [OF assms, THEN not_sym] by (auto simp: ring_slice_def)

lemma ring_slice_put:
  assumes "r < length data" "w < length data" "Suc w mod length data \<noteq> r"
  shows "ring_slice data r (Suc w mod length data) = ring_slice data r w @ [data ! w]"
  using assms rb_index_last [OF assms(1,2)] by (simp add: ring_slice_def rb_count_put)

lemma ring_slice_take:
  assumes "r < length data" "w < length data" "r \<noteq> w"
  shows "ring_slice data r w = data ! r # ring_slice data (Suc r mod length data) w"
  using assms
  by (simp add: ring_slice_def rb_count_take upt_conv_Cons map_Suc_upt [symmetric] Suc_mod_add
      del: upt_Suc)

lemma ring_slice_Nil: "r < length data \<Longrightarrow> w < length data \<Longrightarrow> ring_slice data r w = [] \<longleftrightarrow> r = w"
  using rb_count_0 [of r "length data" w] by (metis length_0_conv length_ring_slice)

interpretation ring: bounded_fifo rb_contents rb_capacity rb_write rb_read rb_valid
proof unfold_locales
  fix q :: "'a ring_buffer" and x
  assume v: "rb_valid q"
  show "length (rb_contents q) \<le> rb_capacity q"
    using v rb_count_less [of "read_index q" "length (rb_data q)" "write_index q"]
    by (auto simp: rb_valid_def rb_contents_def rb_capacity_def)
  show "fst (rb_write x q) \<and> rb_contents (snd (rb_write x q)) = rb_contents q @ [x]"
    if "length (rb_contents q) < rb_capacity q"
  proof -
    have "Suc (write_index q) mod length (rb_data q) \<noteq> read_index q"
      using v that rb_count_full [of "read_index q" "length (rb_data q)" "write_index q"]
      by (auto simp: rb_valid_def rb_contents_def rb_capacity_def)
    then show ?thesis
      using v ring_slice_put [of "read_index q" "(rb_data q)[write_index q := x]" "write_index q"]
        ring_slice_store [of "read_index q" "rb_data q" "write_index q" x]
      by (simp add: rb_valid_def rb_contents_def rb_write_def next_index_def Let_def)
  qed
  show "rb_write x q = (False, q)" if "length (rb_contents q) = rb_capacity q"
    using v that rb_count_full [of "read_index q" "length (rb_data q)" "write_index q"]
    by (auto simp: rb_valid_def rb_contents_def rb_capacity_def rb_write_def next_index_def Let_def)
  show "rb_valid (snd (rb_write x q))" "rb_valid (snd (rb_read q))"
    "rb_capacity (snd (rb_write x q)) = rb_capacity q" "rb_capacity (snd (rb_read q)) = rb_capacity q"
    using v
    by (auto simp: rb_valid_def rb_write_def rb_read_def rb_capacity_def next_index_def Let_def
        intro!: mod_less_divisor)
next
  fix q :: "'a ring_buffer" and y ys
  assume v: "rb_valid q"
  show "fst (rb_read q) = Some y \<and> rb_contents (snd (rb_read q)) = ys" if "rb_contents q = y # ys"
    using v that ring_slice_take [of "read_index q" "rb_data q" "write_index q"]
      ring_slice_Nil [of "read_index q" "rb_data q" "write_index q"]
    by (auto simp: rb_valid_def rb_contents_def rb_read_def next_index_def Let_def)
  show "rb_read q = (None, q)" if "rb_contents q = []"
    using v that by (auto simp: rb_valid_def rb_contents_def rb_read_def ring_slice_Nil Let_def)
qed

lemma rb_valid_for_buffer: "data \<noteq> [] \<Longrightarrow> rb_valid (for_buffer data)"
  by (simp add: rb_valid_def for_buffer_def)

lemma rb_contents_for_buffer: "rb_contents (for_buffer data) = []"
  by (simp add: rb_contents_def for_buffer_def ring_slice_def rb_count_def)

section \<open>One writer and one reader, interleaved\<close>

text \<open>
  Where each thread stands inside its method. \<open>W_Loaded v w\<close>: the write index is loaded;
  \<open>W_Checked v w\<close>: the read index is loaded and the buffer was not full; \<open>W_Stored v w\<close>: the value is
  in its slot, the index not yet published. The reader's points are named likewise.
\<close>

datatype 'a writer_pc = W_Idle | W_Loaded 'a nat | W_Checked 'a nat | W_Stored 'a nat
datatype 'a reader_pc = R_Idle | R_Loaded nat | R_Checked nat | R_Fetched 'a nat

record 'a rb_sys =
  buf :: "'a ring_buffer"
  wpc :: "'a writer_pc"
  rpc :: "'a reader_pc"
  sent :: "'a list"       \<comment> \<open>values whose write returned true, in order\<close>
  received :: "'a list"   \<comment> \<open>values the reader returned, in order\<close>

inductive rb_step :: "'a rb_sys \<Rightarrow> 'a rb_sys \<Rightarrow> bool" where
  w_load: "wpc s = W_Idle \<Longrightarrow> rb_step s (s\<lparr>wpc := W_Loaded v (write_index (buf s))\<rparr>)"
| w_full: "wpc s = W_Loaded v w \<Longrightarrow> next_index (buf s) w = read_index (buf s) \<Longrightarrow>
    rb_step s (s\<lparr>wpc := W_Idle\<rparr>)"
| w_room: "wpc s = W_Loaded v w \<Longrightarrow> next_index (buf s) w \<noteq> read_index (buf s) \<Longrightarrow>
    rb_step s (s\<lparr>wpc := W_Checked v w\<rparr>)"
| w_store: "wpc s = W_Checked v w \<Longrightarrow>
    rb_step s (s\<lparr>wpc := W_Stored v w, buf := (buf s)\<lparr>rb_data := (rb_data (buf s))[w := v]\<rparr>\<rparr>)"
| w_publish: "wpc s = W_Stored v w \<Longrightarrow>
    rb_step s (s\<lparr>wpc := W_Idle, buf := (buf s)\<lparr>write_index := next_index (buf s) w\<rparr>,
      sent := sent s @ [v]\<rparr>)"
| r_load: "rpc s = R_Idle \<Longrightarrow> rb_step s (s\<lparr>rpc := R_Loaded (read_index (buf s))\<rparr>)"
| r_empty: "rpc s = R_Loaded r \<Longrightarrow> r = write_index (buf s) \<Longrightarrow> rb_step s (s\<lparr>rpc := R_Idle\<rparr>)"
| r_some: "rpc s = R_Loaded r \<Longrightarrow> r \<noteq> write_index (buf s) \<Longrightarrow> rb_step s (s\<lparr>rpc := R_Checked r\<rparr>)"
| r_fetch: "rpc s = R_Checked r \<Longrightarrow>
    rb_step s (s\<lparr>rpc := R_Fetched (rb_data (buf s) ! r) r\<rparr>)"
| r_advance: "rpc s = R_Fetched v r \<Longrightarrow>
    rb_step s (s\<lparr>rpc := R_Idle, buf := (buf s)\<lparr>read_index := next_index (buf s) r\<rparr>,
      received := received s @ [v]\<rparr>)"

inductive rb_reachable :: "'a list \<Rightarrow> 'a rb_sys \<Rightarrow> bool" for data where
  rb_start: "rb_reachable data
     \<lparr>buf = for_buffer data, wpc = W_Idle, rpc = R_Idle, sent = [], received = []\<rparr>"
| rb_more: "rb_reachable data s \<Longrightarrow> rb_step s t \<Longrightarrow> rb_reachable data t"

definition writer_ok :: "'a ring_buffer \<Rightarrow> 'a writer_pc \<Rightarrow> bool" where
  "writer_ok rb pc = (case pc of
       W_Idle \<Rightarrow> True
     | W_Loaded v w \<Rightarrow> w = write_index rb
     | W_Checked v w \<Rightarrow> w = write_index rb \<and> next_index rb w \<noteq> read_index rb
     | W_Stored v w \<Rightarrow> w = write_index rb \<and> next_index rb w \<noteq> read_index rb \<and> rb_data rb ! w = v)"

definition reader_ok :: "'a ring_buffer \<Rightarrow> 'a reader_pc \<Rightarrow> bool" where
  "reader_ok rb pc = (case pc of
       R_Idle \<Rightarrow> True
     | R_Loaded r \<Rightarrow> r = read_index rb
     | R_Checked r \<Rightarrow> r = read_index rb \<and> r \<noteq> write_index rb
     | R_Fetched v r \<Rightarrow> r = read_index rb \<and> r \<noteq> write_index rb \<and> v = rb_data rb ! r)"

definition rb_inv :: "'a rb_sys \<Rightarrow> bool" where
  "rb_inv s \<longleftrightarrow> rb_valid (buf s) \<and> writer_ok (buf s) (wpc s) \<and> reader_ok (buf s) (rpc s) \<and>
     sent s = received s @ rb_contents (buf s)"

lemma rb_inv_start:
  "data \<noteq> [] \<Longrightarrow> rb_inv \<lparr>buf = for_buffer data, wpc = W_Idle, rpc = R_Idle, sent = [], received = []\<rparr>"
  by (simp add: rb_inv_def rb_valid_for_buffer rb_contents_for_buffer writer_ok_def reader_ok_def)

lemma rb_inv_store:
  assumes "rb_inv s" "wpc s = W_Checked v w"
  shows "rb_inv (s\<lparr>wpc := W_Stored v w, buf := (buf s)\<lparr>rb_data := (rb_data (buf s))[w := v]\<rparr>\<rparr>)"
  using assms ring_slice_store [of "read_index (buf s)" "rb_data (buf s)" "write_index (buf s)" v]
  by (auto simp: rb_inv_def writer_ok_def reader_ok_def rb_valid_def next_index_def rb_contents_def
      split: reader_pc.splits)

lemma rb_inv_publish:
  assumes "rb_inv s" "wpc s = W_Stored v w"
  shows "rb_inv (s\<lparr>wpc := W_Idle, buf := (buf s)\<lparr>write_index := next_index (buf s) w\<rparr>,
      sent := sent s @ [v]\<rparr>)"
proof -
  let ?b = "buf s"
  have w: "w = write_index ?b" "Suc w mod length (rb_data ?b) \<noteq> read_index ?b" "rb_data ?b ! w = v"
    and v: "read_index ?b < length (rb_data ?b)" "w < length (rb_data ?b)"
    using assms by (auto simp: rb_inv_def writer_ok_def rb_valid_def next_index_def)
  have "0 < length (rb_data ?b)" using v by linarith
  then show ?thesis
    using assms w v ring_slice_put [of "read_index ?b" "rb_data ?b" w]
    by (auto simp: rb_inv_def writer_ok_def reader_ok_def rb_valid_def next_index_def rb_contents_def
        split: reader_pc.splits)
qed

lemma rb_inv_advance:
  assumes "rb_inv s" "rpc s = R_Fetched v r"
  shows "rb_inv (s\<lparr>rpc := R_Idle, buf := (buf s)\<lparr>read_index := next_index (buf s) r\<rparr>,
      received := received s @ [v]\<rparr>)"
proof -
  let ?b = "buf s"
  have r: "r = read_index ?b" "r \<noteq> write_index ?b" "v = rb_data ?b ! r"
    and v: "write_index ?b < length (rb_data ?b)" "r < length (rb_data ?b)"
    using assms by (auto simp: rb_inv_def reader_ok_def rb_valid_def)
  have "0 < length (rb_data ?b)" using v by linarith
  then show ?thesis
    using assms r v ring_slice_take [of r "rb_data ?b" "write_index ?b"]
      Suc_mod_inj [of "write_index ?b" "length (rb_data ?b)" r]
    by (auto simp: rb_inv_def writer_ok_def reader_ok_def rb_valid_def next_index_def rb_contents_def
        split: writer_pc.splits)
qed

lemma rb_step_inv: "rb_step s t \<Longrightarrow> rb_inv s \<Longrightarrow> rb_inv t"
proof (induction rule: rb_step.induct)
  case (w_store s v w)
  then show ?case by (simp add: rb_inv_store)
next
  case (w_publish s v w)
  then show ?case by (simp add: rb_inv_publish)
next
  case (r_advance s v r)
  then show ?case by (simp add: rb_inv_advance)
qed (auto simp: rb_inv_def writer_ok_def reader_ok_def)

lemma rb_reachable_inv: "rb_reachable data s \<Longrightarrow> data \<noteq> [] \<Longrightarrow> rb_inv s"
  by (induction rule: rb_reachable.induct) (auto intro: rb_inv_start rb_step_inv)

section \<open>Properties\<close>

text \<open>
  (C10) With one writer and one reader, at every reachable state of the interleaved loads and stores:
  the values written are the values received followed by the buffered ones (nothing is lost,
  duplicated or reordered), the buffer never holds more than its capacity, and the slot the writer
  is about to store into is never the slot the reader is about to load.
\<close>

theorem spsc_no_loss_no_race:
  assumes "rb_reachable data s" "data \<noteq> []"
  shows "sent s = received s @ rb_contents (buf s) \<and>
    length (rb_contents (buf s)) \<le> rb_capacity (buf s) \<and>
    \<not> (\<exists>v w r. wpc s = W_Checked v w \<and> rpc s = R_Checked r \<and> w = r)"
proof -
  have inv: "rb_inv s" using assms by (rule rb_reachable_inv)
  then have "length (rb_contents (buf s)) \<le> rb_capacity (buf s)"
    by (intro ring.within) (simp add: rb_inv_def)
  with inv show ?thesis
    by (auto simp: rb_inv_def writer_ok_def reader_ok_def)
qed

text \<open>One value written and, meanwhile, a second write checked and a read about to fetch.\<close>

lemma rb_reachable_example:
  "rb_reachable [0, 0, 0 :: nat]
     \<lparr>buf = \<lparr>rb_data = [7, 0, 0], rb_size = 2, write_index = 1, read_index = 0\<rparr>,
      wpc = W_Checked 9 1, rpc = R_Checked 0, sent = [7], received = []\<rparr>"
proof -
  let ?b = "\<lambda>d w. \<lparr>rb_data = d, rb_size = 2, write_index = w, read_index = 0\<rparr>"
  let ?s = "\<lambda>d w wp rp xs. \<lparr>buf = ?b d w, wpc = wp, rpc = rp, sent = xs, received = []\<rparr>"
  have "rb_reachable [0, 0, 0] (?s [0, 0, 0] 0 W_Idle R_Idle [])"
    using rb_start [of "[0, 0, 0]"] by (simp add: for_buffer_def numeral_2_eq_2)
  from rb_more [OF this w_load [of _ 7]]
  have "rb_reachable [0, 0, 0] (?s [0, 0, 0] 0 (W_Loaded 7 0) R_Idle [])" by simp
  from rb_more [OF this w_room [of _ 7 0]]
  have "rb_reachable [0, 0, 0] (?s [0, 0, 0] 0 (W_Checked 7 0) R_Idle [])" by (simp add: next_index_def)
  from rb_more [OF this w_store [of _ 7 0]]
  have "rb_reachable [0, 0, 0] (?s [7, 0, 0] 0 (W_Stored 7 0) R_Idle [])" by simp
  from rb_more [OF this w_publish [of _ 7 0]]
  have "rb_reachable [0, 0, 0] (?s [7, 0, 0] 1 W_Idle R_Idle [7])" by (simp add: next_index_def)
  from rb_more [OF this w_load [of _ 9]]
  have "rb_reachable [0, 0, 0] (?s [7, 0, 0] 1 (W_Loaded 9 1) R_Idle [7])" by simp
  from rb_more [OF this w_room [of _ 9 1]]
  have "rb_reachable [0, 0, 0] (?s [7, 0, 0] 1 (W_Checked 9 1) R_Idle [7])" by (simp add: next_index_def)
  from rb_more [OF this r_load]
  have "rb_reachable [0, 0, 0] (?s [7, 0, 0] 1 (W_Checked 9 1) (R_Loaded 0) [7])" by simp
  from rb_more [OF this r_some [of _ 0]]
  show ?thesis by simp
qed

theorem spsc_no_loss_no_race_witness:
  "length (rb_contents \<lparr>rb_data = [7, 0, 0 :: nat], rb_size = 2, write_index = 1, read_index = 0\<rparr>) \<le> 2 \<and>
   rb_contents \<lparr>rb_data = [7, 0, 0 :: nat], rb_size = 2, write_index = 1, read_index = 0\<rparr> = [7]"
  using spsc_no_loss_no_race [OF rb_reachable_example] by (simp add: rb_capacity_def)

text \<open>
  A buffer of \<open>n\<close> slots takes any \<open>n - 1\<close> values and gives them back in the order they were
  written.
\<close>

theorem ring_buffer_fifo:
  assumes "length xs < length data"
  shows "fst (take_all rb_read (length xs) (put_all rb_write xs (for_buffer data))) = xs"
proof (rule ring.fifo_order)
  show "rb_valid (for_buffer data)"
    using assms by (intro rb_valid_for_buffer) auto
  show "length xs \<le> rb_capacity (for_buffer data)"
    using assms by (simp add: rb_capacity_def for_buffer_def)
qed (rule rb_contents_for_buffer)

theorem ring_buffer_fifo_witness:
  "fst (take_all rb_read 3 (put_all rb_write [5, 6, 7 :: nat] (for_buffer [0, 0, 0, 0]))) = [5, 6, 7]"
  using ring_buffer_fifo [of "[5, 6, 7 :: nat]" "[0, 0, 0, 0]"] by (simp add: numeral_3_eq_3)

end
