(* ===== verification/Ref_Counts.thy ===== *)
theory Ref_Counts
  imports Idos_Prelude
begin

text \<open>
  Reference counting. The interface \<open>ref_counter\<close> is what the owners of shared objects rely on: a
  finite map from keys to 32-bit counts, an increment that creates the entry, a decrement that
  removes it with the last reference. \<^verbatim>\<open>kernel/src/collections/refcount.rs\<close> is modelled here and
  interprets it; the frame tracker's radix tree (theory \<open>Frame_Tracker\<close>) interprets it too.
\<close>

section \<open>The interface\<close>

datatype 'k ref_op = Ref_Add 'k | Ref_Remove 'k

fun adds_of :: "'k \<Rightarrow> 'k ref_op list \<Rightarrow> nat" where
  "adds_of k [] = 0"
| "adds_of k (Ref_Add j # ops) = (if j = k then 1 else 0) + adds_of k ops"
| "adds_of k (Ref_Remove j # ops) = adds_of k ops"

fun removes_of :: "'k \<Rightarrow> 'k ref_op list \<Rightarrow> nat" where
  "removes_of k [] = 0"
| "removes_of k (Ref_Add j # ops) = removes_of k ops"
| "removes_of k (Ref_Remove j # ops) = (if j = k then 1 else 0) + removes_of k ops"

text \<open>Starting from \<open>n\<close> references, no operation removes a reference of \<open>k\<close> that was not added.\<close>

fun balanced_from :: "nat \<Rightarrow> 'k \<Rightarrow> 'k ref_op list \<Rightarrow> bool" where
  "balanced_from n k [] = True"
| "balanced_from n k (Ref_Add j # ops) = balanced_from (if j = k then n + 1 else n) k ops"
| "balanced_from n k (Ref_Remove j # ops) =
     (if j = k then 0 < n \<and> balanced_from (n - 1) k ops else balanced_from n k ops)"

fun run_ref_ops :: "('k \<Rightarrow> 't \<Rightarrow> 't) \<Rightarrow> ('k \<Rightarrow> 't \<Rightarrow> 't) \<Rightarrow> 't \<Rightarrow> 'k ref_op list \<Rightarrow> 't" where
  "run_ref_ops add rem t [] = t"
| "run_ref_ops add rem t (Ref_Add k # ops) = run_ref_ops add rem (add k t) ops"
| "run_ref_ops add rem t (Ref_Remove k # ops) = run_ref_ops add rem (rem k t) ops"

definition count_of :: "nat \<Rightarrow> u32 option" where
  "count_of n = (if n = 0 then None else Some (of_nat n))"

fun inc_count :: "u32 option \<Rightarrow> u32" where
  "inc_count None = 1"
| "inc_count (Some c) = c + 1"

fun dec_count :: "u32 option \<Rightarrow> u32 option" where
  "dec_count None = None"
| "dec_count (Some c) = (if 1 < c then Some (c - 1) else None)"

lemma inc_count_of: "Suc n < 2 ^ 32 \<Longrightarrow> Some (inc_count (count_of n)) = count_of (Suc n)"
  by (auto simp: count_of_def)

lemma dec_count_of:
  assumes "0 < n" "n < 2 ^ 32"
  shows "dec_count (count_of n) = count_of (n - 1)"
proof -
  have "(1 < (of_nat n :: u32)) \<longleftrightarrow> 1 < n"
    using assms(2) by (simp add: word_less_nat_alt unat_of_nat_small)
  then show ?thesis
    using assms by (auto simp: count_of_def)
qed

locale ref_counter =
  fixes count :: "'t \<Rightarrow> 'k \<Rightarrow> u32 option"
    and add :: "'k \<Rightarrow> 't \<Rightarrow> 't"
    and rem :: "'k \<Rightarrow> 't \<Rightarrow> 't"
    and ok :: "'t \<Rightarrow> bool"
    and key :: "'k \<Rightarrow> bool"
  assumes count_add: "ok t \<Longrightarrow> key k \<Longrightarrow> key j \<Longrightarrow>
      count (add k t) j = (if j = k then Some (inc_count (count t k)) else count t j)"
    and count_rem: "ok t \<Longrightarrow> key k \<Longrightarrow> key j \<Longrightarrow>
      count (rem k t) j = (if j = k then dec_count (count t k) else count t j)"
    and ok_add: "ok t \<Longrightarrow> key k \<Longrightarrow> ok (add k t)"
    and ok_rem: "ok t \<Longrightarrow> key k \<Longrightarrow> ok (rem k t)"
begin

text \<open>The count is exactly the references added and not yet removed.\<close>

lemma count_exact:
  "ok t \<Longrightarrow> \<forall>op \<in> set ops. (case op of Ref_Add j \<Rightarrow> key j | Ref_Remove j \<Rightarrow> key j) \<Longrightarrow> key k \<Longrightarrow>
   count t k = count_of n \<Longrightarrow> balanced_from n k ops \<Longrightarrow> n + adds_of k ops < 2 ^ 32 \<Longrightarrow>
   count (run_ref_ops add rem t ops) k = count_of (n + adds_of k ops - removes_of k ops)"
proof (induction ops arbitrary: t n)
  case (Cons op ops)
  show ?case
  proof (cases op)
    case (Ref_Add j)
    then have j: "key j" "ok (add j t)" using Cons.prems ok_add by auto
    show ?thesis
    proof (cases "j = k")
      case True
      have "count (add j t) k = count_of (Suc n)"
        using Cons.prems True Ref_Add j inc_count_of [of n] by (simp add: count_add)
      then show ?thesis
        using Cons.IH [of "add j t" "Suc n"] Cons.prems True Ref_Add j by simp
    next
      case False
      then show ?thesis
        using Cons.IH [of "add j t" n] Cons.prems Ref_Add j by (simp add: count_add)
    qed
  next
    case (Ref_Remove j)
    then have j: "key j" "ok (rem j t)" using Cons.prems ok_rem by auto
    show ?thesis
    proof (cases "j = k")
      case True
      then have n: "0 < n" "n < 2 ^ 32" using Cons.prems Ref_Remove by auto
      have "count (rem j t) k = count_of (n - 1)"
        using Cons.prems True Ref_Remove j dec_count_of [OF n] by (simp add: count_rem)
      then show ?thesis
        using Cons.IH [of "rem j t" "n - 1"] Cons.prems True Ref_Remove j n by simp
    next
      case False
      then show ?thesis
        using Cons.IH [of "rem j t" n] Cons.prems Ref_Remove j by (simp add: count_rem)
    qed
  qed
qed simp

end

section \<open>RefCountMap\<close>

record 'k ref_count_map =
  rc_map :: "'k \<rightharpoonup> u32"

definition ref_count_new :: "'k ref_count_map" where
  "ref_count_new = \<lparr>rc_map = Map.empty\<rparr>"

definition rc_add_reference :: "'k \<Rightarrow> 'k ref_count_map \<Rightarrow> u32 \<times> 'k ref_count_map" where
  "rc_add_reference t m =
     (case rc_map m t of
        Some count \<Rightarrow> (count + 1, m\<lparr>rc_map := (rc_map m)(t \<mapsto> count + 1)\<rparr>)
      | None \<Rightarrow> (1, m\<lparr>rc_map := (rc_map m)(t \<mapsto> 1)\<rparr>))"

definition rc_remove_reference :: "'k \<Rightarrow> 'k ref_count_map \<Rightarrow> u32 \<times> 'k ref_count_map" where
  "rc_remove_reference t m =
     (case rc_map m t of
        Some count \<Rightarrow>
          let c = sat_sub count 1
          in if 0 < c then (c, m\<lparr>rc_map := (rc_map m)(t \<mapsto> c)\<rparr>)
             else (0, m\<lparr>rc_map := (rc_map m)(t := None)\<rparr>)
      | None \<Rightarrow> (0, m))"

definition rc_contains :: "'k ref_count_map \<Rightarrow> 'k \<Rightarrow> bool" where
  "rc_contains m t \<longleftrightarrow> rc_map m t \<noteq> None"

lemma sat_sub_1: "0 < sat_sub c 1 \<longleftrightarrow> 1 < c" "0 < sat_sub c 1 \<Longrightarrow> sat_sub c 1 = c - 1" for c :: u32
  by (auto simp: sat_sub_def word_less_nat_alt word_le_nat_alt unat_sub)

lemma rc_add_map: "rc_map (snd (rc_add_reference k m)) = (rc_map m)(k \<mapsto> inc_count (rc_map m k))"
  by (simp add: rc_add_reference_def split: option.splits)

lemma rc_remove_map: "rc_map (snd (rc_remove_reference k m)) = (rc_map m)(k := dec_count (rc_map m k))"
  by (auto simp: rc_remove_reference_def Let_def sat_sub_1 fun_upd_idem split: option.splits)

lemma rc_results:
  "fst (rc_add_reference k m) = inc_count (rc_map m k)"
  "fst (rc_remove_reference k m) = (case dec_count (rc_map m k) of None \<Rightarrow> 0 | Some c \<Rightarrow> c)"
  by (auto simp: rc_add_reference_def rc_remove_reference_def Let_def sat_sub_1 split: option.splits)

interpretation rc: ref_counter rc_map "\<lambda>k m. snd (rc_add_reference k m)"
  "\<lambda>k m. snd (rc_remove_reference k m)" "\<lambda>_. True" "\<lambda>_. True"
  by unfold_locales (auto simp: rc_add_map rc_remove_map)

text \<open>
  After any sequence of additions and removals in which no reference is removed before it was
  added, the count of a key is the number of additions minus the number of removals, and the key is
  absent exactly when these are equal.
\<close>

theorem ref_count_map_exact:
  assumes "balanced_from 0 k ops" "adds_of k ops < 2 ^ 32"
  shows "rc_map (run_ref_ops (\<lambda>k m. snd (rc_add_reference k m)) (\<lambda>k m. snd (rc_remove_reference k m))
      ref_count_new ops) k = count_of (adds_of k ops - removes_of k ops)"
  using rc.count_exact [where t = ref_count_new and ops = ops and k = k and n = 0] assms
  by (auto simp: ref_count_new_def count_of_def split: ref_op.splits)

theorem ref_count_map_exact_witness:
  "rc_map (run_ref_ops (\<lambda>k m. snd (rc_add_reference k m)) (\<lambda>k m. snd (rc_remove_reference k m))
      ref_count_new [Ref_Add CHR ''a'', Ref_Add CHR ''b'', Ref_Add CHR ''a'', Ref_Remove CHR ''a'']) CHR ''a'' = Some 1"
  using ref_count_map_exact [of "CHR ''a''" "[Ref_Add CHR ''a'', Ref_Add CHR ''b'', Ref_Add CHR ''a'', Ref_Remove CHR ''a'']"]
  by (simp add: count_of_def)

end
