(* ===== verification/Address.thy ===== *)
theory Address
  imports Idos_Prelude
begin

text \<open>
  \<^verbatim>\<open>kernel/src/memory/address.rs\<close> and \<^verbatim>\<open>kernel/src/memory/physical/range.rs\<close>: physical and virtual
  addresses (transparent wrappers of a 32-bit word, so plain words here) and ranges of physical
  frames. Addition wraps, subtraction saturates at zero.
\<close>

section \<open>Addresses\<close>

type_synonym phys_addr = u32
type_synonym virt_addr = u32

definition addr_add :: "u32 \<Rightarrow> u32 \<Rightarrow> u32" where
  "addr_add addr rhs = addr + rhs"

definition addr_sub :: "u32 \<Rightarrow> u32 \<Rightarrow> u32" where
  "addr_sub addr rhs = sat_sub addr rhs"

definition get_page_directory_index :: "virt_addr \<Rightarrow> nat" where
  "get_page_directory_index a = unat (drop_bit 22 a)"

definition get_page_table_index :: "virt_addr \<Rightarrow> nat" where
  "get_page_table_index a = unat (drop_bit 12 a AND 0x3ff)"

definition is_page_aligned :: "virt_addr \<Rightarrow> bool" where
  "is_page_aligned a \<longleftrightarrow> a AND 0xfff = 0"

definition next_page_barrier :: "virt_addr \<Rightarrow> virt_addr" where
  "next_page_barrier a =
     (if a AND 0xfff = 0 then a else (let nxt = a + 0x1000 in nxt AND 0xfffff000))"

definition prev_page_barrier :: "virt_addr \<Rightarrow> virt_addr" where
  "prev_page_barrier a = a AND 0xfffff000"

datatype bound = Unbounded | Included u32 | Excluded u32

definition get_first :: "bound \<Rightarrow> u32" where
  "get_first b = (case b of Unbounded \<Rightarrow> 0 | Included a \<Rightarrow> a | Excluded a \<Rightarrow> addr_add a 1)"

definition get_last :: "bound \<Rightarrow> u32" where
  "get_last b = (case b of Unbounded \<Rightarrow> 0xffffffff | Included a \<Rightarrow> a | Excluded a \<Rightarrow> addr_sub a 1)"

lemma is_page_aligned_iff: "is_page_aligned a \<longleftrightarrow> unat a mod 4096 = 0"
  by (simp add: is_page_aligned_def page_offset_0)

lemma unat_prev_page_barrier [simp]: "unat (prev_page_barrier a) = unat a - unat a mod 4096"
  by (simp add: prev_page_barrier_def)

lemma prev_page_barrier_aligned: "is_page_aligned (prev_page_barrier a)"
proof -
  have "unat a - unat a mod 4096 = 4096 * (unat a div 4096)"
    using minus_mod_eq_mult_div [of "unat a" 4096] by simp
  then show ?thesis
    by (simp add: is_page_aligned_iff)
qed

lemma prev_page_barrier_le: "prev_page_barrier a \<le> a"
  by (simp add: word_le_nat_alt)

text \<open>
  Below the last page the barrier is the next multiple of the page size; inside the last page
  the sum wraps and the barrier is address zero.
\<close>

lemma unat_next_page_barrier:
  "unat a \<le> 0xfffff000 \<Longrightarrow> unat (next_page_barrier a) = (unat a + 4095) div 4096 * 4096"
proof -
  assume small: "unat a \<le> 0xfffff000"
  have round: "(unat a + 4095) div 4096 * 4096 =
      (if unat a mod 4096 = 0 then unat a else unat a + 4096 - unat a mod 4096)"
    using round_up_cases [of 4096 "unat a"] by simp
  show ?thesis
  proof (cases "unat a mod 4096 = 0")
    case True
    then show ?thesis
      by (simp only: round next_page_barrier_def page_offset_0 simp_thms if_True)
  next
    case False
    have "unat a \<noteq> 0xfffff000" using False by auto
    with small have "unat (a + 0x1000) = unat a + 4096"
      using unat_add_small [of a "0x1000"] by simp
    with False show ?thesis
      by (simp add: round next_page_barrier_def page_offset_0 Let_def)
  qed
qed

lemma next_page_barrier_wraps: "0xfffff000 < unat a \<Longrightarrow> next_page_barrier a = 0"
proof -
  assume big: "0xfffff000 < unat a"
  define r where "r = unat a - 0xfffff000"
  have a: "unat a = 0xfffff000 + r" and r: "0 < r" "r < 4096"
    using big unat_less_max32 [of a] unfolding r_def by linarith+
  have off: "unat a mod 4096 = r"
    using r by (simp add: a mod_add_eq [of "0xfffff000" 4096 r, symmetric])
  have "unat (a + 0x1000) = r"
    using r by (simp add: unat_word_ariths a)
  then have "unat (next_page_barrier a) = 0"
    using off r by (simp add: next_page_barrier_def page_offset_0 Let_def)
  then show ?thesis by (simp add: unat_eq_zero)
qed

text \<open>The two table indices and the page offset determine the address.\<close>

lemma ten_bit_mask: "(0x3ff :: u32) = mask 10"
  by (simp add: mask_eq_exp_minus_1)

lemma page_indices_decompose:
  "unat a = get_page_directory_index a * 2 ^ 22 + get_page_table_index a * 2 ^ 12 + unat a mod 2 ^ 12"
proof -
  have "unat a div 4194304 = unat a div 4096 div 1024"
    by (simp add: div_mult2_eq [of _ 4096 1024, simplified, symmetric])
  then have "unat a = unat a div 4194304 * 4194304 + unat a div 4096 mod 1024 * 4096 + unat a mod 4096"
    using div_mult_mod_eq [of "unat a" 4096] div_mult_mod_eq [of "unat a div 4096" 1024] by linarith
  then show ?thesis
    by (simp only: get_page_directory_index_def get_page_table_index_def ten_bit_mask unat_and_mask
        unat_drop_bit) simp
qed

section \<open>Frame ranges\<close>

record frame_range =
  fr_start :: phys_addr
  fr_length :: u32

definition frame_range_new :: "phys_addr \<Rightarrow> u32 \<Rightarrow> frame_range" where
  "frame_range_new start len = \<lparr>fr_start = start, fr_length = len\<rparr>"

definition get_first_frame_index :: "frame_range \<Rightarrow> nat" where
  "get_first_frame_index r = unat (drop_bit 12 (fr_start r))"

definition get_last_frame_index :: "frame_range \<Rightarrow> nat" where
  "get_last_frame_index r = unat (drop_bit 12 (fr_start r + fr_length r - 1))"

definition get_starting_address :: "frame_range \<Rightarrow> phys_addr" where
  "get_starting_address r = fr_start r"

definition get_final_address :: "frame_range \<Rightarrow> phys_addr" where
  "get_final_address r = addr_add (fr_start r) (fr_length r - 1)"

definition contains_address :: "frame_range \<Rightarrow> phys_addr \<Rightarrow> bool" where
  "contains_address r addr \<longleftrightarrow> fr_start r \<le> addr \<and> addr \<le> get_final_address r"

definition size_in_bytes :: "frame_range \<Rightarrow> u32" where
  "size_in_bytes r = fr_length r"

definition frame_range_eq :: "frame_range \<Rightarrow> frame_range \<Rightarrow> bool" where
  "frame_range_eq a b \<longleftrightarrow>
     get_starting_address a = get_starting_address b \<and> size_in_bytes a = size_in_bytes b"

text \<open>A range that is not empty and does not run past the end of the address space.\<close>

definition frame_range_ok :: "frame_range \<Rightarrow> bool" where
  "frame_range_ok r \<longleftrightarrow> 0 < unat (fr_length r) \<and> unat (fr_start r) + unat (fr_length r) \<le> 2 ^ 32"

lemma unat_final_address:
  assumes "frame_range_ok r"
  shows "unat (get_final_address r) = unat (fr_start r) + unat (fr_length r) - 1"
    and "fr_start r + fr_length r - 1 = get_final_address r"
proof -
  have "1 \<le> fr_length r"
    using assms by (simp add: frame_range_ok_def word_le_nat_alt)
  then have len: "unat (fr_length r - 1) = unat (fr_length r) - 1"
    by (simp add: unat_sub)
  then show "unat (get_final_address r) = unat (fr_start r) + unat (fr_length r) - 1"
    using assms unat_add_small [of "fr_start r" "fr_length r - 1"]
    by (auto simp: get_final_address_def addr_add_def frame_range_ok_def)
  show "fr_start r + fr_length r - 1 = get_final_address r"
    by (simp add: get_final_address_def addr_add_def algebra_simps)
qed

lemma frame_indices:
  assumes "frame_range_ok r"
  shows "get_first_frame_index r = unat (fr_start r) div 4096"
    and "get_last_frame_index r = (unat (fr_start r) + unat (fr_length r) - 1) div 4096"
  by (simp_all only: get_first_frame_index_def get_last_frame_index_def unat_drop_bit
      unat_final_address [OF assms]) simp_all

lemma contains_address_iff:
  "frame_range_ok r \<Longrightarrow> contains_address r a \<longleftrightarrow>
     unat (fr_start r) \<le> unat a \<and> unat a < unat (fr_start r) + unat (fr_length r)"
  using unat_final_address(1) [of r]
  by (auto simp: contains_address_def word_le_nat_alt frame_range_ok_def)

end
