(* ===== verification/Frame_Bitmap.thy ===== *)
theory Frame_Bitmap
  imports Address
begin

text \<open>
  \<^verbatim>\<open>kernel/src/memory/physical/bitmap.rs\<close> and \<^verbatim>\<open>bios.rs\<close>: the frame allocator. One bit per 4 KiB frame,
  set while the frame is in use; the bitmap is the byte list the \<^verbatim>\<open>FrameBitmap\<close> slice points to.
  Frame indices are natural numbers (they stay below 2^20 on a 32-bit machine), byte offsets and
  lengths in memory are words.
\<close>

section \<open>The bitmap\<close>

datatype bitmap_error = NoAvailableSpace | OutOfBounds | AlreadyFree

type_synonym frame_bitmap = "u8 list"

definition bitmap_byte_size :: "nat \<Rightarrow> nat" where
  "bitmap_byte_size frame_count =
     (let byte_size = frame_count div 8 in if frame_count mod 8 \<noteq> 0 then byte_size + 1 else byte_size)"

definition at_location :: "(u32 \<Rightarrow> u8) \<Rightarrow> phys_addr \<Rightarrow> nat \<Rightarrow> frame_bitmap" where
  "at_location mem start frame_count =
     map (\<lambda>i. mem (start + of_nat i)) [0..<bitmap_byte_size frame_count]"

definition bitmap_reset :: "frame_bitmap \<Rightarrow> frame_bitmap" where
  "bitmap_reset m = fold (\<lambda>i m. m[i := 0xff]) [0..<length m] m"

definition total_frame_count :: "frame_bitmap \<Rightarrow> nat" where
  "total_frame_count m = length m * 8"

definition bitmap_size_in_frames :: "frame_bitmap \<Rightarrow> nat" where
  "bitmap_size_in_frames m =
     (let byte_size = length m; frame_count = byte_size div 4096
      in if byte_size mod 4096 = 0 then frame_count else frame_count + 1)"

definition bitmap_size_in_bytes :: "frame_bitmap \<Rightarrow> nat" where
  "bitmap_size_in_bytes m = length m"

text \<open>The byte and mask arithmetic every operation repeats.\<close>

definition frame_taken :: "frame_bitmap \<Rightarrow> nat \<Rightarrow> bool" where
  "frame_taken m frame \<longleftrightarrow> m ! (frame div 8) AND push_bit (frame mod 8) 1 \<noteq> 0"

definition clear_frame :: "nat \<Rightarrow> frame_bitmap \<Rightarrow> frame_bitmap" where
  "clear_frame frame m =
     m[frame div 8 := m ! (frame div 8) AND NOT (push_bit (frame mod 8) 1)]"

definition set_frame :: "nat \<Rightarrow> frame_bitmap \<Rightarrow> frame_bitmap" where
  "set_frame frame m = m[frame div 8 := m ! (frame div 8) OR push_bit (frame mod 8) 1]"

definition contains_range :: "frame_bitmap \<Rightarrow> frame_range \<Rightarrow> bool" where
  "contains_range m r \<longleftrightarrow> get_last_frame_index r < total_frame_count m"

definition range_frames :: "frame_range \<Rightarrow> nat list" where
  "range_frames r = [get_first_frame_index r..<Suc (get_last_frame_index r)]"

definition free_range :: "frame_bitmap \<Rightarrow> frame_range \<Rightarrow> bitmap_error + frame_bitmap" where
  "free_range m r =
     (if \<not> contains_range m r then Inl OutOfBounds
      else Inr (fold clear_frame (range_frames r) m))"

definition free_frame :: "frame_bitmap \<Rightarrow> phys_addr \<Rightarrow> bitmap_error + frame_bitmap" where
  "free_frame m addr =
     (let frame_index = unat (drop_bit 12 addr)
      in if frame_index \<ge> total_frame_count m then Inl OutOfBounds
         else if \<not> frame_taken m frame_index then Inl AlreadyFree
         else Inr (clear_frame frame_index m))"

definition is_range_free :: "frame_bitmap \<Rightarrow> frame_range \<Rightarrow> bool" where
  "is_range_free m r \<longleftrightarrow>
     contains_range m r \<and> list_all (\<lambda>frame. \<not> frame_taken m frame) (range_frames r)"

definition is_address_allocated :: "frame_bitmap \<Rightarrow> phys_addr \<Rightarrow> bool" where
  "is_address_allocated m addr \<longleftrightarrow>
     (let frame_index = unat (drop_bit 12 addr)
      in if frame_index \<ge> total_frame_count m then False else frame_taken m frame_index)"

text \<open>
  The search of \<^verbatim>\<open>find_free_range\<close>. \<open>remaining\<close> is a machine word: a request for zero frames wraps
  it.
\<close>

function find_free_loop :: "frame_bitmap \<Rightarrow> u32 \<Rightarrow> nat \<Rightarrow> u32 \<Rightarrow> nat \<Rightarrow> frame_range option" where
  "find_free_loop m frame_count frame remaining search_start =
     (if frame < total_frame_count m then
        if frame_taken m frame
        then find_free_loop m frame_count (frame + 1) frame_count (frame + 1)
        else if remaining - 1 = 0
        then Some (frame_range_new (of_nat (search_start * 4096))
                     (of_nat ((frame + 1 - search_start) * 4096)))
        else find_free_loop m frame_count (frame + 1) (remaining - 1) search_start
      else None)"
  by auto
termination
  by (relation "measure (\<lambda>(m, _, frame, _). total_frame_count m - frame)") auto

declare find_free_loop.simps [simp del]

definition find_free_range :: "frame_bitmap \<Rightarrow> u32 \<Rightarrow> frame_range option" where
  "find_free_range m frame_count = find_free_loop m frame_count 0 frame_count 0"

definition allocate_range :: "frame_bitmap \<Rightarrow> frame_range \<Rightarrow> bitmap_error + frame_bitmap" where
  "allocate_range m r =
     (if \<not> contains_range m r then Inl OutOfBounds
      else Inr (fold set_frame (range_frames r) m))"

definition bitmap_allocate_frames ::
  "frame_bitmap \<Rightarrow> u32 \<Rightarrow> bitmap_error + (frame_range \<times> frame_bitmap)" where
  "bitmap_allocate_frames m frame_count =
     (case find_free_range m frame_count of
        None \<Rightarrow> Inl NoAvailableSpace
      | Some r \<Rightarrow> (case allocate_range m r of Inl e \<Rightarrow> Inl e | Inr m' \<Rightarrow> Inr (r, m')))"

text \<open>
  Counting free frames: the inner loop walks the mask through the eight bits of a byte (the mask
  \<open>1 << k\<close> is carried as \<open>k\<close>), the outer loop skips full bytes one frame at a time.
\<close>

function count_byte_loop :: "u8 \<Rightarrow> nat \<Rightarrow> nat \<Rightarrow> nat \<Rightarrow> nat \<times> nat" where
  "count_byte_loop map_value k frame free =
     (let mask = push_bit k 1 :: u8
      in if mask \<noteq> 0
         then count_byte_loop map_value (k + 1) (frame + 1)
                (if map_value AND mask = 0 then free + 1 else free)
         else (frame, free))"
  by auto
termination
proof (relation "measure (\<lambda>(_, k, _). 8 - k)", goal_cases)
  case (2 map_value k frame free x)
  then have "k < 8"
    by (simp add: push_bit_eq_mult)
  then show ?case by simp
qed simp

declare count_byte_loop.simps [simp del]

lemma mask_nonzero_iff: "(push_bit k 1 :: u8) \<noteq> 0 \<longleftrightarrow> k < 8"
  by (auto simp: push_bit_eq_mult)

lemma byte_mask_iff: "(b :: u8) AND 2 ^ k = 0 \<longleftrightarrow> \<not> bit b k"
  using bit_iff_and_push_bit_not_eq_0 [of b k] by simp

lemma bit_byte_exp: "k < 8 \<Longrightarrow> bit (2 ^ k :: u8) j \<longleftrightarrow> j = k"
  by (auto simp: bit_exp_iff)

lemma count_byte_loop_eq:
  "k \<le> 8 \<Longrightarrow> count_byte_loop v k frame free =
     (frame + (8 - k), free + length (filter (\<lambda>i. \<not> bit v i) [k..<8]))"
proof (induction v k frame free rule: count_byte_loop.induct)
  case (1 v k frame free)
  show ?case
  proof (cases "k < 8")
    case True
    then have "[k..<8] = k # [k + 1..<8]"
      by (simp add: upt_conv_Cons)
    then show ?thesis
      using True 1
      by (simp add: count_byte_loop.simps [of v k] Let_def byte_mask_iff) arith
  next
    case False
    then have "k = 8" using 1 by simp
    then show ?thesis
      by (simp add: count_byte_loop.simps [of v 8] Let_def)
  qed
qed

function free_count_loop :: "frame_bitmap \<Rightarrow> nat \<Rightarrow> nat \<Rightarrow> nat" where
  "free_count_loop m frame free =
     (if frame < total_frame_count m then
        let map_value = m ! (frame div 8)
        in if map_value \<noteq> 0xff
           then (case count_byte_loop map_value 0 frame free of
                   (frame', free') \<Rightarrow> free_count_loop m frame' free')
           else free_count_loop m (frame + 1) free
      else free)"
  by auto
termination
  by (relation "measure (\<lambda>(m, frame, _). total_frame_count m - frame)")
    (auto simp: count_byte_loop_eq)

declare free_count_loop.simps [simp del]

definition get_free_frame_count :: "frame_bitmap \<Rightarrow> nat" where
  "get_free_frame_count m = free_count_loop m 0 0"

section \<open>Initialisation from the BIOS memory map\<close>

record map_entry =
  me_base :: u64
  me_length :: u64
  me_region_type :: u32
  me_acpi :: u32

definition REGION_TYPE_FREE :: u32 where
  "REGION_TYPE_FREE = 1"

definition REGION_TYPE_RESERVED :: u32 where
  "REGION_TYPE_RESERVED = 2"

definition me_is_reserved :: "map_entry \<Rightarrow> bool" where
  "me_is_reserved e \<longleftrightarrow> me_region_type e = REGION_TYPE_RESERVED"

definition entry_range :: "map_entry \<Rightarrow> frame_range" where
  "entry_range e = frame_range_new (ucast (me_base e)) (ucast (me_length e))"

fun free_map_entries ::
  "map_entry list \<Rightarrow> u32 \<Rightarrow> frame_bitmap \<Rightarrow> frame_bitmap \<times> (bitmap_error + u32)" where
  "free_map_entries [] total_length m = (m, Inr total_length)"
| "free_map_entries (e # es) total_length m =
     (if me_region_type e = REGION_TYPE_FREE then
        (case free_range m (entry_range e) of
           Inl err \<Rightarrow> (m, Inl err)
         | Inr m' \<Rightarrow> free_map_entries es (total_length + ucast (me_length e)) m')
      else free_map_entries es total_length m)"

definition initialize_from_memory_map ::
  "frame_bitmap \<Rightarrow> map_entry list \<Rightarrow> frame_bitmap \<times> (bitmap_error + u32)" where
  "initialize_from_memory_map m entries = free_map_entries entries 0 (bitmap_reset m)"

section \<open>What the bits mean\<close>

lemma frame_taken_bit: "frame_taken m f \<longleftrightarrow> bit (m ! (f div 8)) (f mod 8)"
  by (simp add: frame_taken_def byte_mask_iff)

lemma length_clear_frame [simp]: "length (clear_frame f m) = length m"
  by (simp add: clear_frame_def)

lemma length_set_frame [simp]: "length (set_frame f m) = length m"
  by (simp add: set_frame_def)

lemma total_clear_frame [simp]: "total_frame_count (clear_frame f m) = total_frame_count m"
  by (simp add: total_frame_count_def)

lemma total_set_frame [simp]: "total_frame_count (set_frame f m) = total_frame_count m"
  by (simp add: total_frame_count_def)

lemma frame_byte_in_bounds: "f < total_frame_count m \<Longrightarrow> f div 8 < length m"
  by (simp add: total_frame_count_def less_mult_imp_div_less)

lemma frame_split_eq: "(f :: nat) = g \<longleftrightarrow> f div 8 = g div 8 \<and> f mod 8 = g mod 8"
  by (metis div_mult_mod_eq)

lemma frame_taken_set:
  "f < total_frame_count m \<Longrightarrow> frame_taken (set_frame f m) g \<longleftrightarrow> frame_taken m g \<or> g = f"
  using frame_byte_in_bounds [of f m]
  by (auto simp: frame_taken_bit set_frame_def nth_list_update_if frame_split_eq [of g f]
      bit_or_iff bit_byte_exp)

lemma frame_taken_clear:
  "f < total_frame_count m \<Longrightarrow> frame_taken (clear_frame f m) g \<longleftrightarrow> frame_taken m g \<and> g \<noteq> f"
  using frame_byte_in_bounds [of f m]
  by (auto simp: frame_taken_bit clear_frame_def nth_list_update_if frame_split_eq [of g f]
      bit_and_iff bit_not_iff bit_byte_exp)

lemma fold_set_frame:
  "\<forall>f \<in> set fs. f < total_frame_count m \<Longrightarrow>
     length (fold set_frame fs m) = length m \<and>
     (\<forall>g. frame_taken (fold set_frame fs m) g \<longleftrightarrow> frame_taken m g \<or> g \<in> set fs)"
  by (induction fs arbitrary: m) (auto simp: frame_taken_set)

lemma fold_clear_frame:
  "\<forall>f \<in> set fs. f < total_frame_count m \<Longrightarrow>
     length (fold clear_frame fs m) = length m \<and>
     (\<forall>g. frame_taken (fold clear_frame fs m) g \<longleftrightarrow> frame_taken m g \<and> g \<notin> set fs)"
  by (induction fs arbitrary: m) (auto simp: frame_taken_clear)

text \<open>Every frame a contained range names has its byte in the slice, so no index panics.\<close>

lemma range_frames_in_bounds:
  "contains_range m r \<Longrightarrow> f \<in> set (range_frames r) \<Longrightarrow> f < total_frame_count m"
  by (auto simp: contains_range_def range_frames_def)

lemma allocate_range_spec:
  "allocate_range m r = Inr m' \<Longrightarrow>
     contains_range m r \<and> length m' = length m \<and>
     (\<forall>g. frame_taken m' g \<longleftrightarrow> frame_taken m g \<or> g \<in> set (range_frames r))"
  using fold_set_frame [of "range_frames r" m] range_frames_in_bounds [of m r]
  by (auto simp: allocate_range_def split: if_splits)

lemma free_range_spec:
  "free_range m r = Inr m' \<Longrightarrow>
     contains_range m r \<and> length m' = length m \<and>
     (\<forall>g. frame_taken m' g \<longleftrightarrow> frame_taken m g \<and> g \<notin> set (range_frames r))"
  using fold_clear_frame [of "range_frames r" m] range_frames_in_bounds [of m r]
  by (auto simp: free_range_def split: if_splits)

section \<open>First fit\<close>

text \<open>A bitmap of at most 2^20 frames: all of a 32-bit physical address space.\<close>

definition bitmap_ok :: "frame_bitmap \<Rightarrow> bool" where
  "bitmap_ok m \<longleftrightarrow> length m \<le> 2 ^ 17"

definition fits :: "frame_bitmap \<Rightarrow> nat \<Rightarrow> nat \<Rightarrow> bool" where
  "fits m n s \<longleftrightarrow> s + n \<le> total_frame_count m \<and> (\<forall>f \<in> {s..<s + n}. \<not> frame_taken m f)"

definition frames_at :: "nat \<Rightarrow> nat \<Rightarrow> frame_range" where
  "frames_at s n = frame_range_new (of_nat (s * 4096)) (of_nat (n * 4096))"

lemma of_nat_minus_1: "0 < k \<Longrightarrow> (of_nat k :: u32) - 1 = of_nat (k - 1)"
  by (cases k) auto

lemma of_nat_0_small: "k < 2 ^ 32 \<Longrightarrow> (of_nat k :: u32) = 0 \<longleftrightarrow> k = 0"
  by (auto simp: word_of_nat_eq_0_iff dest: dvd_imp_le)

text \<open>
  The loop invariant: the current candidate starts at \<open>start\<close>, the frames seen since are free, and
  no earlier start fits.
\<close>

definition search_inv :: "frame_bitmap \<Rightarrow> nat \<Rightarrow> nat \<Rightarrow> u32 \<Rightarrow> nat \<Rightarrow> bool" where
  "search_inv m n frame remaining start \<longleftrightarrow>
     start \<le> frame \<and> frame \<le> total_frame_count m \<and> frame - start < n \<and>
     remaining = of_nat (n - (frame - start)) \<and>
     (\<forall>f \<in> {start..<frame}. \<not> frame_taken m f) \<and> (\<forall>s < start. \<not> fits m n s)"

lemma search_inv_taken:
  assumes "search_inv m n frame remaining start" "frame < total_frame_count m" "frame_taken m frame"
  shows "search_inv m n (frame + 1) (of_nat n) (frame + 1)"
proof -
  have "\<not> fits m n s" if "s < frame + 1" for s
    using that assms by (cases "s < start") (auto simp: fits_def search_inv_def)
  then show ?thesis
    using assms by (simp add: search_inv_def)
qed

lemma search_inv_free:
  assumes "search_inv m n frame remaining start" "frame < total_frame_count m"
    "\<not> frame_taken m frame" "n < 2 ^ 32"
  shows "remaining - 1 = 0 \<Longrightarrow> frame + 1 - start = n \<and> fits m n start \<and> (\<forall>s < start. \<not> fits m n s)"
    and "remaining - 1 \<noteq> 0 \<Longrightarrow> search_inv m n (frame + 1) (remaining - 1) start"
proof -
  let ?k = "n - (frame - start)"
  have k: "0 < ?k" "?k < 2 ^ 32" "remaining = of_nat ?k"
    using assms by (auto simp: search_inv_def)
  then have rem: "remaining - 1 = of_nat (?k - 1)"
    by (simp add: of_nat_minus_1)
  have all_free: "\<forall>f \<in> {start..<frame + 1}. \<not> frame_taken m f"
    using assms by (auto simp: search_inv_def less_Suc_eq)
  show "frame + 1 - start = n \<and> fits m n start \<and> (\<forall>s < start. \<not> fits m n s)" if "remaining - 1 = 0"
  proof -
    have "?k - 1 = 0"
      using that k(2) rem of_nat_0_small [of "?k - 1"] by simp
    then have n: "start + n = frame + 1"
      using assms(1) k by (auto simp: search_inv_def)
    then show ?thesis
      using assms all_free by (auto simp: search_inv_def fits_def)
  qed
  show "search_inv m n (frame + 1) (remaining - 1) start" if "remaining - 1 \<noteq> 0"
  proof -
    have "?k - 1 \<noteq> 0"
      using that rem by auto
    then have "frame + 1 - start < n" "?k - 1 = n - (frame + 1 - start)"
      using assms(1) by (auto simp: search_inv_def)
    then show ?thesis
      using assms all_free rem by (simp add: search_inv_def)
  qed
qed

lemma find_free_loop_spec:
  "unat fc = n \<Longrightarrow> search_inv m n frame remaining start \<Longrightarrow>
    find_free_loop m fc frame remaining start =
      (if \<exists>s. fits m n s then Some (frames_at (LEAST s. fits m n s) n) else None)"
proof (induction m fc frame remaining start rule: find_free_loop.induct)
  case (1 m fc frame remaining start)
  have nmax: "n < 2 ^ 32" and fc: "of_nat n = fc"
    using unat_less_max32 [of fc] "1.prems"(1) by auto
  note unfold = find_free_loop.simps [of m fc frame]
  show ?case
  proof (cases "frame < total_frame_count m")
    case False
    then have "\<not> fits m n s" for s
      using "1.prems" by (cases "s < start") (auto simp: fits_def search_inv_def)
    then show ?thesis
      using False by (simp add: unfold)
  next
    case inside: True
    show ?thesis
    proof (cases "frame_taken m frame")
      case True
      have "search_inv m n (frame + 1) fc (frame + 1)"
        using search_inv_taken [OF "1.prems"(2) inside True] fc by simp
      then show ?thesis
        using "1.IH"(1) [OF inside True "1.prems"(1)] inside True by (simp add: unfold)
    next
      case False
      note inv = search_inv_free [OF "1.prems"(2) inside False nmax]
      show ?thesis
      proof (cases "remaining - 1 = 0")
        case True
        note hit = inv(1) [OF True]
        have "(LEAST s. fits m n s) = start"
        proof (rule Least_equality)
          show "start \<le> s" if "fits m n s" for s
            using hit that not_le_imp_less by blast
        qed (use hit in simp)
        moreover have "\<exists>s. fits m n s" using hit by blast
        moreover have "find_free_loop m fc frame remaining start = Some (frames_at start n)"
          using inside False True hit by (simp add: unfold frames_at_def del: of_nat_mult)
        ultimately show ?thesis by simp
      next
        case more: False
        show ?thesis
          using "1.IH"(2) [OF inside False more "1.prems"(1) inv(2) [OF more]] inside False more
          by (simp add: unfold)
      qed
    qed
  qed
qed

lemma find_free_range_spec:
  "0 < fc \<Longrightarrow> find_free_range m fc =
     (if \<exists>s. fits m (unat fc) s then Some (frames_at (LEAST s. fits m (unat fc) s) (unat fc)) else None)"
  unfolding find_free_range_def
  by (rule find_free_loop_spec) (auto simp: search_inv_def unat_gt_0)

section \<open>Allocation\<close>

lemma frame_indices_at:
  assumes "0 < n" "s + n \<le> 2 ^ 20"
  shows "get_first_frame_index (frames_at s n) = s"
    and "get_last_frame_index (frames_at s n) = s + n - 1"
proof -
  show "get_first_frame_index (frames_at s n) = s"
    using assms
    by (simp only: get_first_frame_index_def frames_at_def frame_range_new_def frame_range.simps
        unat_drop_bit) (simp add: unat_of_nat_small del: of_nat_mult)
  have "(of_nat (s * 4096) :: u32) + of_nat (n * 4096) - 1 = of_nat ((s + n) * 4096) - 1"
    by (simp add: algebra_simps)
  also have "\<dots> = of_nat ((s + n) * 4096 - 1)"
    using assms by (intro of_nat_minus_1) simp
  finally have sum: "(of_nat (s * 4096) :: u32) + of_nat (n * 4096) - 1 = of_nat ((s + n) * 4096 - 1)" .
  have "unat (of_nat ((s + n) * 4096 - 1) :: u32) = (s + n) * 4096 - 1"
    using assms by (intro unat_of_nat_small) simp
  then have "get_last_frame_index (frames_at s n) = ((s + n) * 4096 - 1) div 4096"
    by (simp only: get_last_frame_index_def frames_at_def frame_range_new_def frame_range.simps
        unat_drop_bit sum) simp
  also have "\<dots> = s + n - 1"
    using assms by (intro div_nat_eqI) auto
  finally show "get_last_frame_index (frames_at s n) = s + n - 1" .
qed

lemma range_frames_at:
  "0 < n \<Longrightarrow> s + n \<le> 2 ^ 20 \<Longrightarrow> range_frames (frames_at s n) = [s..<s + n]"
  by (simp add: range_frames_def frame_indices_at)

lemma contains_frames_at:
  "0 < n \<Longrightarrow> s + n \<le> 2 ^ 20 \<Longrightarrow> s + n \<le> total_frame_count m \<Longrightarrow> contains_range m (frames_at s n)"
  by (simp add: contains_range_def frame_indices_at)

text \<open>Allocating finds the lowest run of free frames that is long enough and takes just those.\<close>

lemma bitmap_allocate_frames_fits:
  assumes "bitmap_ok m" "0 < fc" "\<exists>s. fits m (unat fc) s"
  obtains m' where
    "bitmap_allocate_frames m fc = Inr (frames_at (LEAST s. fits m (unat fc) s) (unat fc), m')"
    "length m' = length m"
    "\<And>g. frame_taken m' g \<longleftrightarrow> frame_taken m g \<or>
       g \<in> {(LEAST s. fits m (unat fc) s)..<(LEAST s. fits m (unat fc) s) + unat fc}"
proof -
  define s where "s = (LEAST s. fits m (unat fc) s)"
  have fit: "fits m (unat fc) s"
    unfolding s_def using assms(3) by (rule LeastI_ex)
  have n: "0 < unat fc" "s + unat fc \<le> total_frame_count m" "s + unat fc \<le> 2 ^ 20"
    using fit assms by (auto simp: fits_def unat_gt_0 bitmap_ok_def total_frame_count_def)
  obtain m' where m': "allocate_range m (frames_at s (unat fc)) = Inr m'"
    using contains_frames_at n by (simp add: allocate_range_def)
  show thesis
  proof (rule that)
    show "bitmap_allocate_frames m fc = Inr (frames_at (LEAST s. fits m (unat fc) s) (unat fc), m')"
      using assms m' by (simp add: bitmap_allocate_frames_def find_free_range_spec s_def)
    show "length m' = length m"
      using allocate_range_spec [OF m'] by simp
    show "frame_taken m' g \<longleftrightarrow> frame_taken m g \<or>
        g \<in> {(LEAST s. fits m (unat fc) s)..<(LEAST s. fits m (unat fc) s) + unat fc}" for g
      using allocate_range_spec [OF m'] range_frames_at [of "unat fc" s] n by (simp add: s_def)
  qed
qed

lemma bitmap_allocate_frames_full:
  "0 < fc \<Longrightarrow> \<nexists>s. fits m (unat fc) s \<Longrightarrow> bitmap_allocate_frames m fc = Inl NoAvailableSpace"
  by (simp add: bitmap_allocate_frames_def find_free_range_spec)

section \<open>Counting free frames\<close>

definition free_frames :: "frame_bitmap \<Rightarrow> nat set" where
  "free_frames m = {f. f < total_frame_count m \<and> \<not> frame_taken m f}"

lemma bit_full_byte: "bit (0xff :: u8) k \<longleftrightarrow> k < 8"
proof -
  have "(0xff :: u8) = mask 8" by (simp add: mask_eq_exp_minus_1)
  then show ?thesis by (simp only: bit_mask_iff) auto
qed

lemma free_in_byte:
  assumes "frame mod 8 = 0"
  shows "filter (\<lambda>f. \<not> frame_taken m f) [frame..<frame + 8] =
    map (\<lambda>i. i + frame) (filter (\<lambda>i. \<not> bit (m ! (frame div 8)) i) [0..<8])"
proof -
  have "frame_taken m (i + frame) \<longleftrightarrow> bit (m ! (frame div 8)) i" if "i < 8" for i
  proof -
    have "(i + frame) div 8 = frame div 8" "(i + frame) mod 8 = i"
      using assms that by (auto simp: div_add1_eq mod_add_eq [of i 8 frame, symmetric])
    then show ?thesis by (simp add: frame_taken_bit)
  qed
  then have "filter (\<lambda>i. \<not> frame_taken m (i + frame)) [0..<8] =
      filter (\<lambda>i. \<not> bit (m ! (frame div 8)) i) [0..<8]"
    by (intro filter_cong) auto
  moreover have "[frame..<frame + 8] = map (\<lambda>i. i + frame) [0..<8]"
    by (simp add: map_add_upt add.commute)
  ultimately show ?thesis
    by (simp add: filter_map comp_def)
qed

lemma free_count_loop_spec:
  "frame \<le> total_frame_count m \<Longrightarrow> frame mod 8 = 0 \<or> m ! (frame div 8) = 0xff \<Longrightarrow>
   free_count_loop m frame free =
     free + length (filter (\<lambda>f. \<not> frame_taken m f) [frame..<total_frame_count m])"
proof (induction m frame free rule: free_count_loop.induct)
  case (1 m frame free)
  let ?v = "m ! (frame div 8)" and ?total = "total_frame_count m"
  note unfold = free_count_loop.simps [of m frame free]
  show ?case
  proof (cases "frame < ?total")
    case inside: True
    show ?thesis
    proof (cases "?v = 0xff")
      case True
      then have "frame_taken m frame"
        using bit_full_byte [of "frame mod 8"] by (simp add: frame_taken_bit)
      moreover have "Suc frame mod 8 = 0 \<or> m ! (Suc frame div 8) = 0xff"
        using True by (simp add: mod_Suc div_Suc)
      moreover have "[frame..<?total] = frame # [Suc frame..<?total]"
        using inside by (rule upt_conv_Cons)
      ultimately show ?thesis
        using "1.IH"(2) [OF inside refl] inside True by (simp add: unfold)
    next
      case False
      then have aligned: "frame mod 8 = 0" using "1.prems" by simp
      then obtain q where q: "frame = 8 * q" by (auto elim: dvdE simp: mod_eq_0_iff_dvd)
      then have fit: "frame + 8 \<le> ?total"
        using inside by (simp add: total_frame_count_def)
      then have "[frame..<?total] = [frame..<frame + 8] @ [frame + 8..<?total]"
        by (metis le_add1 le_add_diff_inverse upt_add_eq_append)
      moreover have "(frame + 8) mod 8 = 0" using aligned by simp
      ultimately show ?thesis
        using "1.IH"(1) [OF inside refl False] fit inside False free_in_byte [OF aligned]
        by (simp add: unfold count_byte_loop_eq)
    qed
  qed (use "1.prems" in \<open>simp add: free_count_loop.simps [of m]\<close>)
qed

lemma get_free_frame_count_card: "get_free_frame_count m = card (free_frames m)"
proof -
  have "free_frames m = set (filter (\<lambda>f. \<not> frame_taken m f) [0..<total_frame_count m])"
    by (auto simp: free_frames_def)
  then have "card (free_frames m) = length (filter (\<lambda>f. \<not> frame_taken m f) [0..<total_frame_count m])"
    by (metis distinct_card distinct_filter distinct_upt)
  then show ?thesis
    by (simp add: get_free_frame_count_def free_count_loop_spec)
qed

section \<open>Initial state\<close>

lemma bitmap_reset_eq: "bitmap_reset m = replicate (length m) 0xff"
proof -
  have "fold (\<lambda>i m. m[i := 0xff]) [0..<k] m = replicate k 0xff @ drop k m" if "k \<le> length m" for k
    using that
  proof (induction k)
    case (Suc k)
    then have "drop k m = m ! k # drop (Suc k) m"
      by (simp add: Cons_nth_drop_Suc)
    with Suc show ?case
      by (simp add: list_update_append replicate_append_same)
  qed simp
  then show ?thesis
    by (simp add: bitmap_reset_def)
qed

lemma frame_taken_reset: "f < total_frame_count m \<Longrightarrow> frame_taken (bitmap_reset m) f"
  using bit_full_byte [of "f mod 8"]
  by (simp add: bitmap_reset_eq frame_taken_bit frame_byte_in_bounds)

lemma free_map_entries_spec:
  "free_map_entries es n m = (m', Inr t) \<Longrightarrow>
     length m' = length m \<and>
     t = n + sum_list (map (\<lambda>e. ucast (me_length e)) (filter (\<lambda>e. me_region_type e = REGION_TYPE_FREE) es)) \<and>
     (\<forall>g. frame_taken m' g \<longleftrightarrow> frame_taken m g \<and>
       (\<forall>e \<in> set es. me_region_type e = REGION_TYPE_FREE \<longrightarrow> g \<notin> set (range_frames (entry_range e))))"
proof (induction es n m rule: free_map_entries.induct)
  case (2 e es n m)
  show ?case
  proof (cases "me_region_type e = REGION_TYPE_FREE")
    case True
    then obtain m1 where m1: "free_range m (entry_range e) = Inr m1"
      using "2.prems" by (auto split: sum.splits)
    then show ?thesis
      using "2.IH"(1) [OF True m1] "2.prems" True free_range_spec [OF m1] by (auto simp: add.assoc)
  next
    case False
    then show ?thesis
      using "2.IH"(2) [OF False] "2.prems" by auto
  qed
qed auto

section \<open>The interface of the allocator\<close>

text \<open>
  What the owners of physical memory rely on, at the granularity of page-aligned addresses: a
  fresh frame is handed out and nothing else changes, releasing a frame gives back just that frame,
  and a frame that is not in use cannot be released.
\<close>

locale frame_allocator =
  fixes good :: "'s \<Rightarrow> bool"
    and allocated :: "'s \<Rightarrow> phys_addr \<Rightarrow> bool"
    and alloc :: "'s \<Rightarrow> 'e + (phys_addr \<times> 's)"
    and release :: "'s \<Rightarrow> phys_addr \<Rightarrow> 'e + 's"
  assumes alloc_fresh: "good s \<Longrightarrow> alloc s = Inr (a, s') \<Longrightarrow>
      is_page_aligned a \<and> \<not> allocated s a \<and> good s'"
    and alloc_frame: "good s \<Longrightarrow> alloc s = Inr (a, s') \<Longrightarrow> is_page_aligned b \<Longrightarrow>
      allocated s' b \<longleftrightarrow> allocated s b \<or> b = a"
    and release_allocated: "good s \<Longrightarrow> is_page_aligned a \<Longrightarrow> allocated s a \<Longrightarrow>
      \<exists>s'. release s a = Inr s' \<and> good s' \<and>
        (\<forall>b. is_page_aligned b \<longrightarrow> (allocated s' b \<longleftrightarrow> allocated s b \<and> b \<noteq> a))"
    and release_unallocated: "good s \<Longrightarrow> \<not> allocated s a \<Longrightarrow> \<exists>e. release s a = Inl e"
begin

lemma released_frame_reusable:
  assumes "good s" "is_page_aligned a" "allocated s a" "release s a = Inr s'"
  shows "\<not> allocated s' a" "\<exists>e. release s' a = Inl e"
  using release_allocated [OF assms(1-3)] release_unallocated [of s' a] assms by auto

lemma two_allocations_differ:
  assumes "good s" "alloc s = Inr (a, s1)" "alloc s1 = Inr (b, s2)"
  shows "a \<noteq> b"
  using alloc_fresh [of s a s1] alloc_fresh [of s1 b s2] alloc_frame [of s a s1 a] assms by auto

end

definition allocate_first_frame :: "frame_bitmap \<Rightarrow> bitmap_error + (phys_addr \<times> frame_bitmap)" where
  "allocate_first_frame m =
     (case bitmap_allocate_frames m 1 of
        Inl e \<Rightarrow> Inl e
      | Inr (r, m') \<Rightarrow> Inr (get_starting_address r, m'))"

definition addr_frame :: "phys_addr \<Rightarrow> nat" where
  "addr_frame a = unat a div 4096"

lemma addr_frame_drop: "unat (drop_bit 12 a) = addr_frame a" for a :: phys_addr
  by (simp only: addr_frame_def unat_drop_bit) simp

lemma aligned_eq_iff:
  "is_page_aligned a \<Longrightarrow> is_page_aligned b \<Longrightarrow> a = b \<longleftrightarrow> addr_frame a = addr_frame b"
  by (metis addr_frame_def div_mult_mod_eq is_page_aligned_iff word_unat_eq_iff)

lemma addr_frame_at:
  assumes "s < 2 ^ 20"
  shows "addr_frame (of_nat (s * 4096)) = s" "is_page_aligned (of_nat (s * 4096))"
proof -
  have "unat (of_nat (s * 4096) :: u32) = s * 4096"
    using assms by (intro unat_of_nat_small) simp
  then show "addr_frame (of_nat (s * 4096)) = s" "is_page_aligned (of_nat (s * 4096))"
    by (simp_all add: addr_frame_def is_page_aligned_iff del: of_nat_mult)
qed

lemma is_address_allocated_iff:
  "is_address_allocated m a \<longleftrightarrow> addr_frame a < total_frame_count m \<and> frame_taken m (addr_frame a)"
  by (simp only: is_address_allocated_def Let_def addr_frame_drop) auto

lemma free_frame_cases:
  "free_frame m a =
     (if addr_frame a \<ge> total_frame_count m then Inl OutOfBounds
      else if \<not> is_address_allocated m a then Inl AlreadyFree
      else Inr (clear_frame (addr_frame a) m))"
  by (simp only: free_frame_def Let_def addr_frame_drop is_address_allocated_iff) auto

lemma allocate_first_frame_ok:
  assumes "bitmap_ok m" "allocate_first_frame m = Inr (a, m')"
  shows "is_page_aligned a" "\<not> is_address_allocated m a" "length m' = length m"
    and "\<And>g. frame_taken m' g \<longleftrightarrow> frame_taken m g \<or> g = addr_frame a"
    and "addr_frame a < total_frame_count m"
proof -
  let ?s = "LEAST s. fits m 1 s"
  have ex: "\<exists>s. fits m 1 s"
    using assms(2) bitmap_allocate_frames_full [of 1 m]
    by (force simp: allocate_first_frame_def)
  then have fit: "fits m 1 ?s" by (rule LeastI_ex)
  then have s: "?s < total_frame_count m" "\<not> frame_taken m ?s" "?s < 2 ^ 20"
    using assms(1) by (auto simp: fits_def bitmap_ok_def total_frame_count_def)
  obtain m1 where m1: "bitmap_allocate_frames m 1 = Inr (frames_at ?s 1, m1)" "length m1 = length m"
      "\<And>g. frame_taken m1 g \<longleftrightarrow> frame_taken m g \<or> g = ?s"
    using bitmap_allocate_frames_fits [of m 1] assms(1) ex by (auto simp: less_Suc_eq_le)
  then have "m' = m1" and a: "a = of_nat (?s * 4096)"
    using assms(2)
    by (auto simp: allocate_first_frame_def get_starting_address_def frames_at_def frame_range_new_def)
  with m1 s addr_frame_at [OF s(3)]
  show "is_page_aligned a" "\<not> is_address_allocated m a" "length m' = length m"
    "\<And>g. frame_taken m' g \<longleftrightarrow> frame_taken m g \<or> g = addr_frame a" "addr_frame a < total_frame_count m"
    by (simp_all add: is_address_allocated_iff del: of_nat_mult)
qed

interpretation bitmap_alloc: frame_allocator bitmap_ok is_address_allocated allocate_first_frame free_frame
proof unfold_locales
  fix m a m'
  assume m: "bitmap_ok m" and alloc: "allocate_first_frame m = Inr (a, m')"
  note ok = allocate_first_frame_ok [OF m alloc]
  show "is_page_aligned a \<and> \<not> is_address_allocated m a \<and> bitmap_ok m'"
    using m ok by (simp add: bitmap_ok_def)
  show "is_address_allocated m' b \<longleftrightarrow> is_address_allocated m b \<or> b = a" if "is_page_aligned b" for b
    using ok that by (auto simp: is_address_allocated_iff total_frame_count_def aligned_eq_iff)
next
  fix m a
  assume m: "bitmap_ok m" and a: "is_page_aligned a" "is_address_allocated m a"
  then show "\<exists>m'. free_frame m a = Inr m' \<and> bitmap_ok m' \<and>
      (\<forall>b. is_page_aligned b \<longrightarrow>
        (is_address_allocated m' b \<longleftrightarrow> is_address_allocated m b \<and> b \<noteq> a))"
    by (auto simp: free_frame_cases bitmap_ok_def is_address_allocated_iff frame_taken_clear aligned_eq_iff)
next
  fix m a
  assume "bitmap_ok m" "\<not> is_address_allocated m a"
  then show "\<exists>e. free_frame m a = Inl e"
    by (simp add: free_frame_cases)
qed

section \<open>Properties\<close>

lemma allocate_example:
  "bitmap_allocate_frames [0x73, 0xff, 0x00] 3 = Inr (frame_range_new 0x10000 0x3000, [0x73, 0xff, 0x07])"
proof -
  have "find_free_range [0x73, 0xff, 0x00] 3 = Some (frame_range_new 0x10000 0x3000)"
    by (simp add: find_free_range_def find_free_loop.simps total_frame_count_def frame_taken_def)
  moreover have "allocate_range [0x73, 0xff, 0x00] (frame_range_new 0x10000 0x3000) = Inr [0x73, 0xff, 0x07]"
    by code_simp
  ultimately show ?thesis
    by (simp add: bitmap_allocate_frames_def)
qed

text \<open>
  (C14) Allocating \<open>n > 0\<close> contiguous frames is first fit: it succeeds exactly if some run of \<open>n\<close>
  consecutive free frames exists, returns the lowest one, marks these frames and no others, and
  otherwise fails with \<open>NoAvailableSpace\<close>.
\<close>

theorem allocate_frames_first_fit:
  assumes "bitmap_ok m" "0 < n"
  shows "case bitmap_allocate_frames m n of
      Inr (r, m') \<Rightarrow> (\<exists>s. r = frames_at s (unat n) \<and> fits m (unat n) s \<and> (\<forall>s' < s. \<not> fits m (unat n) s') \<and>
        length m' = length m \<and>
        (\<forall>g. frame_taken m' g \<longleftrightarrow> frame_taken m g \<or> (s \<le> g \<and> g < s + unat n)))
    | Inl e \<Rightarrow> e = NoAvailableSpace \<and> \<not> (\<exists>s. fits m (unat n) s)"
proof (cases "\<exists>s. fits m (unat n) s")
  case True
  define s where "s = (LEAST s. fits m (unat n) s)"
  obtain m' where "bitmap_allocate_frames m n = Inr (frames_at s (unat n), m')" "length m' = length m"
      "\<And>g. frame_taken m' g \<longleftrightarrow> frame_taken m g \<or> g \<in> {s..<s + unat n}"
    using bitmap_allocate_frames_fits [OF assms True] unfolding s_def by blast
  moreover have "fits m (unat n) s" "\<forall>s' < s. \<not> fits m (unat n) s'"
    using LeastI_ex [OF True] not_less_Least by (auto simp: s_def)
  ultimately show ?thesis by auto
next
  case False
  then show ?thesis
    using bitmap_allocate_frames_full [OF assms(2) False] by simp
qed

theorem allocate_frames_first_fit_witness:
  "\<exists>s. frame_range_new 0x10000 0x3000 = frames_at s 3 \<and> fits [0x73, 0xff, 0x00] 3 s \<and>
     (\<forall>s' < s. \<not> fits [0x73, 0xff, 0x00] 3 s')"
proof -
  have "bitmap_ok [0x73, 0xff, 0x00]" "(0 :: u32) < 3" "unat (3 :: u32) = 3"
    by (simp_all add: bitmap_ok_def)
  then show ?thesis
    using allocate_frames_first_fit [of "[0x73, 0xff, 0x00]" 3]
    by (simp only: allocate_example sum.case prod.case) blast
qed

text \<open>
  \<open>get_free_frame_count\<close> is the number of frames whose bit is clear, allocating \<open>n\<close> frames lowers
  it by \<open>n\<close>, and freeing the range that was returned restores it.
\<close>

theorem free_frame_count_exact:
  assumes "bitmap_ok m" "0 < n" "bitmap_allocate_frames m n = Inr (r, m')"
  shows "get_free_frame_count m = card {f. f < total_frame_count m \<and> \<not> frame_taken m f} \<and>
    get_free_frame_count m' + unat n = get_free_frame_count m \<and>
    (\<exists>m''. free_range m' r = Inr m'' \<and> get_free_frame_count m'' = get_free_frame_count m)"
proof -
  have ex: "\<exists>s. fits m (unat n) s"
    using assms(3) bitmap_allocate_frames_full [OF assms(2), of m] by auto
  define s where "s = (LEAST s. fits m (unat n) s)"
  have fit: "fits m (unat n) s" unfolding s_def using ex by (rule LeastI_ex)
  obtain m1 where m1: "bitmap_allocate_frames m n = Inr (frames_at s (unat n), m1)" "length m1 = length m"
      "\<And>g. frame_taken m1 g \<longleftrightarrow> frame_taken m g \<or> g \<in> {s..<s + unat n}"
    by (rule bitmap_allocate_frames_fits [OF assms(1,2) ex, folded s_def]) blast
  then have r: "r = frames_at s (unat n)" and len: "length m' = length m"
    and taken: "\<And>g. frame_taken m' g \<longleftrightarrow> frame_taken m g \<or> g \<in> {s..<s + unat n}"
    using assms(3) by simp_all
  have n: "0 < unat n" "s + unat n \<le> 2 ^ 20" "s + unat n \<le> total_frame_count m'"
    using fit assms(1,2) len by (auto simp: fits_def bitmap_ok_def total_frame_count_def unat_gt_0)
  have split: "free_frames m = free_frames m' \<union> {s..<s + unat n}" "free_frames m' \<inter> {s..<s + unat n} = {}"
    using fit taken len by (auto simp: free_frames_def fits_def total_frame_count_def)
  then have "card (free_frames m) = card (free_frames m') + unat n"
    by (simp add: card_Un_disjoint free_frames_def)
  moreover obtain m'' where m'': "free_range m' r = Inr m''"
    using contains_frames_at [OF n] by (simp add: free_range_def r)
  moreover have "free_frames m'' = free_frames m"
    using free_range_spec [OF m''] taken fit len n
    by (auto simp: free_frames_def r range_frames_at total_frame_count_def fits_def)
  ultimately show ?thesis
    by (simp add: get_free_frame_count_card free_frames_def)
qed

theorem free_frame_count_exact_witness:
  "get_free_frame_count [0x73, 0xff, 0x07] + 3 = get_free_frame_count [0x73, 0xff, 0x00]"
  using free_frame_count_exact [OF _ _ allocate_example] by (simp add: bitmap_ok_def)

end
