(* ===== verification/Frame_Tracker.thy ===== *)
theory Frame_Tracker
  imports Address Ref_Counts
begin

text \<open>
  \<^verbatim>\<open>kernel/src/memory/physical/tracking.rs\<close>: the radix tree that counts references to allocated
  frames. Four levels of 32-way nodes are indexed by five bits each of the frame number; the
  children arrays are created on the way down. Operations return \<open>None\<close> where the code panics (an
  address off a page boundary, a leaf without a value).
\<close>

section \<open>Nodes and indices\<close>

datatype node = Node (node_value: "u32 option") (node_children: "node option list option")

definition FANOUT :: nat where
  "FANOUT = 32"

definition TREE_DEPTH :: nat where
  "TREE_DEPTH = 4"

definition node_new :: node where
  "node_new = Node None None"

definition node_with_value :: "u32 \<Rightarrow> node" where
  "node_with_value v = Node (Some v) None"

definition ensure_children :: "node \<Rightarrow> node option list" where
  "ensure_children n =
     (case node_children n of None \<Rightarrow> replicate FANOUT None | Some cs \<Rightarrow> cs)"

record address_tree =
  at_root :: "node option"

definition address_tree_new :: address_tree where
  "address_tree_new = \<lparr>at_root = None\<rparr>"

definition extract_index :: "phys_addr \<Rightarrow> nat \<Rightarrow> nat" where
  "extract_index addr level =
     (let page_num = drop_bit 12 addr;
          shift = (TREE_DEPTH - 1 - level) * 5
      in unat (drop_bit shift page_num AND 0x1f))"

text \<open>The indices the loop over the levels visits.\<close>

definition radix_path :: "phys_addr \<Rightarrow> nat list" where
  "radix_path addr = map (extract_index addr) [0..<TREE_DEPTH]"

section \<open>Operations\<close>

text \<open>Each walk is a recursion over the remaining indices; the last index selects the leaf.\<close>

fun add_ref_walk :: "nat list \<Rightarrow> node \<Rightarrow> (u32 \<times> node) option" where
  "add_ref_walk [] n = None"
| "add_ref_walk [index] n =
     (let children = ensure_children n
      in case children ! index of
           None \<Rightarrow> Some (1, Node (node_value n) (Some (children[index := Some (node_with_value 1)])))
         | Some leaf \<Rightarrow>
             (case node_value leaf of
                None \<Rightarrow> None
              | Some v \<Rightarrow>
                  Some (v + 1, Node (node_value n)
                    (Some (children[index := Some (Node (Some (v + 1)) (node_children leaf))])))))"
| "add_ref_walk (index # rest) n =
     (let children = ensure_children n;
          child = (case children ! index of None \<Rightarrow> node_new | Some c \<Rightarrow> c)
      in case add_ref_walk rest child of
           None \<Rightarrow> None
         | Some (count, child') \<Rightarrow>
             Some (count, Node (node_value n) (Some (children[index := Some child']))))"

definition at_add_reference :: "phys_addr \<Rightarrow> address_tree \<Rightarrow> (u32 \<times> address_tree) option" where
  "at_add_reference addr t =
     (if addr AND 0xfff \<noteq> 0 then None
      else let current = (case at_root t of None \<Rightarrow> node_new | Some n \<Rightarrow> n)
           in map_option (\<lambda>(count, n). (count, t\<lparr>at_root := Some n\<rparr>))
                (add_ref_walk (radix_path addr) current))"

fun add_existing_walk :: "nat list \<Rightarrow> node \<Rightarrow> (u32 option \<times> node) option" where
  "add_existing_walk [] n =
     (case node_value n of None \<Rightarrow> None
      | Some v \<Rightarrow> Some (Some (v + 1), Node (Some (v + 1)) (node_children n)))"
| "add_existing_walk (index # rest) n =
     (case node_children n of
        None \<Rightarrow> Some (None, n)
      | Some children \<Rightarrow>
          (case children ! index of
             None \<Rightarrow> Some (None, n)
           | Some child \<Rightarrow>
               map_option (\<lambda>(r, child'). (r, Node (node_value n) (Some (children[index := Some child']))))
                 (add_existing_walk rest child)))"

definition at_add_reference_if_exists ::
  "phys_addr \<Rightarrow> address_tree \<Rightarrow> (u32 option \<times> address_tree) option" where
  "at_add_reference_if_exists addr t =
     (if addr AND 0xfff \<noteq> 0 then None
      else (case at_root t of
              None \<Rightarrow> Some (None, t)
            | Some n \<Rightarrow>
                map_option (\<lambda>(r, n'). (r, t\<lparr>at_root := Some n'\<rparr>))
                  (add_existing_walk (radix_path addr) n)))"

fun contains_walk :: "nat list \<Rightarrow> node \<Rightarrow> bool" where
  "contains_walk [] n = True"
| "contains_walk (index # rest) n =
     (case node_children n of
        None \<Rightarrow> False
      | Some children \<Rightarrow>
          (case children ! index of None \<Rightarrow> False | Some child \<Rightarrow> contains_walk rest child))"

definition at_contains :: "address_tree \<Rightarrow> phys_addr \<Rightarrow> bool" where
  "at_contains t addr =
     (case at_root t of None \<Rightarrow> False | Some n \<Rightarrow> contains_walk (radix_path addr) n)"

fun count_walk :: "nat list \<Rightarrow> node \<Rightarrow> u32 option" where
  "count_walk [] n = node_value n"
| "count_walk (index # rest) n =
     (case node_children n of
        None \<Rightarrow> None
      | Some children \<Rightarrow>
          (case children ! index of None \<Rightarrow> None | Some child \<Rightarrow> count_walk rest child))"

definition at_get_reference_count :: "address_tree \<Rightarrow> phys_addr \<Rightarrow> u32 option" where
  "at_get_reference_count t addr =
     (case at_root t of None \<Rightarrow> None | Some n \<Rightarrow> count_walk (radix_path addr) n)"

fun remove_ref_walk :: "nat list \<Rightarrow> node \<Rightarrow> (u32 option \<times> node) option" where
  "remove_ref_walk [] n = None"
| "remove_ref_walk [index] n =
     (case node_children n of
        None \<Rightarrow> Some (None, n)
      | Some children \<Rightarrow>
          (case children ! index of
             None \<Rightarrow> Some (None, n)
           | Some leaf \<Rightarrow>
               (case node_value leaf of
                  None \<Rightarrow> None
                | Some current_value \<Rightarrow>
                    if 1 < current_value
                    then Some (Some (current_value - 1),
                           Node (node_value n) (Some (children[index :=
                             Some (Node (Some (current_value - 1)) (node_children leaf))])))
                    else Some (Some 0, Node (node_value n) (Some (children[index := None]))))))"
| "remove_ref_walk (index # rest) n =
     (case node_children n of
        None \<Rightarrow> Some (None, n)
      | Some children \<Rightarrow>
          (case children ! index of
             None \<Rightarrow> Some (None, n)
           | Some child \<Rightarrow>
               map_option (\<lambda>(r, child'). (r, Node (node_value n) (Some (children[index := Some child']))))
                 (remove_ref_walk rest child)))"

definition at_remove_reference :: "phys_addr \<Rightarrow> address_tree \<Rightarrow> (u32 option \<times> address_tree) option" where
  "at_remove_reference addr t =
     (case at_root t of
        None \<Rightarrow> Some (None, t)
      | Some n \<Rightarrow>
          map_option (\<lambda>(r, n'). (r, t\<lparr>at_root := Some n'\<rparr>)) (remove_ref_walk (radix_path addr) n))"

section \<open>Shape of the tree\<close>

text \<open>Every children array has 32 slots and every leaf, four levels down, has a value.\<close>

fun wf_node :: "nat \<Rightarrow> node \<Rightarrow> bool" where
  "wf_node 0 (Node v cs) = (v \<noteq> None)"
| "wf_node (Suc d) (Node v cs) =
     (case cs of None \<Rightarrow> True
      | Some l \<Rightarrow> length l = FANOUT \<and> list_all (\<lambda>c. case c of None \<Rightarrow> True | Some n \<Rightarrow> wf_node d n) l)"

definition wf_tree :: "address_tree \<Rightarrow> bool" where
  "wf_tree t \<longleftrightarrow> (case at_root t of None \<Rightarrow> True | Some n \<Rightarrow> wf_node TREE_DEPTH n)"

definition path_ok :: "nat \<Rightarrow> nat list \<Rightarrow> bool" where
  "path_ok d p \<longleftrightarrow> length p = d \<and> (\<forall>i \<in> set p. i < FANOUT)"

abbreviation wf_child :: "nat \<Rightarrow> node option \<Rightarrow> bool" where
  "wf_child d c \<equiv> (case c of None \<Rightarrow> True | Some n \<Rightarrow> wf_node d n)"

abbreviation count_child :: "nat list \<Rightarrow> node option \<Rightarrow> u32 option" where
  "count_child p c \<equiv> (case c of None \<Rightarrow> None | Some n \<Rightarrow> count_walk p n)"

lemma path_ok_Suc: "path_ok (Suc d) p \<longleftrightarrow> (\<exists>i r. p = i # r \<and> i < FANOUT \<and> path_ok d r)"
  by (cases p) (auto simp: path_ok_def)

lemma path_ok_0 [simp]: "path_ok 0 p \<longleftrightarrow> p = []"
  by (auto simp: path_ok_def)

lemma wf_ensure_children:
  assumes "wf_node (Suc d) n"
  shows "length (ensure_children n) = FANOUT" "i < FANOUT \<Longrightarrow> wf_child d (ensure_children n ! i)"
  using assms by (cases n; auto simp: ensure_children_def list_all_length split: option.splits)+

lemma count_walk_Cons:
  "i < FANOUT \<Longrightarrow> count_walk (i # r) n = count_child r (ensure_children n ! i)"
  by (cases n) (auto simp: ensure_children_def split: option.splits)

lemma ensure_children_Node [simp]: "ensure_children (Node v (Some cs)) = cs"
  by (simp add: ensure_children_def)

lemma wf_node_new: "wf_node (Suc d) node_new"
  by (simp add: node_new_def)

lemma count_walk_new: "path_ok (Suc d) p \<Longrightarrow> count_walk p node_new = None"
  by (cases p) (auto simp: node_new_def path_ok_def)

declare count_walk.simps(2) [simp del]

lemma wf_put_child:
  assumes "wf_node (Suc d) n" "i < FANOUT" "wf_child d c"
  shows "wf_node (Suc d) (Node v (Some ((ensure_children n)[i := c])))"
  using assms wf_ensure_children [OF assms(1)]
  by (auto simp: list_all_length nth_list_update)

lemma count_put_child:
  assumes "wf_node (Suc d) n" "i < FANOUT" "j < FANOUT"
  shows "count_walk (j # r) (Node v (Some ((ensure_children n)[i := c]))) =
    (if j = i then count_child r c else count_walk (j # r) n)"
  using assms wf_ensure_children(1) [OF assms(1)]
  by (simp add: nth_list_update count_walk_Cons)

text \<open>Replacing the child on the path by one that differs from it at one key only.\<close>

lemma put_child_update:
  assumes "wf_node (Suc d) n" "i < FANOUT" "wf_child d c"
    and "\<And>s. path_ok d s \<Longrightarrow> count_child s c = (if s = r then x else count_walk (i # s) n)"
  shows "wf_node (Suc d) (Node v (Some ((ensure_children n)[i := c]))) \<and>
    (\<forall>q. path_ok (Suc d) q \<longrightarrow>
      count_walk q (Node v (Some ((ensure_children n)[i := c]))) =
      (if q = i # r then x else count_walk q n))"
proof (intro conjI allI impI)
  fix q assume "path_ok (Suc d) q"
  then obtain j s where "q = j # s" "j < FANOUT" "path_ok d s"
    by (auto simp: path_ok_Suc)
  then show "count_walk q (Node v (Some ((ensure_children n)[i := c]))) =
      (if q = i # r then x else count_walk q n)"
    using assms(4) [of s] by (simp add: count_put_child [OF assms(1,2)])
qed (rule wf_put_child [OF assms(1-3)])

lemma wf_leaf: "wf_node 0 n \<Longrightarrow> \<exists>v. node_value n = Some v"
  by (cases n) auto

lemma add_ref_walk_spec:
  "wf_node (Suc d) n \<Longrightarrow> path_ok (Suc d) p \<Longrightarrow>
   \<exists>n'. add_ref_walk p n = Some (inc_count (count_walk p n), n') \<and> wf_node (Suc d) n' \<and>
     (\<forall>q. path_ok (Suc d) q \<longrightarrow>
       count_walk q n' = (if q = p then Some (inc_count (count_walk p n)) else count_walk q n))"
proof (induction d arbitrary: n p)
  case 0
  then obtain i where p: "p = [i]" and i: "i < FANOUT"
    by (auto simp: path_ok_Suc)
  show ?case
  proof (cases "ensure_children n ! i")
    case None
    have "wf_child 0 (Some (node_with_value 1))"
      by (simp add: node_with_value_def)
    then show ?thesis
      using None put_child_update [OF 0(1) i, of "Some (node_with_value 1)" "[]" "Some 1" "node_value n"] i
      by (simp add: p count_walk_Cons Let_def node_with_value_def)
  next
    case (Some leaf)
    then obtain v where leaf: "node_value leaf = Some v"
      using wf_ensure_children(2) [OF 0(1) i] wf_leaf by auto
    then show ?thesis
      using Some i put_child_update [OF 0(1) i, of "Some (Node (Some (v + 1)) (node_children leaf))"
          "[]" "Some (v + 1)" "node_value n"]
      by (simp add: p count_walk_Cons Let_def)
  qed
next
  case (Suc d)
  then obtain i r where p: "p = i # r" and i: "i < FANOUT" and r: "path_ok (Suc d) r"
    by (auto simp: path_ok_Suc [of "Suc d"])
  define child where "child = (case ensure_children n ! i of None \<Rightarrow> node_new | Some c \<Rightarrow> c)"
  have wf: "wf_node (Suc d) child"
    using wf_ensure_children(2) [OF Suc.prems(1) i]
    by (auto simp: child_def wf_node_new split: option.splits)
  have counts: "count_walk q child = count_walk (i # q) n" if "path_ok (Suc d) q" for q
    using i that by (auto simp: child_def count_walk_Cons count_walk_new split: option.splits)
  obtain c' where c': "add_ref_walk r child = Some (inc_count (count_walk p n), c')"
      "wf_node (Suc d) c'"
      "\<And>q. path_ok (Suc d) q \<Longrightarrow> count_walk q c' =
         (if q = r then Some (inc_count (count_walk p n)) else count_walk (i # q) n)"
    using Suc.IH [OF wf r] r by (auto simp: counts p)
  have "add_ref_walk p n =
      Some (inc_count (count_walk p n), Node (node_value n) (Some ((ensure_children n)[i := Some c'])))"
    using c'(1) r by (cases r) (auto simp: p Let_def child_def [symmetric] path_ok_def)
  then show ?case
    using put_child_update [OF Suc.prems(1) i, of "Some c'" r "Some (inc_count (count_walk p n))"
        "node_value n"] c'(2,3) by (simp add: p)
qed

lemma add_existing_walk_spec:
  "wf_node d n \<Longrightarrow> path_ok d p \<Longrightarrow>
   \<exists>n'. add_existing_walk p n = Some (map_option (\<lambda>v. v + 1) (count_walk p n), n') \<and> wf_node d n' \<and>
     (\<forall>q. path_ok d q \<longrightarrow>
       count_walk q n' = (if q = p then map_option (\<lambda>v. v + 1) (count_walk p n) else count_walk q n))"
proof (induction d arbitrary: n p)
  case 0
  then show ?case
    using wf_leaf [of n] by auto
next
  case (Suc d)
  then obtain i r where p: "p = i # r" and i: "i < FANOUT" and r: "path_ok d r"
    by (auto simp: path_ok_Suc)
  let ?x = "map_option (\<lambda>v. v + 1) (count_walk p n)"
  show ?case
  proof (cases "ensure_children n ! i")
    case None
    then have "add_existing_walk p n = Some (None, n)" "count_walk p n = None"
      using i by (auto simp: p count_walk_Cons ensure_children_def split: option.splits)
    then show ?thesis using Suc.prems by simp
  next
    case (Some child)
    have wf: "wf_node d child"
      using wf_ensure_children(2) [OF Suc.prems(1) i] Some by simp
    have counts: "count_walk q child = count_walk (i # q) n" for q
      using i Some by (simp add: count_walk_Cons)
    obtain c' where c': "add_existing_walk r child = Some (?x, c')" "wf_node d c'"
        "\<And>q. path_ok d q \<Longrightarrow> count_walk q c' = (if q = r then ?x else count_walk (i # q) n)"
      using Suc.IH [OF wf r] by (auto simp: counts p)
    have "add_existing_walk p n =
        Some (?x, Node (node_value n) (Some ((ensure_children n)[i := Some c'])))"
      using Some c'(1) i by (auto simp: p ensure_children_def split: option.splits)
    then show ?thesis
      using put_child_update [OF Suc.prems(1) i, of "Some c'" r ?x "node_value n"] c'(2,3)
      by (simp add: p)
  qed
qed

definition remove_result :: "u32 option \<Rightarrow> u32 option" where
  "remove_result c = map_option (\<lambda>v. if 1 < v then v - 1 else 0) c"

lemma remove_ref_walk_spec:
  "wf_node (Suc d) n \<Longrightarrow> path_ok (Suc d) p \<Longrightarrow>
   \<exists>n'. remove_ref_walk p n = Some (remove_result (count_walk p n), n') \<and> wf_node (Suc d) n' \<and>
     (\<forall>q. path_ok (Suc d) q \<longrightarrow>
       count_walk q n' = (if q = p then dec_count (count_walk p n) else count_walk q n))"
proof (induction d arbitrary: n p)
  case 0
  then obtain i where p: "p = [i]" and i: "i < FANOUT"
    by (auto simp: path_ok_Suc)
  show ?case
  proof (cases "ensure_children n ! i")
    case None
    then have "remove_ref_walk p n = Some (None, n)" "count_walk p n = None"
      using i by (auto simp: p count_walk_Cons ensure_children_def split: option.splits)
    then show ?thesis using 0 by (simp add: remove_result_def)
  next
    case (Some leaf)
    then obtain v where leaf: "node_value leaf = Some v"
      using wf_ensure_children(2) [OF 0(1) i] wf_leaf by auto
    have cs: "node_children n = Some (ensure_children n)"
      using Some i by (auto simp: ensure_children_def split: option.splits)
    define c where "c = (if 1 < v then Some (Node (Some (v - 1)) (node_children leaf)) else None)"
    have "remove_ref_walk p n =
        Some (remove_result (Some v), Node (node_value n) (Some ((ensure_children n)[i := c])))"
      using Some leaf cs by (simp add: p remove_result_def c_def)
    moreover have "count_walk p n = Some v"
      using Some leaf i by (simp add: p count_walk_Cons)
    ultimately show ?thesis
      using put_child_update [OF 0(1) i, of c "[]" "dec_count (Some v)" "node_value n"]
      by (simp add: p c_def)
  qed
next
  case (Suc d)
  then obtain i r where p: "p = i # r" and i: "i < FANOUT" and r: "path_ok (Suc d) r"
    by (auto simp: path_ok_Suc [of "Suc d"])
  show ?case
  proof (cases "ensure_children n ! i")
    case None
    then have "remove_ref_walk p n = Some (None, n)" "count_walk p n = None"
      using i r by (cases r; auto simp: p count_walk_Cons ensure_children_def path_ok_def split: option.splits)+
    then show ?thesis using Suc.prems by (simp add: remove_result_def)
  next
    case (Some child)
    have wf: "wf_node (Suc d) child"
      using wf_ensure_children(2) [OF Suc.prems(1) i] Some by simp
    have counts: "count_walk q child = count_walk (i # q) n" for q
      using i Some by (simp add: count_walk_Cons)
    have cs: "node_children n = Some (ensure_children n)"
      using Some i by (auto simp: ensure_children_def split: option.splits)
    obtain c' where c': "remove_ref_walk r child = Some (remove_result (count_walk p n), c')"
        "wf_node (Suc d) c'"
        "\<And>q. path_ok (Suc d) q \<Longrightarrow>
           count_walk q c' = (if q = r then dec_count (count_walk p n) else count_walk (i # q) n)"
      using Suc.IH [OF wf r] by (auto simp: counts p)
    have "remove_ref_walk p n = Some (remove_result (count_walk p n),
        Node (node_value n) (Some ((ensure_children n)[i := Some c'])))"
      using Some c'(1) cs r by (cases r) (auto simp: p path_ok_def)
    then show ?thesis
      using put_child_update [OF Suc.prems(1) i, of "Some c'" r "dec_count (count_walk p n)"
          "node_value n"] c'(2,3) by (simp add: p)
  qed
qed

lemma contains_walk_iff:
  "wf_node d n \<Longrightarrow> path_ok d p \<Longrightarrow> contains_walk p n \<longleftrightarrow> count_walk p n \<noteq> None"
proof (induction d arbitrary: n p)
  case 0
  then show ?case using wf_leaf [of n] by auto
next
  case (Suc d)
  then obtain i r where p: "p = i # r" and i: "i < FANOUT" and r: "path_ok d r"
    by (auto simp: path_ok_Suc)
  show ?case
    using wf_ensure_children(2) [OF Suc.prems(1) i] Suc.IH [OF _ r] i
    by (auto simp: p count_walk_Cons ensure_children_def split: option.splits)
qed

section \<open>Page addresses have distinct paths\<close>

lemma extract_index_eq:
  "extract_index a level = unat a div 4096 div 2 ^ ((3 - level) * 5) mod 32"
proof -
  have "(0x1f :: u32) = mask 5" by (simp add: mask_eq_exp_minus_1)
  then show ?thesis
    by (simp only: extract_index_def TREE_DEPTH_def Let_def unat_and_mask unat_drop_bit) simp
qed

lemma radix_path_eq:
  "radix_path a = (let f = unat a div 4096 in [f div 32768 mod 32, f div 1024 mod 32, f div 32 mod 32, f mod 32])"
  by (simp add: radix_path_def TREE_DEPTH_def extract_index_eq Let_def upt_rec)

lemma path_ok_radix_path: "path_ok TREE_DEPTH (radix_path a)"
  by (simp add: radix_path_eq path_ok_def TREE_DEPTH_def FANOUT_def Let_def)

lemma four_digits: "f < 2 ^ 20 \<Longrightarrow> (f :: nat) =
    ((f div 32768 mod 32 * 32 + f div 1024 mod 32) * 32 + f div 32 mod 32) * 32 + f mod 32"
proof -
  assume "f < 2 ^ 20"
  then have "f div 32768 < 32" by (simp add: less_mult_imp_div_less)
  then have "f div 32768 mod 32 = f div 32768" by simp
  moreover have "f div 32768 = f div 1024 div 32" "f div 1024 = f div 32 div 32"
    by (simp_all add: div_mult2_eq [symmetric])
  ultimately show ?thesis
    using div_mult_mod_eq [of f 32] div_mult_mod_eq [of "f div 32" 32]
      div_mult_mod_eq [of "f div 1024" 32] by simp
qed

lemma radix_path_inj:
  assumes "is_page_aligned a" "is_page_aligned b" "radix_path a = radix_path b"
  shows "a = b"
proof -
  let ?f = "unat a div 4096" and ?g = "unat b div 4096"
  have "?f < 2 ^ 20" "?g < 2 ^ 20"
    using unat_less_max32 [of a] unat_less_max32 [of b] by (simp_all add: less_mult_imp_div_less)
  then have "?f = ?g"
    using assms(3) four_digits [of ?f] four_digits [of ?g] by (simp add: radix_path_eq Let_def)
  then show ?thesis
    using assms(1,2) by (metis div_mult_mod_eq is_page_aligned_iff word_unat_eq_iff)
qed

section \<open>The tree counts references\<close>

text \<open>
  On page addresses every operation returns (no panic), keeps the shape and acts on the count of
  its address alone.
\<close>

lemma TREE_DEPTH_Suc: "TREE_DEPTH = Suc 3"
  by (simp add: TREE_DEPTH_def)

lemmas tree_walk_specs =
  add_ref_walk_spec [of 3, folded TREE_DEPTH_Suc] remove_ref_walk_spec [of 3, folded TREE_DEPTH_Suc]
  wf_node_new [of 3, folded TREE_DEPTH_Suc] count_walk_new [of 3, folded TREE_DEPTH_Suc, OF path_ok_radix_path]

lemma radix_path_eq_iff:
  "is_page_aligned a \<Longrightarrow> is_page_aligned b \<Longrightarrow> radix_path a = radix_path b \<longleftrightarrow> a = b"
  using radix_path_inj by blast

lemma wf_tree_new [simp]: "wf_tree address_tree_new"
  by (simp add: wf_tree_def address_tree_new_def)

lemma count_new [simp]: "at_get_reference_count address_tree_new a = None"
  by (simp add: at_get_reference_count_def address_tree_new_def)

lemma at_add_reference_ok:
  assumes "wf_tree t" "is_page_aligned a"
  obtains t' where "at_add_reference a t = Some (inc_count (at_get_reference_count t a), t')" "wf_tree t'"
    "\<And>b. is_page_aligned b \<Longrightarrow> at_get_reference_count t' b =
       (if b = a then Some (inc_count (at_get_reference_count t a)) else at_get_reference_count t b)"
proof -
  define n where "n = (case at_root t of None \<Rightarrow> node_new | Some n \<Rightarrow> n)"
  have wf: "wf_node TREE_DEPTH n"
    using assms(1) by (auto simp: n_def wf_tree_def tree_walk_specs(3) split: option.splits)
  have counts: "at_get_reference_count t b = count_walk (radix_path b) n" for b
    by (auto simp: n_def at_get_reference_count_def tree_walk_specs(4) split: option.splits)
  obtain n' where n': "add_ref_walk (radix_path a) n = Some (inc_count (at_get_reference_count t a), n')"
      "wf_node TREE_DEPTH n'"
      "\<And>b. count_walk (radix_path b) n' =
         (if radix_path b = radix_path a then Some (inc_count (at_get_reference_count t a))
          else at_get_reference_count t b)"
    using tree_walk_specs(1) [OF wf path_ok_radix_path [of a]] path_ok_radix_path
    unfolding counts by blast
  show thesis
    by (rule that [of "t\<lparr>at_root := Some n'\<rparr>"])
      (use assms n' in \<open>auto simp: at_add_reference_def is_page_aligned_def n_def [symmetric] Let_def
          wf_tree_def at_get_reference_count_def [of "t\<lparr>at_root := _\<rparr>"] radix_path_eq_iff\<close>)
qed

lemma at_add_reference_if_exists_ok:
  assumes "wf_tree t" "is_page_aligned a"
  obtains t' where
    "at_add_reference_if_exists a t = Some (map_option (\<lambda>v. v + 1) (at_get_reference_count t a), t')"
    "wf_tree t'"
    "\<And>b. is_page_aligned b \<Longrightarrow> at_get_reference_count t' b =
       (if b = a then map_option (\<lambda>v. v + 1) (at_get_reference_count t a) else at_get_reference_count t b)"
proof (cases "at_root t")
  case None
  with assms show thesis
    by (intro that [of t]) (auto simp: at_add_reference_if_exists_def is_page_aligned_def
        at_get_reference_count_def)
next
  case (Some n)
  have wf: "wf_node TREE_DEPTH n"
    using assms(1) Some by (simp add: wf_tree_def)
  have counts: "at_get_reference_count t b = count_walk (radix_path b) n" for b
    using Some by (simp add: at_get_reference_count_def)
  obtain n' where n': "add_existing_walk (radix_path a) n =
        Some (map_option (\<lambda>v. v + 1) (at_get_reference_count t a), n')" "wf_node TREE_DEPTH n'"
      "\<And>b. count_walk (radix_path b) n' =
         (if radix_path b = radix_path a then map_option (\<lambda>v. v + 1) (at_get_reference_count t a)
          else at_get_reference_count t b)"
    using add_existing_walk_spec [OF wf path_ok_radix_path [of a]] path_ok_radix_path
    unfolding counts by blast
  show thesis
    by (rule that [of "t\<lparr>at_root := Some n'\<rparr>"])
      (use assms Some n' in \<open>auto simp: at_add_reference_if_exists_def is_page_aligned_def
          wf_tree_def at_get_reference_count_def [of "t\<lparr>at_root := _\<rparr>"] radix_path_eq_iff\<close>)
qed

lemma at_remove_reference_ok:
  assumes "wf_tree t"
  obtains t' where "at_remove_reference a t = Some (remove_result (at_get_reference_count t a), t')"
    "wf_tree t'"
    "\<And>b. is_page_aligned a \<Longrightarrow> is_page_aligned b \<Longrightarrow> at_get_reference_count t' b =
       (if b = a then dec_count (at_get_reference_count t a) else at_get_reference_count t b)"
proof (cases "at_root t")
  case None
  with assms show thesis
    by (intro that [of t]) (auto simp: at_remove_reference_def at_get_reference_count_def remove_result_def)
next
  case (Some n)
  have wf: "wf_node TREE_DEPTH n"
    using assms(1) Some by (simp add: wf_tree_def)
  have counts: "at_get_reference_count t b = count_walk (radix_path b) n" for b
    using Some by (simp add: at_get_reference_count_def)
  obtain n' where n': "remove_ref_walk (radix_path a) n =
        Some (remove_result (at_get_reference_count t a), n')" "wf_node TREE_DEPTH n'"
      "\<And>b. count_walk (radix_path b) n' =
         (if radix_path b = radix_path a then dec_count (at_get_reference_count t a)
          else at_get_reference_count t b)"
    using tree_walk_specs(2) [OF wf path_ok_radix_path [of a]] path_ok_radix_path
    unfolding counts by blast
  show thesis
    by (rule that [of "t\<lparr>at_root := Some n'\<rparr>"])
      (use Some n' in \<open>auto simp: at_remove_reference_def wf_tree_def
          at_get_reference_count_def [of "t\<lparr>at_root := _\<rparr>"] radix_path_eq_iff\<close>)
qed

lemma at_contains_iff: "wf_tree t \<Longrightarrow> at_contains t a \<longleftrightarrow> at_get_reference_count t a \<noteq> None"
  by (auto simp: at_contains_def at_get_reference_count_def wf_tree_def path_ok_radix_path
      contains_walk_iff split: option.splits)

definition tree_add :: "phys_addr \<Rightarrow> address_tree \<Rightarrow> address_tree" where
  "tree_add a t = (case at_add_reference a t of None \<Rightarrow> t | Some (_, t') \<Rightarrow> t')"

definition tree_remove :: "phys_addr \<Rightarrow> address_tree \<Rightarrow> address_tree" where
  "tree_remove a t = (case at_remove_reference a t of None \<Rightarrow> t | Some (_, t') \<Rightarrow> t')"

interpretation frame_refs: ref_counter at_get_reference_count tree_add tree_remove wf_tree is_page_aligned
proof unfold_locales
  fix t k assume "wf_tree t" "is_page_aligned k"
  then obtain t' where "tree_add k t = t'" "wf_tree t'"
      "\<And>b. is_page_aligned b \<Longrightarrow> at_get_reference_count t' b =
         (if b = k then Some (inc_count (at_get_reference_count t k)) else at_get_reference_count t b)"
    by (rule at_add_reference_ok) (simp add: tree_add_def)
  then show "wf_tree (tree_add k t)"
    and "\<And>j. is_page_aligned j \<Longrightarrow> at_get_reference_count (tree_add k t) j =
      (if j = k then Some (inc_count (at_get_reference_count t k)) else at_get_reference_count t j)"
    by auto
next
  fix t k assume wf: "wf_tree t" and k: "is_page_aligned k"
  from wf obtain t' where "tree_remove k t = t'" "wf_tree t'"
      "\<And>b. is_page_aligned k \<Longrightarrow> is_page_aligned b \<Longrightarrow> at_get_reference_count t' b =
         (if b = k then dec_count (at_get_reference_count t k) else at_get_reference_count t b)"
    by (rule at_remove_reference_ok [of t k]) (simp add: tree_remove_def)
  with k show "wf_tree (tree_remove k t)"
    and "\<And>j. is_page_aligned j \<Longrightarrow> at_get_reference_count (tree_remove k t) j =
      (if j = k then dec_count (at_get_reference_count t k) else at_get_reference_count t j)"
    by auto
qed

section \<open>Properties\<close>

text \<open>
  (C15) The radix tree counts references exactly: after any sequence of additions and removals on
  page-aligned frames, none removed before it was added, the count of a frame is the number of
  additions minus the number of removals and the tree contains the frame exactly while this is not
  zero. Frames that share parts of their path do not disturb each other.
\<close>

theorem frame_tracker_exact:
  assumes "balanced_from 0 a ops" "adds_of a ops < 2 ^ 32" "is_page_aligned a"
    and "\<forall>op \<in> set ops. (case op of Ref_Add b \<Rightarrow> is_page_aligned b | Ref_Remove b \<Rightarrow> is_page_aligned b)"
  shows "at_get_reference_count (run_ref_ops tree_add tree_remove address_tree_new ops) a =
    count_of (adds_of a ops - removes_of a ops)"
  using frame_refs.count_exact [of address_tree_new ops a 0] assms by (simp add: count_of_def)

theorem frame_tracker_exact_witness:
  "at_get_reference_count (run_ref_ops tree_add tree_remove address_tree_new
     [Ref_Add 0x1000, Ref_Add 0x2000, Ref_Add 0x1000, Ref_Add 0x8001000, Ref_Remove 0x2000]) 0x1000 = Some 2"
  using frame_tracker_exact [of "0x1000"
      "[Ref_Add 0x1000, Ref_Add 0x2000, Ref_Add 0x1000, Ref_Add 0x8001000, Ref_Remove 0x2000]"]
  by (simp add: count_of_def is_page_aligned_def)

text \<open>
  (C29) On a well-formed tree and a page address no operation panics, each keeps the tree well formed
  and returns the count it documents: adding yields the previous count plus one (one for a new
  frame), adding only if present yields nothing for an absent frame, removing yields what is left.
\<close>

theorem frame_tracker_operations:
  assumes "wf_tree t" "is_page_aligned a"
  shows "(\<exists>t'. at_add_reference a t = Some (inc_count (at_get_reference_count t a), t') \<and> wf_tree t' \<and>
      at_get_reference_count t' a = Some (inc_count (at_get_reference_count t a))) \<and>
    (\<exists>t'. at_add_reference_if_exists a t = Some (map_option (\<lambda>c. c + 1) (at_get_reference_count t a), t') \<and>
      wf_tree t' \<and> at_contains t' a = at_contains t a) \<and>
    (\<exists>t'. at_remove_reference a t =
        Some (map_option (\<lambda>c. if 1 < c then c - 1 else 0) (at_get_reference_count t a), t') \<and>
      wf_tree t' \<and> at_get_reference_count t' a = dec_count (at_get_reference_count t a))"
proof (intro conjI)
  show "\<exists>t'. at_add_reference a t = Some (inc_count (at_get_reference_count t a), t') \<and> wf_tree t' \<and>
      at_get_reference_count t' a = Some (inc_count (at_get_reference_count t a))"
    by (rule at_add_reference_ok [OF assms]) (use assms in auto)
  show "\<exists>t'. at_add_reference_if_exists a t = Some (map_option (\<lambda>c. c + 1) (at_get_reference_count t a), t') \<and>
      wf_tree t' \<and> at_contains t' a = at_contains t a"
    by (rule at_add_reference_if_exists_ok [OF assms]) (use assms in \<open>auto simp: at_contains_iff\<close>)
  show "\<exists>t'. at_remove_reference a t =
        Some (map_option (\<lambda>c. if 1 < c then c - 1 else 0) (at_get_reference_count t a), t') \<and>
      wf_tree t' \<and> at_get_reference_count t' a = dec_count (at_get_reference_count t a)"
    by (rule at_remove_reference_ok [OF assms(1), of a]) (use assms in \<open>auto simp: remove_result_def\<close>)
qed

theorem frame_tracker_operations_witness:
  "(\<exists>t'. at_add_reference 0x5000 address_tree_new = Some (1, t') \<and> at_get_reference_count t' 0x5000 = Some 1) \<and>
   (\<exists>t'. at_remove_reference 0x5000 address_tree_new = Some (None, t'))"
  using frame_tracker_operations [of address_tree_new "0x5000"] by (auto simp: is_page_aligned_def)

end
