(* ===== verification/Physical_Memory.thy ===== *)
theory Physical_Memory
  imports Frame_Bitmap Frame_Tracker
begin

text \<open>
  \<^verbatim>\<open>kernel/src/memory/physical/mod.rs\<close>: the two global structures, the frame bitmap and the reference
  tracker, behind the functions the rest of the kernel calls. Each function takes its locks for the
  whole of its update, so an operation is one state transition. \<open>None\<close> is a panic of the code
  underneath; an \<^verbatim>\<open>AllocatedFrame\<close> is its address.
\<close>

section \<open>State and operations\<close>

record phys_mem =
  pm_allocator :: frame_bitmap
  pm_tracker :: address_tree

definition FRAME_SIZE :: u32 where
  "FRAME_SIZE = 0x1000"

definition allocate_frame :: "phys_mem \<Rightarrow> bitmap_error + (phys_addr \<times> phys_mem)" where
  "allocate_frame pm =
     (case allocate_first_frame (pm_allocator pm) of
        Inl e \<Rightarrow> Inl e
      | Inr (a, m) \<Rightarrow> Inr (a, pm\<lparr>pm_allocator := m\<rparr>))"

definition allocate_frame_with_tracking ::
  "phys_mem \<Rightarrow> (bitmap_error + (phys_addr \<times> phys_mem)) option" where
  "allocate_frame_with_tracking pm =
     (case allocate_frame pm of
        Inl e \<Rightarrow> Some (Inl e)
      | Inr (phys_addr, pm1) \<Rightarrow>
          (case at_add_reference phys_addr (pm_tracker pm1) of
             None \<Rightarrow> None
           | Some (_, tracker) \<Rightarrow> Some (Inr (phys_addr, pm1\<lparr>pm_tracker := tracker\<rparr>))))"

definition maybe_add_frame_reference :: "phys_addr \<Rightarrow> phys_mem \<Rightarrow> phys_mem option" where
  "maybe_add_frame_reference paddr pm =
     map_option (\<lambda>(_, tracker). pm\<lparr>pm_tracker := tracker\<rparr>)
       (at_add_reference_if_exists paddr (pm_tracker pm))"

definition tracked_frame_reference_count :: "phys_mem \<Rightarrow> phys_addr \<Rightarrow> u32 option" where
  "tracked_frame_reference_count pm paddr = at_get_reference_count (pm_tracker pm) paddr"

definition release_tracked_frame ::
  "phys_addr \<Rightarrow> phys_mem \<Rightarrow> ((bitmap_error + bool) \<times> phys_mem) option" where
  "release_tracked_frame phys_addr pm =
     (case at_remove_reference phys_addr (pm_tracker pm) of
        None \<Rightarrow> None
      | Some (remaining_ref_count, tracker) \<Rightarrow>
          let pm1 = pm\<lparr>pm_tracker := tracker\<rparr>
          in if remaining_ref_count = Some 0
             then (case free_frame (pm_allocator pm1) phys_addr of
                     Inl e \<Rightarrow> Some (Inl e, pm1)
                   | Inr m \<Rightarrow> Some (Inr True, pm1\<lparr>pm_allocator := m\<rparr>))
             else Some (Inr False, pm1))"

definition allocate_frames :: "u32 \<Rightarrow> phys_mem \<Rightarrow> bitmap_error + (phys_addr \<times> phys_mem)" where
  "allocate_frames count pm =
     (case bitmap_allocate_frames (pm_allocator pm) count of
        Inl e \<Rightarrow> Inl e
      | Inr (r, m) \<Rightarrow> Inr (get_starting_address r, pm\<lparr>pm_allocator := m\<rparr>))"

definition release_frame :: "phys_addr \<Rightarrow> phys_mem \<Rightarrow> bitmap_error + phys_mem" where
  "release_frame address pm =
     (case free_range (pm_allocator pm) (frame_range_new address FRAME_SIZE) of
        Inl e \<Rightarrow> Inl e
      | Inr m \<Rightarrow> Inr (pm\<lparr>pm_allocator := m\<rparr>))"

definition get_allocator_size :: "phys_mem \<Rightarrow> nat" where
  "get_allocator_size pm = bitmap_size_in_bytes (pm_allocator pm)"

text \<open>
  Boot: the bitmap is sized by the highest address of the BIOS map, freed by it, and then the frames
  already in use are taken again. \<open>fatdrv_phys\<close> and \<open>fatdrv_size\<close> are the two words the bootloader
  leaves at physical address \<open>0x600\<close>.
\<close>

definition BIOS_MEMORY_MAP_LOCATION :: phys_addr where
  "BIOS_MEMORY_MAP_LOCATION = 0x1000"

definition memory_end :: "map_entry list \<Rightarrow> u32" where
  "memory_end entries =
     fold (\<lambda>e memory_end. let end_addr = ucast (me_base e) + ucast (me_length e)
                           in if end_addr > memory_end then end_addr else memory_end) entries 0"

definition result_to_option :: "'e + 'a \<Rightarrow> 'a option" where
  "result_to_option r = (case r of Inl _ \<Rightarrow> None | Inr x \<Rightarrow> Some x)"

fun allocate_ranges :: "frame_range list \<Rightarrow> frame_bitmap \<Rightarrow> frame_bitmap option" where
  "allocate_ranges [] m = Some m"
| "allocate_ranges (r # rs) m = Option.bind (result_to_option (allocate_range m r)) (allocate_ranges rs)"

definition init_reserved ::
  "phys_addr \<Rightarrow> frame_range \<Rightarrow> u32 \<Rightarrow> u32 \<Rightarrow> frame_bitmap \<Rightarrow> frame_range list" where
  "init_reserved location kernel_range fatdrv_phys fatdrv_size m =
     [frame_range_new location (of_nat (bitmap_size_in_frames m) * FRAME_SIZE),
      kernel_range,
      frame_range_new 0 0x1000,
      frame_range_new BIOS_MEMORY_MAP_LOCATION 0x1000] @
     (if fatdrv_phys \<noteq> 0 \<and> fatdrv_size \<noteq> 0
      then [frame_range_new fatdrv_phys ((fatdrv_size + 0xfff) AND NOT 0xfff)] else [])"

definition init_allocator ::
  "(u32 \<Rightarrow> u8) \<Rightarrow> phys_addr \<Rightarrow> map_entry list \<Rightarrow> frame_range \<Rightarrow> u32 \<Rightarrow> u32 \<Rightarrow> frame_bitmap option" where
  "init_allocator mem location memory_map kernel_range fatdrv_phys fatdrv_size =
     (let bitmap0 = at_location mem location (unat (drop_bit 12 (memory_end memory_map)))
      in case initialize_from_memory_map bitmap0 memory_map of
           (_, Inl e) \<Rightarrow> None
         | (bitmap, Inr _) \<Rightarrow>
             allocate_ranges (init_reserved location kernel_range fatdrv_phys fatdrv_size bitmap) bitmap)"

section \<open>Tracked frames\<close>

text \<open>
  The contract between an allocator and a reference counter: a counted frame is in use. Proved once
  for the two interfaces.
\<close>

locale tracked_frames =
  frame_allocator good allocated alloc release +
  ref_counter count add rem ok is_page_aligned
  for good :: "'s \<Rightarrow> bool"
    and allocated :: "'s \<Rightarrow> phys_addr \<Rightarrow> bool"
    and alloc :: "'s \<Rightarrow> 'e + (phys_addr \<times> 's)"
    and release :: "'s \<Rightarrow> phys_addr \<Rightarrow> 'e + 's"
    and count :: "'t \<Rightarrow> phys_addr \<Rightarrow> u32 option"
    and add :: "phys_addr \<Rightarrow> 't \<Rightarrow> 't"
    and rem :: "phys_addr \<Rightarrow> 't \<Rightarrow> 't"
    and ok :: "'t \<Rightarrow> bool"
begin

lemma track_new_frame:
  assumes "good s" "ok t" "\<And>a. is_page_aligned a \<Longrightarrow> count t a \<noteq> None \<Longrightarrow> allocated s a"
    and "alloc s = Inr (a, s')"
  shows "count t a = None" "count (add a t) a = Some 1" "ok (add a t)" "good s'"
    "is_page_aligned b \<Longrightarrow> count (add a t) b \<noteq> None \<Longrightarrow> allocated s' b"
proof -
  note fresh = alloc_fresh [OF assms(1,4)]
  show "count t a = None" using assms(3) fresh by blast
  then show "count (add a t) a = Some 1" "ok (add a t)" "good s'"
    using fresh assms(2) count_add ok_add by auto
  show "allocated s' b" if "is_page_aligned b" "count (add a t) b \<noteq> None"
    using that fresh assms count_add [OF assms(2), of a b] alloc_frame [OF assms(1,4), of b]
    by (auto split: if_splits)
qed

lemma drop_last_reference:
  assumes "good s" "ok t" "\<And>a. is_page_aligned a \<Longrightarrow> count t a \<noteq> None \<Longrightarrow> allocated s a"
    and "is_page_aligned a" "count t a = Some c" "\<not> 1 < c"
  obtains s' where "release s a = Inr s'" "good s'" "\<not> allocated s' a" "count (rem a t) a = None"
    "\<And>b. is_page_aligned b \<Longrightarrow> count (rem a t) b \<noteq> None \<Longrightarrow> allocated s' b"
    "\<And>b. is_page_aligned b \<Longrightarrow> b \<noteq> a \<Longrightarrow> allocated s' b \<longleftrightarrow> allocated s b"
proof -
  have "allocated s a" using assms by simp
  then obtain s' where s': "release s a = Inr s'" "good s'"
      "\<And>b. is_page_aligned b \<Longrightarrow> allocated s' b \<longleftrightarrow> allocated s b \<and> b \<noteq> a"
    using release_allocated [OF assms(1,4)] by auto
  have gone: "count (rem a t) a = None"
    using assms count_rem by simp
  show thesis
  proof (rule that [OF s'(1,2) _ gone])
    show "allocated s' b" if "is_page_aligned b" "count (rem a t) b \<noteq> None" for b
      using that s'(3) assms(3) gone count_rem [OF assms(2,4), of b] by (auto split: if_splits)
  qed (use s'(3) assms(4) in auto)
qed

end

interpretation tracked: tracked_frames bitmap_ok is_address_allocated allocate_first_frame free_frame
  at_get_reference_count tree_add tree_remove wf_tree
  by unfold_locales

section \<open>Invariant\<close>

definition pm_inv :: "phys_mem \<Rightarrow> bool" where
  "pm_inv pm \<longleftrightarrow> bitmap_ok (pm_allocator pm) \<and> wf_tree (pm_tracker pm) \<and>
     (\<forall>a. is_page_aligned a \<and> tracked_frame_reference_count pm a \<noteq> None \<longrightarrow>
        is_address_allocated (pm_allocator pm) a)"

lemma pm_inv_alloc_mono:
  assumes "pm_inv pm" "length m = length (pm_allocator pm)"
    "\<And>g. frame_taken (pm_allocator pm) g \<Longrightarrow> frame_taken m g"
  shows "pm_inv (pm\<lparr>pm_allocator := m\<rparr>)"
  using assms
  by (auto simp: pm_inv_def bitmap_ok_def is_address_allocated_iff tracked_frame_reference_count_def
      total_frame_count_def)

lemma bitmap_allocate_frames_mono:
  "bitmap_allocate_frames m fc = Inr (r, m') \<Longrightarrow>
     length m' = length m \<and> (\<forall>g. frame_taken m g \<longrightarrow> frame_taken m' g)"
  using allocate_range_spec [of m r m']
  by (auto simp: bitmap_allocate_frames_def split: option.splits sum.splits)

lemma allocate_frame_cases:
  assumes "pm_inv pm" "allocate_frame pm = Inr (a, pm')"
  shows "is_page_aligned a" "\<not> is_address_allocated (pm_allocator pm) a"
    "tracked_frame_reference_count pm a = None"
    "is_address_allocated (pm_allocator pm') a" "pm_tracker pm' = pm_tracker pm" "pm_inv pm'"
proof -
  obtain m where m: "allocate_first_frame (pm_allocator pm) = Inr (a, m)" "pm' = pm\<lparr>pm_allocator := m\<rparr>"
    using assms(2) by (auto simp: allocate_frame_def split: sum.splits)
  have "bitmap_ok (pm_allocator pm)" using assms(1) by (simp add: pm_inv_def)
  note ok = allocate_first_frame_ok [OF this m(1)]
  show "is_page_aligned a" "\<not> is_address_allocated (pm_allocator pm) a"
    "tracked_frame_reference_count pm a = None"
    using ok(1,2) assms(1) by (auto simp: pm_inv_def)
  show "is_address_allocated (pm_allocator pm') a" "pm_tracker pm' = pm_tracker pm" "pm_inv pm'"
    using ok m(2) assms(1) pm_inv_alloc_mono [OF assms(1), of m]
    by (simp_all add: is_address_allocated_iff total_frame_count_def)
qed

lemma tree_addD: "at_add_reference a t = Some (c, t') \<Longrightarrow> tree_add a t = t'"
  by (simp add: tree_add_def)

lemma tree_removeD: "at_remove_reference a t = Some (c, t') \<Longrightarrow> tree_remove a t = t'"
  by (simp add: tree_remove_def)

lemma at_add_reference_Some:
  assumes "wf_tree t" "is_page_aligned a"
  shows "at_add_reference a t = Some (inc_count (at_get_reference_count t a), tree_add a t)"
  by (rule at_add_reference_ok [OF assms]) (simp add: tree_addD)

lemma at_remove_reference_Some:
  assumes "wf_tree t"
  shows "at_remove_reference a t = Some (remove_result (at_get_reference_count t a), tree_remove a t)"
  by (rule at_remove_reference_ok [OF assms, of a]) (simp add: tree_removeD)

lemma allocate_frame_with_tracking_ok:
  assumes "pm_inv pm" "allocate_frame pm = Inr (a, pm1)"
  shows "allocate_frame_with_tracking pm =
      Some (Inr (a, pm1\<lparr>pm_tracker := tree_add a (pm_tracker pm)\<rparr>))"
    "pm_inv (pm1\<lparr>pm_tracker := tree_add a (pm_tracker pm)\<rparr>)"
proof -
  note c = allocate_frame_cases [OF assms]
  have wf: "wf_tree (pm_tracker pm)" using assms(1) by (simp add: pm_inv_def)
  show "allocate_frame_with_tracking pm =
      Some (Inr (a, pm1\<lparr>pm_tracker := tree_add a (pm_tracker pm)\<rparr>))"
    using assms(2) c by (simp add: allocate_frame_with_tracking_def at_add_reference_Some [OF wf])
  show "pm_inv (pm1\<lparr>pm_tracker := tree_add a (pm_tracker pm)\<rparr>)"
    using c wf frame_refs.ok_add [OF wf c(1)] frame_refs.count_add [OF wf c(1)]
    by (auto simp: pm_inv_def tracked_frame_reference_count_def split: if_splits)
qed

lemma release_tracked_frame_last:
  assumes "pm_inv pm" "is_page_aligned a" "tracked_frame_reference_count pm a = Some c" "\<not> 1 < c"
  obtains m where "release_tracked_frame a pm =
      Some (Inr True, \<lparr>pm_allocator = m, pm_tracker = tree_remove a (pm_tracker pm)\<rparr>)"
    "pm_inv \<lparr>pm_allocator = m, pm_tracker = tree_remove a (pm_tracker pm)\<rparr>"
    "\<not> is_address_allocated m a" "at_get_reference_count (tree_remove a (pm_tracker pm)) a = None"
proof -
  have inv: "bitmap_ok (pm_allocator pm)" "wf_tree (pm_tracker pm)"
      "\<And>a. is_page_aligned a \<Longrightarrow> at_get_reference_count (pm_tracker pm) a \<noteq> None \<Longrightarrow>
        is_address_allocated (pm_allocator pm) a"
      "at_get_reference_count (pm_tracker pm) a = Some c"
    using assms by (auto simp: pm_inv_def tracked_frame_reference_count_def)
  obtain m where m: "free_frame (pm_allocator pm) a = Inr m" "bitmap_ok m" "\<not> is_address_allocated m a"
      "at_get_reference_count (tree_remove a (pm_tracker pm)) a = None"
      "\<And>b. is_page_aligned b \<Longrightarrow> at_get_reference_count (tree_remove a (pm_tracker pm)) b \<noteq> None \<Longrightarrow>
         is_address_allocated m b"
    by (rule tracked.drop_last_reference [OF inv(1,2,3) assms(2) inv(4) assms(4)]) auto
  show thesis
  proof (rule that [OF _ _ m(3,4)])
    show "release_tracked_frame a pm =
        Some (Inr True, \<lparr>pm_allocator = m, pm_tracker = tree_remove a (pm_tracker pm)\<rparr>)"
      using m(1) inv(4) assms(4)
      by (simp add: release_tracked_frame_def at_remove_reference_Some [OF inv(2)] remove_result_def Let_def)
    show "pm_inv \<lparr>pm_allocator = m, pm_tracker = tree_remove a (pm_tracker pm)\<rparr>"
      using m inv(2) frame_refs.ok_rem [OF inv(2) assms(2)]
      by (auto simp: pm_inv_def tracked_frame_reference_count_def)
  qed
qed

lemma release_tracked_frame_more:
  assumes "pm_inv pm" "is_page_aligned a"
    "case tracked_frame_reference_count pm a of None \<Rightarrow> True | Some c \<Rightarrow> 1 < c"
  shows "release_tracked_frame a pm = Some (Inr False, pm\<lparr>pm_tracker := tree_remove a (pm_tracker pm)\<rparr>)"
    "pm_inv (pm\<lparr>pm_tracker := tree_remove a (pm_tracker pm)\<rparr>)"
proof -
  have wf: "wf_tree (pm_tracker pm)" using assms(1) by (simp add: pm_inv_def)
  have "(v - 1 :: u32) \<noteq> 0" if "1 < v" for v
    using that by auto
  then show "release_tracked_frame a pm = Some (Inr False, pm\<lparr>pm_tracker := tree_remove a (pm_tracker pm)\<rparr>)"
    using assms(3)
    by (auto simp: release_tracked_frame_def at_remove_reference_Some [OF wf] remove_result_def
        tracked_frame_reference_count_def Let_def split: option.splits)
  show "pm_inv (pm\<lparr>pm_tracker := tree_remove a (pm_tracker pm)\<rparr>)"
    using assms frame_refs.ok_rem [OF wf assms(2)] frame_refs.count_rem [OF wf assms(2)]
    by (auto simp: pm_inv_def tracked_frame_reference_count_def split: if_splits option.splits)
qed

section \<open>Runs of operations\<close>

datatype pm_op =
  Pm_Alloc | Pm_Alloc_Tracked | Pm_Alloc_Many u32 | Pm_Share phys_addr | Pm_Release phys_addr

fun pm_step :: "pm_op \<Rightarrow> phys_mem \<Rightarrow> phys_mem option" where
  "pm_step Pm_Alloc pm = Some (case allocate_frame pm of Inl _ \<Rightarrow> pm | Inr (_, pm') \<Rightarrow> pm')"
| "pm_step Pm_Alloc_Tracked pm =
     map_option (\<lambda>r. case r of Inl _ \<Rightarrow> pm | Inr (_, pm') \<Rightarrow> pm') (allocate_frame_with_tracking pm)"
| "pm_step (Pm_Alloc_Many n) pm = Some (case allocate_frames n pm of Inl _ \<Rightarrow> pm | Inr (_, pm') \<Rightarrow> pm')"
| "pm_step (Pm_Share a) pm = maybe_add_frame_reference a pm"
| "pm_step (Pm_Release a) pm = map_option snd (release_tracked_frame a pm)"

fun pm_run :: "pm_op list \<Rightarrow> phys_mem \<Rightarrow> phys_mem option" where
  "pm_run [] pm = Some pm"
| "pm_run (op # ops) pm = Option.bind (pm_step op pm) (pm_run ops)"

fun pm_op_aligned :: "pm_op \<Rightarrow> bool" where
  "pm_op_aligned (Pm_Share a) = is_page_aligned a"
| "pm_op_aligned (Pm_Release a) = is_page_aligned a"
| "pm_op_aligned _ = True"

lemma maybe_add_frame_reference_inv:
  assumes "pm_inv pm" "is_page_aligned a"
  obtains pm' where "maybe_add_frame_reference a pm = Some pm'" "pm_inv pm'"
proof -
  have wf: "wf_tree (pm_tracker pm)" using assms(1) by (simp add: pm_inv_def)
  obtain t' where t': "at_add_reference_if_exists a (pm_tracker pm) =
        Some (map_option (\<lambda>v. v + 1) (at_get_reference_count (pm_tracker pm) a), t')" "wf_tree t'"
      "\<And>b. is_page_aligned b \<Longrightarrow> at_get_reference_count t' b =
         (if b = a then map_option (\<lambda>v. v + 1) (at_get_reference_count (pm_tracker pm) a)
          else at_get_reference_count (pm_tracker pm) b)"
    by (rule at_add_reference_if_exists_ok [OF wf assms(2)]) auto
  then have "pm_inv (pm\<lparr>pm_tracker := t'\<rparr>)"
    using assms by (auto simp: pm_inv_def tracked_frame_reference_count_def split: if_splits)
  with t'(1) show thesis
    by (intro that) (auto simp: maybe_add_frame_reference_def)
qed

lemma pm_step_inv:
  assumes "pm_inv pm" "pm_op_aligned op"
  shows "\<exists>pm'. pm_step op pm = Some pm' \<and> pm_inv pm'"
proof (cases op)
  case Pm_Alloc
  then show ?thesis
    using assms allocate_frame_cases(6) by (auto split: sum.splits)
next
  case Pm_Alloc_Tracked
  then show ?thesis
    using assms allocate_frame_with_tracking_ok [OF assms(1)]
    by (cases "allocate_frame pm") (auto simp: allocate_frame_with_tracking_def)
next
  case (Pm_Alloc_Many n)
  then show ?thesis
    using assms pm_inv_alloc_mono [OF assms(1)] bitmap_allocate_frames_mono [of "pm_allocator pm" n]
    by (auto simp: allocate_frames_def split: sum.splits)
next
  case (Pm_Share a)
  then show ?thesis
    using assms maybe_add_frame_reference_inv [of pm a] by auto
next
  case (Pm_Release a)
  show ?thesis
  proof (cases "case tracked_frame_reference_count pm a of None \<Rightarrow> True | Some c \<Rightarrow> 1 < c")
    case True
    then show ?thesis
      using Pm_Release assms release_tracked_frame_more [of pm a] by auto
  next
    case False
    then obtain c where c: "tracked_frame_reference_count pm a = Some c" "\<not> 1 < c"
      by (auto split: option.splits)
    have "is_page_aligned a" using assms Pm_Release by simp
    then show ?thesis
      by (rule release_tracked_frame_last [OF assms(1) _ c]) (simp add: Pm_Release)
  qed
qed

lemma pm_run_inv:
  "pm_inv pm \<Longrightarrow> list_all pm_op_aligned ops \<Longrightarrow> \<exists>pm'. pm_run ops pm = Some pm' \<and> pm_inv pm'"
proof (induction ops arbitrary: pm)
  case (Cons op ops)
  then show ?case
    using pm_step_inv [of pm op] by fastforce
qed simp

section \<open>Properties\<close>


lemma pm_inv_untracked: "bitmap_ok m \<Longrightarrow> pm_inv \<lparr>pm_allocator = m, pm_tracker = address_tree_new\<rparr>"
  by (simp add: pm_inv_def tracked_frame_reference_count_def)


text \<open>
  (C13) Releasing a tracked frame frees it exactly with its last reference. With more than one
  reference left the call answers \<open>Ok(false)\<close>, the count goes down by one and the frame stays in
  use; with one left it answers \<open>Ok(true)\<close>, the count disappears, the frame is free and no other
  frame changes.
\<close>

theorem release_frees_at_last_reference:
  assumes "pm_inv pm" "is_page_aligned a" "tracked_frame_reference_count pm a = Some c" "0 < c"
  shows "\<exists>pm'. release_tracked_frame a pm = Some (Inr (c = 1), pm') \<and> pm_inv pm' \<and>
    tracked_frame_reference_count pm' a = (if c = 1 then None else Some (c - 1)) \<and>
    (is_address_allocated (pm_allocator pm') a \<longleftrightarrow> c \<noteq> 1) \<and>
    (\<forall>b. is_page_aligned b \<and> b \<noteq> a \<longrightarrow>
      tracked_frame_reference_count pm' b = tracked_frame_reference_count pm b \<and>
      is_address_allocated (pm_allocator pm') b = is_address_allocated (pm_allocator pm) b)"
proof (cases "1 < c")
  case True
  have wf: "wf_tree (pm_tracker pm)" using assms(1) by (simp add: pm_inv_def)
  have "is_address_allocated (pm_allocator pm) a"
    using assms by (simp add: pm_inv_def)
  moreover have "c \<noteq> 1" using True by auto
  ultimately show ?thesis
    using release_tracked_frame_more [OF assms(1,2)] True assms(3) frame_refs.count_rem [OF wf assms(2)]
      assms(2) by (simp add: tracked_frame_reference_count_def)
next
  case False
  then have "unat c = unat (1 :: u32)"
    using assms(4) by (simp add: word_less_nat_alt)
  then have c1: "c = 1"
    by (simp only: word_unat_eq_iff)
  obtain m where m: "release_tracked_frame a pm =
        Some (Inr True, \<lparr>pm_allocator = m, pm_tracker = tree_remove a (pm_tracker pm)\<rparr>)"
      "pm_inv \<lparr>pm_allocator = m, pm_tracker = tree_remove a (pm_tracker pm)\<rparr>"
      "\<not> is_address_allocated m a" "at_get_reference_count (tree_remove a (pm_tracker pm)) a = None"
    by (rule release_tracked_frame_last [OF assms(1,2,3) False])
  have wf: "wf_tree (pm_tracker pm)" "bitmap_ok (pm_allocator pm)" "is_address_allocated (pm_allocator pm) a"
    using assms by (auto simp: pm_inv_def)
  have "free_frame (pm_allocator pm) a = Inr m"
    using m(1) by (cases pm) (auto simp: release_tracked_frame_def Let_def split: option.splits sum.splits if_splits)
  then have "is_address_allocated m b = is_address_allocated (pm_allocator pm) b"
    if "is_page_aligned b" "b \<noteq> a" for b
    using bitmap_alloc.release_allocated [OF wf(2) assms(2) wf(3)] that by auto
  then show ?thesis
    using m c1 frame_refs.count_rem [OF wf(1) assms(2)] by (simp add: tracked_frame_reference_count_def)
qed


text \<open>A frame with two references: the state after one tracked allocation and one share.\<close>

definition shared_frame_example :: phys_mem where
  "shared_frame_example =
     \<lparr>pm_allocator = [7, 0], pm_tracker = tree_add 0x2000 (tree_add 0x2000 address_tree_new)\<rparr>"

lemma shared_frame_example_ok:
  "pm_inv shared_frame_example" "is_page_aligned 0x2000"
  "tracked_frame_reference_count shared_frame_example 0x2000 = Some 2"
proof -
  have al: "is_page_aligned 0x2000" by (simp add: is_page_aligned_def)
  have wf: "wf_tree (tree_add 0x2000 address_tree_new)"
    by (simp add: al frame_refs.ok_add)
  have "is_address_allocated [7, 0] 0x2000" by code_simp
  then show "pm_inv shared_frame_example" "is_page_aligned 0x2000"
    "tracked_frame_reference_count shared_frame_example 0x2000 = Some 2"
    by (auto simp: al wf shared_frame_example_def pm_inv_def bitmap_ok_def
        tracked_frame_reference_count_def frame_refs.ok_add frame_refs.count_add split: if_splits)
qed

theorem release_frees_at_last_reference_witness:
  "\<exists>pm'. release_tracked_frame 0x2000 shared_frame_example = Some (Inr False, pm') \<and>
     tracked_frame_reference_count pm' 0x2000 = Some 1"
  using release_frees_at_last_reference [OF shared_frame_example_ok] by auto

lemma allocate_ranges_spec:
  "allocate_ranges rs m = Some m' \<Longrightarrow> length m' = length m \<and>
     (\<forall>g. frame_taken m' g \<longleftrightarrow> frame_taken m g \<or> (\<exists>r \<in> set rs. g \<in> set (range_frames r)))"
proof (induction rs arbitrary: m)
  case (Cons r rs)
  then obtain m1 where m1: "allocate_range m r = Inr m1" "allocate_ranges rs m1 = Some m'"
    by (auto simp: bind_eq_Some_conv result_to_option_def split: sum.splits)
  then show ?case
    using Cons.IH [OF m1(2)] allocate_range_spec [OF m1(1)] by auto
qed simp


definition example_memory_map :: "map_entry list" where
  "example_memory_map =
     [\<lparr>me_base = 0, me_length = 0xc000, me_region_type = 1, me_acpi = 0\<rparr>,
      \<lparr>me_base = 0xc000, me_length = 0x4000, me_region_type = 2, me_acpi = 0\<rparr>]"


end
