(* ===== verification/Mapped_Memory.thy ===== *)
theory Mapped_Memory
  imports Address BTree_Map
begin

text \<open>
  \<^verbatim>\<open>kernel/src/task/memory.rs\<close>: the memory map of a task. \<^verbatim>\<open>MappedMemory<U>\<close> is a \<^verbatim>\<open>BTreeMap\<close> from start
  address to region; the const parameter \<open>U\<close> is an argument of the operations that use it. The
  operations on the global table of file-backed pages are at the end.
\<close>

section \<open>Regions\<close>

type_synonym driver_id = u32
type_synonym mapping_token = u32

datatype memory_backing =
  Direct phys_addr
| FreeMemory
| IsaDma
| FileBacked (fb_driver: driver_id) (fb_token: mapping_token) (fb_offset: u32) (fb_shared: bool)

record mem_mapped_region =
  mr_address :: virt_addr
  mr_size :: u32
  mr_backed_by :: memory_backing

datatype unmapped_region_kind =
  U_Direct phys_addr
| U_FreeMemory
| U_FileBacked driver_id mapping_token u32 bool

record unmapped_region =
  ur_address :: virt_addr
  ur_size :: u32
  ur_kind :: unmapped_region_kind

datatype mem_map_error =
  InvalidSize | MapOutOfBounds | MappingWrongAlignment | NotEnoughMemory | UnmapNotPageMultiple
| NoTask | NotMapped | MappingFailed | FileUnavailable | DriverError | KernelError

type_synonym mapped_memory = "(virt_addr, mem_mapped_region) btree_map"

definition get_address_range :: "mem_mapped_region \<Rightarrow> virt_addr \<times> virt_addr" where
  "get_address_range r = (mr_address r, addr_add (mr_address r) (mr_size r))"

definition mr_contains_address :: "mem_mapped_region \<Rightarrow> virt_addr \<Rightarrow> bool" where
  "mr_contains_address r addr \<longleftrightarrow>
     (case get_address_range r of (start, end_addr) \<Rightarrow> start \<le> addr \<and> addr < end_addr)"

definition page_count :: "mem_mapped_region \<Rightarrow> u32" where
  "page_count r = (mr_size r + 0xfff) div 0x1000"

definition ranges_overlap :: "virt_addr \<times> virt_addr \<Rightarrow> virt_addr \<times> virt_addr \<Rightarrow> bool" where
  "ranges_overlap a b \<longleftrightarrow>
     (let mn = min (fst a) (fst b);
          mx = max (snd a) (snd b);
          a_length = addr_sub (snd a) (fst a);
          b_length = addr_sub (snd b) (fst b)
      in a_length + b_length > addr_sub mx mn)"

section \<open>Finding space\<close>

definition mapped_memory_new :: mapped_memory where
  "mapped_memory_new = []"

definition mm_len :: "mapped_memory \<Rightarrow> nat" where
  "mm_len m = length m"

definition drain_regions :: "mapped_memory \<Rightarrow> mem_mapped_region list" where
  "drain_regions m = map snd m"

definition can_fit_range :: "mapped_memory \<Rightarrow> virt_addr \<times> virt_addr \<Rightarrow> bool" where
  "can_fit_range m rng \<longleftrightarrow>
     list_all (\<lambda>(_, mapping). \<not> ranges_overlap (get_address_range mapping) rng) m"

text \<open>One gap of the walk in \<^verbatim>\<open>find_nearest_free_space\<close>: where the request would go and whether it improves.\<close>

definition place_in_gap :: "virt_addr \<Rightarrow> u32 \<Rightarrow> virt_addr \<Rightarrow> virt_addr \<Rightarrow> virt_addr" where
  "place_in_gap hint sz gap_start gap_end =
     (if gap_start \<le> hint \<and> addr_add hint sz \<le> gap_end then hint
      else if hint < gap_start then gap_start
      else prev_page_barrier (addr_sub gap_end sz))"

definition consider_gap ::
  "virt_addr \<Rightarrow> u32 \<Rightarrow> virt_addr \<Rightarrow> virt_addr \<Rightarrow> virt_addr option \<times> u32 \<Rightarrow> virt_addr option \<times> u32" where
  "consider_gap hint sz gap_start gap_end best =
     (if gap_end > gap_start \<and> addr_sub gap_end gap_start \<ge> sz then
        let place = place_in_gap hint sz gap_start gap_end;
            dist = (if place \<ge> hint then addr_sub place hint else addr_sub hint place)
        in if dist < snd best \<or> (dist = snd best \<and> place \<ge> hint) then (Some place, dist) else best
      else best)"

fun nearest_loop ::
  "virt_addr \<Rightarrow> u32 \<Rightarrow> mapped_memory \<Rightarrow> virt_addr \<Rightarrow> virt_addr option \<times> u32 \<Rightarrow>
   virt_addr \<times> (virt_addr option \<times> u32)" where
  "nearest_loop hint sz [] prev_end best = (prev_end, best)"
| "nearest_loop hint sz ((_, region) # rest) prev_end best =
     nearest_loop hint sz rest (next_page_barrier (addr_add (mr_address region) (mr_size region)))
       (consider_gap hint sz prev_end (mr_address region) best)"

definition find_nearest_free_space :: "u32 \<Rightarrow> mapped_memory \<Rightarrow> virt_addr \<Rightarrow> u32 \<Rightarrow> virt_addr option" where
  "find_nearest_free_space U m hint sz =
     (let (prev_end, best) = nearest_loop hint sz m 0x1000 (None, 0xffffffff)
      in fst (consider_gap hint sz prev_end U best))"

fun free_space_loop :: "u32 \<Rightarrow> mapped_memory \<Rightarrow> virt_addr \<Rightarrow> virt_addr option" where
  "free_space_loop sz [] prev_start = Some (prev_page_barrier (addr_sub prev_start sz))"
| "free_space_loop sz ((_, region) # rest) prev_start =
     (let region_end = next_page_barrier (addr_add (mr_address region) (mr_size region));
          free_space = addr_sub prev_start region_end
      in if free_space \<ge> sz then Some (prev_page_barrier (addr_sub prev_start sz))
         else free_space_loop sz rest (mr_address region))"

definition find_free_mapping_space :: "u32 \<Rightarrow> mapped_memory \<Rightarrow> u32 \<Rightarrow> virt_addr option" where
  "find_free_mapping_space U m sz = free_space_loop sz (rev m) U"

section \<open>Mapping and unmapping\<close>

definition round_size :: "u32 \<Rightarrow> u32" where
  "round_size requested_size = (requested_size + 0xfff) AND 0xfffff000"

definition insert_region ::
  "mapped_memory \<Rightarrow> virt_addr option \<Rightarrow> u32 \<Rightarrow> memory_backing \<Rightarrow> mem_map_error + (virt_addr \<times> mapped_memory)" where
  "insert_region m location requested_size backing =
     (case location of
        None \<Rightarrow> Inl NotEnoughMemory
      | Some free_space \<Rightarrow>
          Inr (free_space, bt_insert free_space
            \<lparr>mr_address = free_space, mr_size = requested_size, mr_backed_by = backing\<rparr> m))"

definition map_memory ::
  "u32 \<Rightarrow> mapped_memory \<Rightarrow> virt_addr option \<Rightarrow> u32 \<Rightarrow> memory_backing \<Rightarrow> mem_map_error + (virt_addr \<times> mapped_memory)" where
  "map_memory U m addr requested_size backing =
     (if requested_size = 0 then Inl InvalidSize
      else let rounded_size = round_size requested_size
      in case addr of
           Some request_start \<Rightarrow>
             if \<not> is_page_aligned request_start then Inl MappingWrongAlignment
             else insert_region m
               (if can_fit_range m (request_start, addr_add request_start rounded_size)
                then Some request_start
                else find_nearest_free_space U m request_start rounded_size)
               requested_size backing
         | None \<Rightarrow> insert_region m (find_free_mapping_space U m rounded_size) requested_size backing)"

text \<open>The start of the scan: the last key at or before the address, else the first one after it.\<close>

definition initial_key :: "mapped_memory \<Rightarrow> virt_addr \<Rightarrow> virt_addr option" where
  "initial_key m addr =
     (case rev (filter (\<lambda>(k, _). k \<le> addr) m) of
        (k, _) # _ \<Rightarrow> Some k
      | [] \<Rightarrow> (case filter (\<lambda>(k, _). addr \<le> k) m of (k, _) # _ \<Rightarrow> Some k | [] \<Rightarrow> None))"

fun keys_to_modify :: "virt_addr \<Rightarrow> virt_addr \<Rightarrow> mapped_memory \<Rightarrow> virt_addr list" where
  "keys_to_modify addr unmap_end [] = []"
| "keys_to_modify addr unmap_end ((k, v) # rest) =
     (if fst (get_address_range v) \<ge> unmap_end then []
      else if snd (get_address_range v) \<le> addr then keys_to_modify addr unmap_end rest
      else k # keys_to_modify addr unmap_end rest)"

definition unmapped_kind :: "memory_backing \<Rightarrow> u32 \<Rightarrow> unmapped_region_kind" where
  "unmapped_kind backing local_offset =
     (case backing of
        Direct paddr \<Rightarrow> U_Direct (addr_add paddr local_offset)
      | FreeMemory \<Rightarrow> U_FreeMemory
      | IsaDma \<Rightarrow> U_FreeMemory
      | FileBacked d t off sh \<Rightarrow> U_FileBacked d t (off + local_offset) sh)"

text \<open>One region of the second loop; \<open>None\<close> is the failed assertion or the missing key.\<close>

definition unmap_region ::
  "virt_addr \<Rightarrow> virt_addr \<Rightarrow> virt_addr \<Rightarrow> mapped_memory \<Rightarrow> (unmapped_region list \<times> mapped_memory) option" where
  "unmap_region addr unmap_end k m =
     (case bt_get k m of
        None \<Rightarrow> None
      | Some region \<Rightarrow>
          let m1 = bt_remove k m;
              (start, end_addr) = get_address_range region;
              intersection_start = max start addr;
              intersection_end = min end_addr unmap_end
          in if \<not> intersection_start \<le> intersection_end then None
             else
               let intersection_size = addr_sub intersection_end intersection_start;
                   local_offset = addr_sub intersection_start start;
                   unmapped = (if intersection_size > 0
                     then [\<lparr>ur_address = intersection_start, ur_size = intersection_size,
                            ur_kind = unmapped_kind (mr_backed_by region) local_offset\<rparr>]
                     else []);
                   m2 = (if start < addr
                     then bt_insert start \<lparr>mr_address = start, mr_size = addr_sub addr start,
                            mr_backed_by = mr_backed_by region\<rparr> m1
                     else m1);
                   m3 = (if end_addr > unmap_end
                     then bt_insert unmap_end \<lparr>mr_address = unmap_end, mr_size = addr_sub end_addr unmap_end,
                            mr_backed_by = mr_backed_by region\<rparr> m2
                     else m2)
               in Some (unmapped, m3))"

fun unmap_loop ::
  "virt_addr \<Rightarrow> virt_addr \<Rightarrow> virt_addr list \<Rightarrow> mapped_memory \<Rightarrow> (unmapped_region list \<times> mapped_memory) option" where
  "unmap_loop addr unmap_end [] m = Some ([], m)"
| "unmap_loop addr unmap_end (k # ks) m =
     (case unmap_region addr unmap_end k m of
        None \<Rightarrow> None
      | Some (us, m') \<Rightarrow> map_option (map_prod (\<lambda>vs. us @ vs) id) (unmap_loop addr unmap_end ks m'))"

definition unmap_memory ::
  "u32 \<Rightarrow> mapped_memory \<Rightarrow> virt_addr \<Rightarrow> u32 \<Rightarrow> (mem_map_error + (unmapped_region list \<times> mapped_memory)) option" where
  "unmap_memory U m addr len =
     (if len AND 0xfff \<noteq> 0 then Some (Inl UnmapNotPageMultiple)
      else if addr \<ge> U \<or> addr + len > U then Some (Inl MapOutOfBounds)
      else
        let unmap_end = addr_add addr len
        in case initial_key m addr of
             None \<Rightarrow> Some (Inr ([], m))
           | Some k0 \<Rightarrow>
               map_option Inr
                 (unmap_loop addr unmap_end
                   (keys_to_modify addr unmap_end (filter (\<lambda>(k, _). k0 \<le> k) m)) m))"

definition get_mapping_containing_address :: "mapped_memory \<Rightarrow> virt_addr \<Rightarrow> mem_mapped_region option" where
  "get_mapping_containing_address m addr =
     map_option snd (List.find (\<lambda>(_, region). mr_contains_address region addr) m)"

text \<open>\<^verbatim>\<open>get_mut_mapping_containing_address\<close> is only used to replace the backing of the region it finds.\<close>

definition remap_memory ::
  "mapped_memory \<Rightarrow> virt_addr \<Rightarrow> memory_backing \<Rightarrow> mem_map_error + (memory_backing \<times> mapped_memory)" where
  "remap_memory m addr backing =
     (case List.find (\<lambda>(_, region). mr_contains_address region addr) m of
        None \<Rightarrow> Inl NotMapped
      | Some (k, region) \<Rightarrow>
          Inr (mr_backed_by region,
               map (\<lambda>(j, r). if j = k then (j, r\<lparr>mr_backed_by := backing\<rparr>) else (j, r)) m))"

section \<open>Invariant\<close>

text \<open>
  Regions start on page boundaries, end below the bound and own the pages they touch: the spans,
  rounded up to whole pages, are pairwise disjoint.
\<close>

definition page_up :: "nat \<Rightarrow> nat" where
  "page_up n = (n + 4095) div 4096 * 4096"

definition mr_bytes :: "mem_mapped_region \<Rightarrow> nat set" where
  "mr_bytes r = {unat (mr_address r)..<unat (mr_address r) + unat (mr_size r)}"

definition mr_end :: "mem_mapped_region \<Rightarrow> nat" where
  "mr_end r = page_up (unat (mr_address r) + unat (mr_size r))"

definition mr_span :: "mem_mapped_region \<Rightarrow> nat set" where
  "mr_span r = {unat (mr_address r)..<mr_end r}"

definition region_ok :: "u32 \<Rightarrow> virt_addr \<Rightarrow> mem_mapped_region \<Rightarrow> bool" where
  "region_ok U k r \<longleftrightarrow> k = mr_address r \<and> is_page_aligned k \<and> 0 < unat (mr_size r) \<and>
     unat k + unat (mr_size r) \<le> unat U"

definition spans_disjoint :: "mapped_memory \<Rightarrow> bool" where
  "spans_disjoint m \<longleftrightarrow> (\<forall>p \<in> set m. \<forall>q \<in> set m. fst p \<noteq> fst q \<longrightarrow> mr_span (snd p) \<inter> mr_span (snd q) = {})"

definition mm_inv :: "u32 \<Rightarrow> mapped_memory \<Rightarrow> bool" where
  "mm_inv U m \<longleftrightarrow> is_page_aligned U \<and> bt_wf m \<and> (\<forall>(k, r) \<in> set m. region_ok U k r) \<and> spans_disjoint m"

lemma spans_disjointD:
  "spans_disjoint m \<Longrightarrow> (j, q) \<in> set m \<Longrightarrow> (k, r) \<in> set m \<Longrightarrow> j \<noteq> k \<Longrightarrow> mr_span q \<inter> mr_span r = {}"
  unfolding spans_disjoint_def by (metis fst_conv snd_conv)

lemma spans_disjointI:
  "(\<And>j q k r. (j, q) \<in> set m \<Longrightarrow> (k, r) \<in> set m \<Longrightarrow> j \<noteq> k \<Longrightarrow> mr_span q \<inter> mr_span r = {}) \<Longrightarrow>
   spans_disjoint m"
  unfolding spans_disjoint_def by (metis prod.collapse)

lemma spans_disjoint_insert:
  assumes "spans_disjoint m" "\<And>k r. (k, r) \<in> set m \<Longrightarrow> k \<noteq> a \<Longrightarrow> mr_span x \<inter> mr_span r = {}"
  shows "spans_disjoint (bt_insert a x m)"
proof (rule spans_disjointI)
  fix j q k r
  assume "(j, q) \<in> set (bt_insert a x m)" "(k, r) \<in> set (bt_insert a x m)" "j \<noteq> k"
  then show "mr_span q \<inter> mr_span r = {}"
    using assms(2) [of j q] assms(2) [of k r] spans_disjointD [OF assms(1), of j q k r]
    by (auto simp: Int_commute)
qed

lemma spans_disjoint_subset: "spans_disjoint m \<Longrightarrow> set n \<subseteq> set m \<Longrightarrow> spans_disjoint n"
  unfolding spans_disjoint_def by blast

lemma mm_inv_new: "is_page_aligned U \<Longrightarrow> mm_inv U mapped_memory_new"
  by (simp add: mm_inv_def mapped_memory_new_def spans_disjoint_def)

subsection \<open>Page arithmetic\<close>

lemma page_up_cases: "page_up n = (if n mod 4096 = 0 then n else n + 4096 - n mod 4096)"
  using round_up_cases [of 4096 n] by (simp add: page_up_def)

lemma page_up_mult [simp]: "page_up n mod 4096 = 0"
  by (simp add: page_up_def)

lemma page_up_ge: "n \<le> page_up n"
  using mod_less_divisor [of 4096 n] by (auto simp: page_up_cases)

lemma page_up_less: "page_up n < n + 4096"
  using mod_less_divisor [of 4096 n] by (auto simp: page_up_cases)

lemma page_up_id: "n mod 4096 = 0 \<Longrightarrow> page_up n = n"
  by (simp add: page_up_cases)

lemma pages_apart:
  assumes "a mod 4096 = 0" "b mod 4096 = 0" "a < b"
  shows "a + 4096 \<le> (b :: nat)"
proof -
  obtain i j where "a = 4096 * i" "b = 4096 * j"
    using assms(1,2) by (auto elim!: dvdE simp: mod_eq_0_iff_dvd)
  with assms(3) show ?thesis by simp
qed

lemma page_up_le:
  assumes "n \<le> u" "u mod 4096 = 0"
  shows "page_up n \<le> u"
proof (rule ccontr)
  assume "\<not> page_up n \<le> u"
  then have "u + 4096 \<le> page_up n"
    using assms by (intro pages_apart) auto
  then show False
    using assms(1) page_up_less [of n] by linarith
qed

lemma mod_diff_0: "a mod 4096 = 0 \<Longrightarrow> b mod 4096 = 0 \<Longrightarrow> (a - b) mod 4096 = (0 :: nat)"
  by (metis dvd_diff_nat mod_0_imp_dvd dvd_imp_mod_0)

lemma unat_U_bound: "is_page_aligned U \<Longrightarrow> unat U \<le> 0xfffff000"
proof (rule ccontr)
  assume "is_page_aligned U" "\<not> unat U \<le> 0xfffff000"
  then have "(0xfffff000 :: nat) + 4096 \<le> unat U"
    by (intro pages_apart) (auto simp: is_page_aligned_iff)
  then show False
    using unat_less_max32 [of U] by linarith
qed

lemma region_end:
  assumes "region_ok U k r" "is_page_aligned U"
  shows "unat (addr_add (mr_address r) (mr_size r)) = unat (mr_address r) + unat (mr_size r)"
    and "unat (next_page_barrier (addr_add (mr_address r) (mr_size r))) = mr_end r"
    and "mr_end r \<le> unat U"
    and "is_page_aligned (next_page_barrier (addr_add (mr_address r) (mr_size r)))"
proof -
  have le: "unat (mr_address r) + unat (mr_size r) \<le> unat U"
    using assms(1) by (auto simp: region_ok_def)
  moreover note unat_U_bound [OF assms(2)]
  ultimately show e: "unat (addr_add (mr_address r) (mr_size r)) = unat (mr_address r) + unat (mr_size r)"
    by (simp add: addr_add_def unat_add_small)
  show n: "unat (next_page_barrier (addr_add (mr_address r) (mr_size r))) = mr_end r"
    using e le unat_U_bound [OF assms(2)] by (simp add: unat_next_page_barrier mr_end_def page_up_def)
  show "mr_end r \<le> unat U"
    using le assms(2) by (simp add: mr_end_def page_up_le is_page_aligned_iff)
  show "is_page_aligned (next_page_barrier (addr_add (mr_address r) (mr_size r)))"
    by (simp add: is_page_aligned_iff n mr_end_def)
qed

lemma region_start_in_span: "region_ok U k r \<Longrightarrow> unat k \<in> mr_span r"
  using page_up_ge [of "unat k + unat (mr_size r)"] by (auto simp: region_ok_def mr_span_def mr_end_def)

lemma spans_ordered:
  assumes "region_ok U j q" "mr_span p \<inter> mr_span q = {}" "mr_address p \<le> j"
  shows "mr_end p \<le> unat j"
proof (rule ccontr)
  assume "\<not> mr_end p \<le> unat j"
  then have "unat j \<in> mr_span p"
    using assms(3) by (simp add: mr_span_def word_le_nat_alt)
  then show False
    using assms(2) region_start_in_span [OF assms(1)] by blast
qed

section \<open>Placement\<close>

text \<open>A page-aligned place for \<open>n\<close> bytes below the bound that touches no page of a region.\<close>

definition free_at :: "nat \<Rightarrow> mapped_memory \<Rightarrow> nat \<Rightarrow> nat \<Rightarrow> bool" where
  "free_at bound m n x \<longleftrightarrow> x mod 4096 = 0 \<and> x + n \<le> bound \<and>
     (\<forall>p \<in> set m. {x..<x + n} \<inter> mr_span (snd p) = {})"

lemma interval_around:
  assumes "{x..<x + n} \<inter> {k..<e} = {}" "(k :: nat) < e" "0 < n"
  shows "x + n \<le> k \<or> e \<le> x"
proof (rule ccontr)
  assume "\<not> (x + n \<le> k \<or> e \<le> x)"
  then have "max x k \<in> {x..<x + n} \<inter> {k..<e}"
    using assms(2,3) by auto
  with assms(1) show False by blast
qed

lemma free_atD: "free_at bound m n x \<Longrightarrow> (k, r) \<in> set m \<Longrightarrow> {x..<x + n} \<inter> mr_span r = {}"
  unfolding free_at_def by (metis snd_conv)

lemma free_atI:
  "x mod 4096 = 0 \<Longrightarrow> x + n \<le> bound \<Longrightarrow> (\<And>k r. (k, r) \<in> set m \<Longrightarrow> {x..<x + n} \<inter> mr_span r = {}) \<Longrightarrow>
   free_at bound m n x"
  unfolding free_at_def by (metis prod.collapse)

lemma free_at_bound: "free_at bound m n x \<Longrightarrow> x mod 4096 = 0 \<and> x + n \<le> bound"
  by (simp add: free_at_def)

lemma free_around_region:
  assumes "free_at bound m n x" "(k, r) \<in> set m" "region_ok U k r" "0 < n"
  shows "x + n \<le> unat k \<or> mr_end r \<le> x"
proof -
  have "unat k < mr_end r" "mr_address r = k"
    using region_start_in_span [OF assms(3)] assms(3) by (auto simp: mr_span_def region_ok_def)
  moreover note free_atD [OF assms(1,2)]
  ultimately show ?thesis
    using interval_around [of x n "unat k" "mr_end r"] assms(4) by (simp add: mr_span_def)
qed

lemma free_beside_region:
  "k = mr_address r \<Longrightarrow> x + n \<le> unat k \<or> mr_end r \<le> x \<Longrightarrow> {x..<x + n} \<inter> mr_span r = {}"
  by (auto simp: mr_span_def)

lemma unat_addr_sub [simp]: "unat (addr_sub a b) = unat a - unat b"
  by (simp add: addr_sub_def)

lemma unat_prev_sub:
  "unat a mod 4096 = 0 \<Longrightarrow> unat b mod 4096 = 0 \<Longrightarrow> unat (prev_page_barrier (addr_sub a b)) = unat a - unat b"
  by (simp add: mod_diff_0)

subsection \<open>Downwards from the top\<close>

text \<open>The reversed list: each region lies below the start of the one before it.\<close>

fun descending :: "u32 \<Rightarrow> mapped_memory \<Rightarrow> nat \<Rightarrow> bool" where
  "descending U [] hi = True"
| "descending U ((k, r) # rest) hi = (region_ok U k r \<and> mr_end r \<le> hi \<and> descending U rest (unat k))"

lemma descending_mono: "descending U m hi \<Longrightarrow> hi \<le> hi' \<Longrightarrow> descending U m hi'"
  by (cases m) auto

lemma descending_below:
  "descending U m hi \<Longrightarrow> (k, r) \<in> set m \<Longrightarrow> region_ok U k r \<and> mr_end r \<le> hi"
proof (induction U m hi rule: descending.induct)
  case (2 U j q rest hi)
  have "unat j \<le> mr_end q"
    using 2(2) region_start_in_span [of U j q] by (auto simp: mr_span_def)
  then show ?case using 2 by fastforce
qed simp

lemma inv_descending:
  "bt_wf m \<Longrightarrow> (\<forall>(k, r) \<in> set m. region_ok U k r) \<Longrightarrow> spans_disjoint m \<Longrightarrow>
   \<forall>(k, r) \<in> set m. mr_end r \<le> hi \<Longrightarrow> descending U (rev m) hi"
proof (induction m arbitrary: hi rule: rev_induct)
  case (snoc p m)
  obtain k r where p: "p = (k, r)" by force
  have ok: "region_ok U k r" using snoc.prems(2) p by auto
  have "mr_end q \<le> unat k" if "(j, q) \<in> set m" for j q
  proof (rule spans_ordered [OF ok])
    have "j < k" using snoc.prems(1) that by (auto simp: p bt_wf_append)
    then show "mr_span q \<inter> mr_span r = {}" "mr_address q \<le> k"
      using that snoc.prems(2,3) by (force simp: spans_disjoint_def p region_ok_def)+
  qed
  then have "descending U (rev m) (unat k)"
    using snoc.prems by (intro snoc.IH) (auto simp: bt_wf_append spans_disjoint_def)
  then show ?case
    using snoc.prems ok by (simp add: p)
qed simp

lemma mm_inv_descending: "mm_inv U m \<Longrightarrow> descending U (rev m) (unat U)"
  by (intro inv_descending) (auto simp: mm_inv_def region_end(3))

lemma free_space_loop_spec:
  assumes "descending U m (unat hi)" "is_page_aligned U" "is_page_aligned hi"
    "is_page_aligned sz" "0 < unat sz" "free_at (unat hi) m (unat sz) x"
  shows "\<exists>a. free_space_loop sz m hi = Some a \<and> free_at (unat hi) m (unat sz) (unat a)"
  using assms
proof (induction sz m hi arbitrary: x rule: free_space_loop.induct)
  case (1 sz hi)
  then show ?case
    by (auto simp: free_at_def is_page_aligned_iff unat_prev_sub mod_diff_0)
next
  case (2 sz k r rest hi)
  have ok: "region_ok U k r" and rest: "descending U rest (unat k)" and below: "mr_end r \<le> unat hi"
    using "2.prems" by auto
  note e = region_end [OF ok "2.prems"(2)]
  have k: "mr_address r = k" "is_page_aligned k" "unat k \<le> mr_end r"
    using ok region_start_in_span [OF ok] by (auto simp: region_ok_def mr_span_def)
  show ?case
  proof (cases "unat sz \<le> unat hi - mr_end r")
    case True
    let ?a = "prev_page_barrier (addr_sub hi sz)"
    have a: "unat ?a = unat hi - unat sz"
      using "2.prems" by (intro unat_prev_sub) (simp_all add: is_page_aligned_iff)
    have "{unat ?a..<unat ?a + unat sz} \<inter> mr_span q = {}" if "(j, q) \<in> set ((k, r) # rest)" for j q
    proof -
      have "mr_end q \<le> mr_end r"
        using that descending_below [OF rest, of j q] k by auto
      then show ?thesis
        using True a by (auto simp: mr_span_def)
    qed
    then have "free_at (unat hi) ((k, r) # rest) (unat sz) (unat ?a)"
      using True a "2.prems"(3,4) by (intro free_atI) (simp_all add: is_page_aligned_iff mod_diff_0)
    moreover have "free_space_loop sz ((k, r) # rest) hi = Some ?a"
      using True e by (simp add: Let_def word_le_nat_alt)
    ultimately show ?thesis by blast
  next
    case False
    then have step: "free_space_loop sz ((k, r) # rest) hi = free_space_loop sz rest k"
      using e k by (simp add: Let_def word_le_nat_alt)
    have "x + unat sz \<le> unat k \<or> mr_end r \<le> x"
      using free_around_region [OF "2.prems"(6), of k r U] ok "2.prems"(5) by simp
    then have "x + unat sz \<le> unat k"
      using free_at_bound [OF "2.prems"(6)] False by auto
    then have "free_at (unat k) rest (unat sz) x"
      using free_at_bound [OF "2.prems"(6)] free_atD [OF "2.prems"(6)] by (intro free_atI) auto
    then obtain a where a: "free_space_loop sz rest k = Some a" "free_at (unat k) rest (unat sz) (unat a)"
      using "2.IH" [OF refl _ _ rest [folded k(1)]] False "2.prems" k e by (auto simp: word_le_nat_alt)
    have "free_at (unat hi) ((k, r) # rest) (unat sz) (unat a)"
    proof (rule free_atI)
      show "{unat a..<unat a + unat sz} \<inter> mr_span q = {}" if "(j, q) \<in> set ((k, r) # rest)" for j q
        using that free_atD [OF a(2)] free_at_bound [OF a(2)] k(1) free_beside_region [of k r "unat a" "unat sz"]
        by auto
    qed (use free_at_bound [OF a(2)] k below in auto)
    with a step show ?thesis by simp
  qed
qed

lemma free_at_rev: "free_at b (rev m) n x \<longleftrightarrow> free_at b m n x"
  by (simp add: free_at_def)

lemma find_free_mapping_space_spec:
  assumes "mm_inv U m" "is_page_aligned sz" "0 < unat sz" "free_at (unat U) m (unat sz) x"
  shows "\<exists>a. find_free_mapping_space U m sz = Some a \<and> free_at (unat U) m (unat sz) (unat a)"
  using free_space_loop_spec [of U "rev m" U sz x] mm_inv_descending [OF assms(1)] assms
  by (simp add: find_free_mapping_space_def free_at_rev mm_inv_def)

subsection \<open>Nearest to a hint\<close>

definition apart :: "nat \<Rightarrow> nat \<Rightarrow> nat" where
  "apart h x = (if h \<le> x then x - h else h - x)"

definition candidate :: "u32 \<Rightarrow> mapped_memory \<Rightarrow> nat \<Rightarrow> nat \<Rightarrow> bool" where
  "candidate U m n x \<longleftrightarrow> free_at (unat U) m n x \<and> 4096 \<le> x"

lemma candidate_bound: "candidate U m n x \<Longrightarrow> x + n \<le> unat U"
  by (simp add: candidate_def free_at_def)

lemma place_in_gap_spec:
  assumes "is_page_aligned hint" "is_page_aligned gs" "is_page_aligned ge" "is_page_aligned sz"
    and "unat gs + unat sz \<le> unat ge" "unat hint + unat sz < 2 ^ 32"
  defines "p \<equiv> unat (place_in_gap hint sz gs ge)"
  shows "unat gs \<le> p \<and> p + unat sz \<le> unat ge \<and> p mod 4096 = 0"
    and "unat gs \<le> x \<Longrightarrow> x + unat sz \<le> unat ge \<Longrightarrow> apart (unat hint) p \<le> apart (unat hint) x"
proof -
  have sum: "unat (addr_add hint sz) = unat hint + unat sz"
    using assms(6) by (simp add: addr_add_def unat_add_small)
  have low: "unat (prev_page_barrier (addr_sub ge sz)) = unat ge - unat sz"
    using assms(3,4) by (intro unat_prev_sub) (simp_all add: is_page_aligned_iff)
  have p: "p = (if unat gs \<le> unat hint \<and> unat hint + unat sz \<le> unat ge then unat hint
      else if unat hint < unat gs then unat gs else unat ge - unat sz)"
    by (simp add: p_def place_in_gap_def word_le_nat_alt word_less_nat_alt sum low
        del: unat_prev_page_barrier)
  show "unat gs \<le> p \<and> p + unat sz \<le> unat ge \<and> p mod 4096 = 0"
    using assms(1-5) by (auto simp: p is_page_aligned_iff mod_diff_0)
  show "apart (unat hint) p \<le> apart (unat hint) x" if "unat gs \<le> x" "x + unat sz \<le> unat ge"
    using that by (auto simp: p apart_def)
qed

definition best_ok :: "u32 \<Rightarrow> mapped_memory \<Rightarrow> nat \<Rightarrow> nat \<Rightarrow> virt_addr option \<times> u32 \<Rightarrow> bool" where
  "best_ok U m n h best \<longleftrightarrow>
     (case fst best of
        None \<Rightarrow> snd best = 0xffffffff
      | Some p \<Rightarrow> candidate U m n (unat p) \<and> unat (snd best) = apart h (unat p))"

lemma consider_gap_inv:
  assumes al: "is_page_aligned hint" "is_page_aligned gs" "is_page_aligned ge" "is_page_aligned sz"
    and sz: "0 < unat sz" "unat hint + unat sz < 2 ^ 32"
    and gap: "4096 \<le> unat gs" "unat ge \<le> unat U"
      "\<And>k r. (k, r) \<in> set m \<Longrightarrow> k = mr_address r \<and> (mr_end r \<le> unat gs \<or> unat ge \<le> unat k)"
    and best: "best_ok U m (unat sz) (unat hint) best"
      "\<And>x. candidate U m (unat sz) x \<Longrightarrow> x < unat gs \<Longrightarrow> unat (snd best) \<le> apart (unat hint) x"
  defines "best' \<equiv> consider_gap hint sz gs ge best"
  shows "best_ok U m (unat sz) (unat hint) best'"
    and "candidate U m (unat sz) x \<Longrightarrow> x + unat sz \<le> unat ge \<Longrightarrow> unat (snd best') \<le> apart (unat hint) x"
proof -
  define p where "p = place_in_gap hint sz gs ge"
  define d where "d = (if p \<ge> hint then addr_sub p hint else addr_sub hint p)"
  have d: "unat d = apart (unat hint) (unat p)"
    by (simp add: d_def apart_def word_le_nat_alt)
  have fits: "(gs < ge \<and> sz \<le> addr_sub ge gs) \<longleftrightarrow> unat gs + unat sz \<le> unat ge"
    using sz(1) by (auto simp: word_le_nat_alt word_less_nat_alt)
  have skip: "best' = best" if "\<not> unat gs + unat sz \<le> unat ge"
    using that fits by (auto simp: best'_def consider_gap_def)
  have taken: "best' = (if d < snd best \<or> (d = snd best \<and> p \<ge> hint) then (Some p, d) else best)"
    if "unat gs + unat sz \<le> unat ge"
    using that fits by (simp add: best'_def consider_gap_def p_def [symmetric] d_def [symmetric] Let_def)
  have cand: "candidate U m (unat sz) (unat p)" if "unat gs + unat sz \<le> unat ge"
  proof -
    note pl = place_in_gap_spec(1) [OF al that sz(2), folded p_def]
    have "{unat p..<unat p + unat sz} \<inter> mr_span r = {}" if "(k, r) \<in> set m" for k r
      using gap(3) [OF that] pl by (intro free_beside_region [of k]) auto
    then show ?thesis
      using pl gap(1,2) by (auto simp: candidate_def intro!: free_atI)
  qed
  show "best_ok U m (unat sz) (unat hint) best'"
    using best(1) skip taken cand d by (cases "unat gs + unat sz \<le> unat ge") (auto simp: best_ok_def)
  show "unat (snd best') \<le> apart (unat hint) x"
    if x: "candidate U m (unat sz) x" "x + unat sz \<le> unat ge"
  proof (cases "x < unat gs")
    case True
    have "unat (snd best') \<le> unat (snd best)"
      using skip taken by (cases "unat gs + unat sz \<le> unat ge") (auto simp: word_less_nat_alt)
    with best(2) [OF x(1) True] show ?thesis by simp
  next
    case False
    then have f: "unat gs + unat sz \<le> unat ge" using x(2) by simp
    have "unat (snd best') \<le> unat d"
      using taken [OF f] by (auto simp: word_less_nat_alt)
    also have "\<dots> \<le> apart (unat hint) x"
      using place_in_gap_spec(2) [OF al f sz(2), of x] False x(2) d by (simp add: p_def)
    finally show ?thesis .
  qed
qed

lemma mm_inv_region: "mm_inv U m \<Longrightarrow> (k, r) \<in> set m \<Longrightarrow> region_ok U k r"
  by (auto simp: mm_inv_def)

lemma mm_inv_ordered:
  assumes "mm_inv U m" "(j, q) \<in> set m" "(k, r) \<in> set m" "j < k"
  shows "mr_end q \<le> unat k"
proof (rule spans_ordered [OF mm_inv_region [OF assms(1,3)]])
  show "mr_span q \<inter> mr_span r = {}"
    using assms by (fastforce simp: mm_inv_def spans_disjoint_def)
  show "mr_address q \<le> k"
    using mm_inv_region [OF assms(1,2)] assms(4) by (simp add: region_ok_def)
qed

text \<open>State of the walk between two regions: all earlier regions end before \<open>gs\<close>.\<close>

definition walk_ok :: "u32 \<Rightarrow> mapped_memory \<Rightarrow> nat \<Rightarrow> nat \<Rightarrow> mapped_memory \<Rightarrow> virt_addr \<Rightarrow> virt_addr option \<times> u32 \<Rightarrow> bool" where
  "walk_ok U m n h don gs best \<longleftrightarrow>
     is_page_aligned gs \<and> 4096 \<le> unat gs \<and> (\<forall>(k, r) \<in> set don. mr_end r \<le> unat gs) \<and>
     best_ok U m n h best \<and> (\<forall>x. candidate U m n x \<and> x < unat gs \<longrightarrow> unat (snd best) \<le> apart h x)"

lemma walk_step:
  assumes inv: "mm_inv U m" "m = don @ (k, r) # rest"
    and req: "is_page_aligned hint" "is_page_aligned sz" "0 < unat sz" "unat hint + unat sz < 2 ^ 32"
    and walk: "walk_ok U m (unat sz) (unat hint) don gs best"
  shows "walk_ok U m (unat sz) (unat hint) (don @ [(k, r)])
    (next_page_barrier (addr_add (mr_address r) (mr_size r))) (consider_gap hint sz gs (mr_address r) best)"
proof -
  have ok: "region_ok U k r" and U: "is_page_aligned U" and kr: "(k, r) \<in> set m"
    using inv by (auto simp: mm_inv_def)
  note e = region_end [OF ok U]
  have k: "mr_address r = k" "is_page_aligned k" "unat k < mr_end r" "unat k \<le> unat U"
    using ok region_start_in_span [OF ok] by (auto simp: region_ok_def mr_span_def)
  have sides: "j = mr_address q \<and> (mr_end q \<le> unat gs \<or> unat k \<le> unat j)" if "(j, q) \<in> set m" for j q
  proof -
    have "j = mr_address q" using mm_inv_region [OF inv(1) that] by (simp add: region_ok_def)
    moreover have "k < j" if "(j, q) \<in> set rest"
      using that inv by (auto simp: mm_inv_def bt_wf_append bt_wf_Cons)
    moreover have "mr_end q \<le> unat gs" if "(j, q) \<in> set don"
      using that walk by (auto simp: walk_ok_def)
    ultimately show ?thesis
      using that inv(2) by (auto simp: word_less_nat_alt)
  qed
  have "mr_end q \<le> mr_end r" if "(j, q) \<in> set (don @ [(k, r)])" for j q
  proof -
    have "j < k" if "(j, q) \<in> set don"
      using that inv by (force simp: mm_inv_def bt_wf_append)
    then show ?thesis
      using that mm_inv_ordered [OF inv(1) _ kr, of j q] inv(2) k(3) by auto
  qed
  moreover have "4096 \<le> mr_end r"
    using pages_apart [of 0 "mr_end r"] k(3) by (simp add: mr_end_def)
  moreover have g: "is_page_aligned gs" "4096 \<le> unat gs" "best_ok U m (unat sz) (unat hint) best"
      "\<And>x. candidate U m (unat sz) x \<Longrightarrow> x < unat gs \<Longrightarrow> unat (snd best) \<le> apart (unat hint) x"
    using walk by (auto simp: walk_ok_def)
  note gap = consider_gap_inv [OF req(1) g(1) k(2) req(2-4) g(2) k(4) sides g(3,4)]
  moreover have "x + unat sz \<le> unat k" if "candidate U m (unat sz) x" "x < mr_end r" for x
    using free_around_region [OF _ kr ok req(3), of "unat U" x] that by (auto simp: candidate_def)
  ultimately show ?thesis
    using e by (auto simp: walk_ok_def k(1))
qed

lemma nearest_loop_walk:
  assumes inv: "mm_inv U m"
    and req: "is_page_aligned hint" "is_page_aligned sz" "0 < unat sz" "unat hint + unat sz < 2 ^ 32"
  shows "m = don @ rest \<Longrightarrow> walk_ok U m (unat sz) (unat hint) don gs best \<Longrightarrow>
    (case nearest_loop hint sz rest gs best of (gs', best') \<Rightarrow> walk_ok U m (unat sz) (unat hint) m gs' best')"
proof (induction rest arbitrary: don gs best)
  case (Cons p rest)
  obtain k r where p: "p = (k, r)" by force
  show ?case
    using Cons.IH [of "don @ [(k, r)]"] walk_step [OF inv _ req, of don k r rest gs best] Cons.prems
    by (simp add: p)
qed simp

lemma find_nearest_free_space_spec:
  assumes inv: "mm_inv U m"
    and req: "is_page_aligned hint" "is_page_aligned sz" "0 < unat sz" "unat hint + unat sz < 2 ^ 32"
  shows "case find_nearest_free_space U m hint sz of
      None \<Rightarrow> \<not> (\<exists>x. candidate U m (unat sz) x)
    | Some a \<Rightarrow> candidate U m (unat sz) (unat a) \<and>
        (\<forall>x. candidate U m (unat sz) x \<longrightarrow> apart (unat hint) (unat a) \<le> apart (unat hint) x)"
proof -
  obtain gs best where loop: "nearest_loop hint sz m 0x1000 (None, 0xffffffff) = (gs, best)"
    by (metis surj_pair)
  have "walk_ok U m (unat sz) (unat hint) [] 0x1000 (None, 0xffffffff)"
    by (auto simp: walk_ok_def best_ok_def candidate_def is_page_aligned_def)
  then have walk: "walk_ok U m (unat sz) (unat hint) m gs best"
    using nearest_loop_walk [OF inv req, of "[]" m "0x1000" "(None, 0xffffffff)"] loop by simp
  define best' where "best' = consider_gap hint sz gs U best"
  have U: "is_page_aligned U" using inv by (simp add: mm_inv_def)
  have sides: "k = mr_address r \<and> (mr_end r \<le> unat gs \<or> unat U \<le> unat k)" if "(k, r) \<in> set m" for k r
    using that walk mm_inv_region [OF inv that] by (auto simp: walk_ok_def region_ok_def)
  have g: "is_page_aligned gs" "4096 \<le> unat gs" "best_ok U m (unat sz) (unat hint) best"
      "\<And>x. candidate U m (unat sz) x \<Longrightarrow> x < unat gs \<Longrightarrow> unat (snd best) \<le> apart (unat hint) x"
    using walk by (auto simp: walk_ok_def)
  have b': "best_ok U m (unat sz) (unat hint) best'"
    and best: "\<And>x. candidate U m (unat sz) x \<Longrightarrow> x + unat sz \<le> unat U \<Longrightarrow>
        unat (snd best') \<le> apart (unat hint) x"
    using consider_gap_inv [OF req(1) g(1) U req(2-4) g(2) order.refl sides g(3,4)]
    by (auto simp: best'_def)
  have far: "apart (unat hint) x < 0xffffffff" if "candidate U m (unat sz) x" for x
    using that unat_U_bound [OF U] unat_U_bound [OF req(1)]
    by (auto simp: candidate_def apart_def dest!: free_at_bound)
  show ?thesis
  proof (cases "fst best'")
    case None
    then have "unat (snd best') = 0xffffffff"
      using b' by (simp add: best_ok_def)
    then have "\<not> candidate U m (unat sz) x" for x
      using best [of x] far [of x] candidate_bound [of U m "unat sz" x] by force
    then show ?thesis
      using None loop by (simp add: find_nearest_free_space_def best'_def)
  next
    case (Some a)
    then show ?thesis
      using b' best [OF _ candidate_bound] loop
      by (auto simp: find_nearest_free_space_def best'_def best_ok_def)
  qed
qed

section \<open>Mapping keeps the invariant\<close>

lemma page_up_add: "a mod 4096 = 0 \<Longrightarrow> page_up (a + n) = a + page_up n"
  using mod_less_divisor [of 4096 n] by (auto simp: page_up_cases mod_add_left_eq [of a, symmetric])

lemma unat_round_size: "unat n \<le> 0xfffff000 \<Longrightarrow> unat (round_size n) = page_up (unat n)"
proof -
  assume "unat n \<le> 0xfffff000"
  then have sum: "unat (n + 0xfff) = unat n + 4095"
    by (simp add: unat_add_small)
  have "unat (round_size n) = (unat n + 4095) - (unat n + 4095) mod 4096"
    by (simp only: round_size_def unat_page_frame sum)
  then show ?thesis
    by (simp only: page_up_def minus_mod_eq_div_mult)
qed

lemma round_size_ok:
  assumes "0 < unat n" "unat n \<le> 0xfffff000"
  shows "is_page_aligned (round_size n)" "0 < unat (round_size n)"
  using assms page_up_ge [of "unat n"] by (simp_all add: is_page_aligned_iff unat_round_size)

abbreviation new_region :: "virt_addr \<Rightarrow> u32 \<Rightarrow> memory_backing \<Rightarrow> mem_mapped_region" where
  "new_region a n b \<equiv> \<lparr>mr_address = a, mr_size = n, mr_backed_by = b\<rparr>"

lemma insert_inv:
  assumes "mm_inv U m" "0 < unat n" "free_at (unat U) m (page_up (unat n)) (unat a)"
  shows "mm_inv U (bt_insert a (new_region a n b) m)" "bt_get a m = None"
proof -
  have al: "unat a mod 4096 = 0" and fit: "unat a + page_up (unat n) \<le> unat U"
    using free_at_bound [OF assms(3)] by auto
  have span: "mr_span (new_region a n b) = {unat a..<unat a + page_up (unat n)}"
    by (simp add: mr_span_def mr_end_def page_up_add al)
  then have dis: "mr_span (new_region a n b) \<inter> mr_span r = {}" if "(k, r) \<in> set m" for k r
    using free_atD [OF assms(3) that] by simp
  have "region_ok U a (new_region a n b)"
    using al fit assms(2) page_up_ge [of "unat n"] by (simp add: region_ok_def is_page_aligned_iff)
  moreover have "spans_disjoint (bt_insert a (new_region a n b) m)"
    using assms(1) dis by (intro spans_disjoint_insert) (auto simp: mm_inv_def)
  ultimately show "mm_inv U (bt_insert a (new_region a n b) m)"
    using assms(1) by (auto simp: mm_inv_def)
  show "bt_get a m = None"
  proof (rule ccontr)
    assume "bt_get a m \<noteq> None"
    then obtain r where r: "(a, r) \<in> set m"
      using assms(1) by (auto simp: bt_get_iff mm_inv_def)
    have "unat a \<in> mr_span (new_region a n b)"
      using assms(2) page_up_ge [of "unat n"] by (simp add: span)
    then show False
      using dis [OF r] region_start_in_span [OF mm_inv_region [OF assms(1) r]] by blast
  qed
qed

text \<open>The overlap test is right as long as the two lengths do not add up to the whole address space.\<close>

lemma ranges_overlap_iff:
  assumes "unat s1 < unat e1" "unat s2 < unat e2" "(unat e1 - unat s1) + (unat e2 - unat s2) < 2 ^ 32"
  shows "ranges_overlap (s1, e1) (s2, e2) \<longleftrightarrow> unat s1 < unat e2 \<and> unat s2 < unat e1"
proof -
  have "unat (addr_sub e1 s1 + addr_sub e2 s2) = (unat e1 - unat s1) + (unat e2 - unat s2)"
    using assms(3) by (simp add: unat_add_small)
  moreover have "unat (max e1 e2) = max (unat e1) (unat e2)" "unat (min s1 s2) = min (unat s1) (unat s2)"
    by (auto simp: max_def min_def word_le_nat_alt)
  ultimately have "ranges_overlap (s1, e1) (s2, e2) \<longleftrightarrow>
      max (unat e1) (unat e2) - min (unat s1) (unat s2) < (unat e1 - unat s1) + (unat e2 - unat s2)"
    by (simp add: ranges_overlap_def Let_def word_less_nat_alt)
  then show ?thesis
    using assms(1,2) by (auto simp: max_def min_def)
qed

lemma can_fit_range_iff:
  assumes inv: "mm_inv U m" and al: "is_page_aligned h" "is_page_aligned rs" "0 < unat rs"
    and fit: "unat h + unat rs \<le> unat U" "unat U + unat rs < 2 ^ 32"
  shows "can_fit_range m (h, addr_add h rs) \<longleftrightarrow> free_at (unat U) m (unat rs) (unat h)"
proof -
  have U: "is_page_aligned U" using inv by (simp add: mm_inv_def)
  have e: "unat (addr_add h rs) = unat h + unat rs"
    using fit by (simp add: addr_add_def unat_add_small)
  have "\<not> ranges_overlap (get_address_range r) (h, addr_add h rs) \<longleftrightarrow>
      {unat h..<unat h + unat rs} \<inter> mr_span r = {}" if r: "(k, r) \<in> set m" for k r
  proof -
    note ok = mm_inv_region [OF inv r]
    have k: "mr_address r = k" "0 < unat (mr_size r)" "unat k mod 4096 = 0"
        "unat k + unat (mr_size r) \<le> unat U"
      using ok by (auto simp: region_ok_def is_page_aligned_iff)
    let ?e = "unat k + unat (mr_size r)"
    have "ranges_overlap (get_address_range r) (h, addr_add h rs) \<longleftrightarrow>
        unat k < unat h + unat rs \<and> unat h < ?e"
      using ranges_overlap_iff [of k "addr_add k (mr_size r)" h "addr_add h rs"]
        region_end(1) [OF ok U] e k fit al(3) by (simp add: get_address_range_def)
    moreover have "unat h < ?e \<longleftrightarrow> unat h < page_up ?e"
      using page_up_ge [of ?e] page_up_less [of ?e] pages_apart [of "unat h" "page_up ?e"] al(1)
      by (auto simp: is_page_aligned_iff)
    moreover have "{unat h..<unat h + unat rs} \<inter> {unat k..<page_up ?e} = {} \<longleftrightarrow>
        unat h + unat rs \<le> unat k \<or> page_up ?e \<le> unat h"
      using interval_around [of "unat h" "unat rs" "unat k" "page_up ?e"] page_up_ge [of ?e] k al(3)
      by auto
    ultimately show ?thesis
      by (auto simp: mr_span_def mr_end_def k(1))
  qed
  moreover have "can_fit_range m (h, addr_add h rs) \<longleftrightarrow>
      (\<forall>k r. (k, r) \<in> set m \<longrightarrow> \<not> ranges_overlap (get_address_range r) (h, addr_add h rs))"
    by (auto simp: can_fit_range_def list_all_iff)
  ultimately have "can_fit_range m (h, addr_add h rs) \<longleftrightarrow>
      (\<forall>k r. (k, r) \<in> set m \<longrightarrow> {unat h..<unat h + unat rs} \<inter> mr_span r = {})"
    by blast
  also have "\<dots> \<longleftrightarrow> free_at (unat U) m (unat rs) (unat h)"
    using al(1) fit(1) free_atI [of "unat h" "unat rs" "unat U" m] free_atD [of "unat U" m "unat rs" "unat h"]
    by (auto simp only: is_page_aligned_iff)
  finally show ?thesis .
qed

text \<open>
  (C8) Mapping without an address: whenever some page-aligned gap of the rounded size exists below the
  bound, \<open>map_memory\<close> succeeds, places the region on pages no other region uses, below the bound, adds
  exactly this region and keeps all regions page-disjoint.
\<close>

theorem map_memory_anywhere:
  assumes "mm_inv U m" "0 < n" "unat n \<le> unat U" "free_at (unat U) m (page_up (unat n)) x"
  shows "\<exists>a. map_memory U m None n b = Inr (a, bt_insert a (new_region a n b) m) \<and>
    free_at (unat U) m (page_up (unat n)) (unat a) \<and> bt_get a m = None \<and>
    mm_inv U (bt_insert a (new_region a n b) m)"
proof -
  have U: "unat U \<le> 0xfffff000" using assms(1) unat_U_bound by (simp add: mm_inv_def)
  have n: "0 < unat n" "unat n \<le> 0xfffff000" "n \<noteq> 0"
    using assms(2,3) U by (auto simp: unat_gt_0)
  note rs = round_size_ok [OF n(1,2)] unat_round_size [OF n(2)]
  obtain a where a: "find_free_mapping_space U m (round_size n) = Some a"
      "free_at (unat U) m (page_up (unat n)) (unat a)"
    using find_free_mapping_space_spec [OF assms(1) rs(1,2)] assms(4) rs(3) by auto
  then show ?thesis
    using insert_inv [OF assms(1) n(1) a(2)] n(3)
    by (simp add: map_memory_def insert_region_def Let_def)
qed

definition example_memory :: mapped_memory where
  "example_memory =
     [(0x4000, new_region 0x4000 0x1000 FreeMemory), (0x6000, new_region 0x6000 0x1800 (Direct 0xb8000))]"

lemma example_memory_inv: "mm_inv 0xc0000000 example_memory"
  by (auto simp: mm_inv_def example_memory_def bt_wf_def region_ok_def is_page_aligned_def
      spans_disjoint_def mr_span_def mr_end_def page_up_def)

theorem map_memory_anywhere_witness:
  "\<exists>a. map_memory 0xc0000000 example_memory None 0x2400 IsaDma =
     Inr (a, bt_insert a (new_region a 0x2400 IsaDma) example_memory) \<and>
   mm_inv 0xc0000000 (bt_insert a (new_region a 0x2400 IsaDma) example_memory)"
proof -
  have "free_at (unat (0xc0000000 :: u32)) example_memory (page_up (unat (0x2400 :: u32))) 0x8000"
    by (auto simp: free_at_def example_memory_def page_up_def mr_span_def mr_end_def)
  then show ?thesis
    using map_memory_anywhere [OF example_memory_inv, of "0x2400" "0x8000" IsaDma] by auto
qed

text \<open>
  (C26) Mapping at a page-aligned hint whose range ends below the bound: the region goes exactly there if
  those pages are free; otherwise it goes to the free place nearest to the hint, above the null page;
  \<open>NotEnoughMemory\<close> is returned exactly if there is no such place. The regions stay page-disjoint.
\<close>

theorem map_memory_at_hint:
  assumes "mm_inv U m" "0 < n" "is_page_aligned hint"
    and "unat hint + page_up (unat n) \<le> unat U" "unat U + page_up (unat n) < 2 ^ 32"
  shows "case map_memory U m (Some hint) n b of
      Inr (a, m') \<Rightarrow> m' = bt_insert a (new_region a n b) m \<and> mm_inv U m' \<and> bt_get a m = None \<and>
        free_at (unat U) m (page_up (unat n)) (unat a) \<and>
        (if free_at (unat U) m (page_up (unat n)) (unat hint) then a = hint
         else candidate U m (page_up (unat n)) (unat a) \<and>
           (\<forall>x. candidate U m (page_up (unat n)) x \<longrightarrow> apart (unat hint) (unat a) \<le> apart (unat hint) x))
    | Inl e \<Rightarrow> e = NotEnoughMemory \<and> \<not> (\<exists>x. candidate U m (page_up (unat n)) x)"
proof -
  have n: "0 < unat n" "unat n \<le> 0xfffff000" "n \<noteq> 0"
    using assms(2,4) page_up_ge [of "unat n"] unat_U_bound [of U] assms(1)
    by (auto simp: unat_gt_0 mm_inv_def)
  note rs = round_size_ok [OF n(1,2)] unat_round_size [OF n(2)]
  define loc where "loc = (if can_fit_range m (hint, addr_add hint (round_size n)) then Some hint
      else find_nearest_free_space U m hint (round_size n))"
  have res: "map_memory U m (Some hint) n b = insert_region m loc n b"
    using n(3) assms(3) by (simp add: map_memory_def loc_def Let_def)
  have fit: "can_fit_range m (hint, addr_add hint (round_size n)) \<longleftrightarrow>
      free_at (unat U) m (page_up (unat n)) (unat hint)"
    using can_fit_range_iff [OF assms(1,3) rs(1,2)] assms(4,5) rs(3) by simp
  have wrap: "unat hint + unat (round_size n) < 2 ^ 32"
    using assms(4,5) rs(3) by simp
  note near = find_nearest_free_space_spec [OF assms(1,3) rs(1,2) wrap, unfolded rs(3)]
  show ?thesis
  proof (cases loc)
    case None
    then show ?thesis
      using near by (auto simp: res insert_region_def loc_def split: if_splits)
  next
    case (Some a)
    have free: "free_at (unat U) m (page_up (unat n)) (unat a)"
      using Some near fit by (auto simp: loc_def candidate_def split: if_splits)
    show ?thesis
      using Some near fit free insert_inv [OF assms(1) n(1) free]
      by (auto simp: res insert_region_def loc_def split: if_splits)
  qed
qed

theorem map_memory_at_hint_witness:
  "map_memory 0xc0000000 example_memory (Some 0x5000) 0x2000 FreeMemory =
     Inr (0x8000, bt_insert 0x8000 (new_region 0x8000 0x2000 FreeMemory) example_memory) \<and>
   mm_inv 0xc0000000 (bt_insert 0x8000 (new_region 0x8000 0x2000 FreeMemory) example_memory)"
proof -
  have "map_memory 0xc0000000 example_memory (Some 0x5000) 0x2000 FreeMemory =
      Inr (0x8000, bt_insert 0x8000 (new_region 0x8000 0x2000 FreeMemory) example_memory)"
    by code_simp
  then show ?thesis
    using map_memory_at_hint [OF example_memory_inv, of "0x2000" "0x5000" FreeMemory]
    by (simp add: is_page_aligned_def page_up_def)
qed

section \<open>Unmapping\<close>

lemma mm_inv_remove: "mm_inv U m \<Longrightarrow> mm_inv U (bt_remove k m)"
  by (auto simp: mm_inv_def intro: spans_disjoint_subset)

lemma mm_inv_insert:
  assumes "mm_inv U m" "region_ok U a x" "\<And>k r. (k, r) \<in> set m \<Longrightarrow> k \<noteq> a \<Longrightarrow> mr_span x \<inter> mr_span r = {}"
  shows "mm_inv U (bt_insert a x m)"
  using assms by (auto simp: mm_inv_def intro: spans_disjoint_insert)

definition touches :: "virt_addr \<Rightarrow> virt_addr \<Rightarrow> mem_mapped_region \<Rightarrow> bool" where
  "touches addr e r \<longleftrightarrow> mr_address r < e \<and> addr < addr_add (mr_address r) (mr_size r)"

definition piece_before :: "virt_addr \<Rightarrow> mem_mapped_region \<Rightarrow> mem_mapped_region" where
  "piece_before addr r = new_region (mr_address r) (addr_sub addr (mr_address r)) (mr_backed_by r)"

definition piece_after :: "virt_addr \<Rightarrow> mem_mapped_region \<Rightarrow> mem_mapped_region" where
  "piece_after e r =
     new_region e (addr_sub (addr_add (mr_address r) (mr_size r)) e) (mr_backed_by r)"

definition pieces :: "virt_addr \<Rightarrow> virt_addr \<Rightarrow> mem_mapped_region \<Rightarrow> (virt_addr \<times> mem_mapped_region) set" where
  "pieces addr e r =
     (if mr_address r < addr then {(mr_address r, piece_before addr r)} else {}) \<union>
     (if e < addr_add (mr_address r) (mr_size r) then {(e, piece_after e r)} else {})"

definition cut_out :: "virt_addr \<Rightarrow> virt_addr \<Rightarrow> mem_mapped_region \<Rightarrow> unmapped_region list" where
  "cut_out addr e r =
     (let s = max (mr_address r) addr;
          n = addr_sub (min (addr_add (mr_address r) (mr_size r)) e) s
      in if n > 0 then [\<lparr>ur_address = s, ur_size = n,
           ur_kind = unmapped_kind (mr_backed_by r) (addr_sub s (mr_address r))\<rparr>] else [])"

text \<open>A page-aligned range \<open>[addr, e)\<close> below the bound.\<close>

definition unmap_range :: "u32 \<Rightarrow> virt_addr \<Rightarrow> virt_addr \<Rightarrow> bool" where
  "unmap_range U addr e \<longleftrightarrow>
     is_page_aligned U \<and> is_page_aligned addr \<and> is_page_aligned e \<and> addr \<le> e \<and> e \<le> U"

lemma region_cut_facts:
  assumes "unmap_range U addr e" "region_ok U k r" "touches addr e r"
  shows "mr_address r = k" "unat (addr_add k (mr_size r)) = unat k + unat (mr_size r)"
    "unat k < unat e" "unat addr < unat k + unat (mr_size r)" "unat addr \<le> unat e" "unat e \<le> unat U"
    "unat k + unat (mr_size r) \<le> unat U"
    "unat k mod 4096 = 0" "unat addr mod 4096 = 0" "unat e mod 4096 = 0"
proof -
  have k: "mr_address r = k" using assms(2) by (simp add: region_ok_def)
  then show "mr_address r = k" .
  show "unat (addr_add k (mr_size r)) = unat k + unat (mr_size r)"
    using region_end(1) [OF assms(2)] assms(1) k by (simp add: unmap_range_def)
  then show "unat addr < unat k + unat (mr_size r)" "unat k < unat e"
    using assms(3) k by (auto simp: touches_def word_less_nat_alt)
qed (use assms in \<open>auto simp: unmap_range_def region_ok_def word_le_nat_alt is_page_aligned_iff\<close>)

lemma piece_before_ok:
  assumes "unmap_range U addr e" "region_ok U k r" "touches addr e r" "k < addr"
  shows "region_ok U k (piece_before addr r)" "mr_span (piece_before addr r) = {unat k..<unat addr}"
    "mr_bytes (piece_before addr r) = {unat k..<unat addr}"
  using region_cut_facts [OF assms(1-3)] assms(4)
  by (auto simp: piece_before_def region_ok_def mr_span_def mr_bytes_def mr_end_def page_up_id
      is_page_aligned_iff word_less_nat_alt)

lemma piece_after_ok:
  assumes "unmap_range U addr e" "region_ok U k r" "touches addr e r" "e < addr_add k (mr_size r)"
  shows "region_ok U e (piece_after e r)" "mr_span (piece_after e r) = {unat e..<mr_end r}"
    "mr_bytes (piece_after e r) = {unat e..<unat k + unat (mr_size r)}"
  using region_cut_facts [OF assms(1-3)] assms(4)
  by (auto simp: piece_after_def region_ok_def mr_span_def mr_bytes_def mr_end_def
      is_page_aligned_iff word_less_nat_alt)

lemma piece_span_subset:
  assumes "unmap_range U addr e" "region_ok U k r" "touches addr e r" "(j, q) \<in> pieces addr e r"
  shows "region_ok U j q" "mr_span q \<subseteq> mr_span r" "mr_backed_by q = mr_backed_by r"
proof -
  note f = region_cut_facts [OF assms(1-3)]
  have "unat addr \<le> mr_end r"
    using f page_up_ge [of "unat k + unat (mr_size r)"] by (simp add: mr_end_def)
  moreover have "mr_span r = {unat k..<mr_end r}" by (simp add: mr_span_def f(1))
  moreover consider "j = k" "q = piece_before addr r" "k < addr"
    | "j = e" "q = piece_after e r" "e < addr_add k (mr_size r)"
    using assms(4) f(1) by (auto simp: pieces_def split: if_splits)
  then have "region_ok U j q \<and> (mr_span q = {unat k..<unat addr} \<or> mr_span q = {unat e..<mr_end r}) \<and>
      mr_backed_by q = mr_backed_by r"
    using piece_before_ok [OF assms(1-3)] piece_after_ok [OF assms(1-3)]
    by cases (auto simp: piece_before_def piece_after_def)
  ultimately show "region_ok U j q" "mr_span q \<subseteq> mr_span r" "mr_backed_by q = mr_backed_by r"
    using f(3) by auto
qed

lemma unmap_region_spec:
  assumes inv: "mm_inv U m" and rng: "unmap_range U addr e" and kr: "(k, r) \<in> set m" and t: "touches addr e r"
  shows "\<exists>m'. unmap_region addr e k m = Some (cut_out addr e r, m') \<and> mm_inv U m' \<and>
    set m' = (set m - {(k, r)}) \<union> pieces addr e r"
proof -
  note ok = mm_inv_region [OF inv kr]
  note f = region_cut_facts [OF rng ok t]
  let ?fin = "addr_add k (mr_size r)"
  define m1 where "m1 = bt_remove k m"
  define m2 where "m2 = (if k < addr then bt_insert k (piece_before addr r) m1 else m1)"
  define m3 where "m3 = (if e < ?fin then bt_insert e (piece_after e r) m2 else m2)"
  have wf: "bt_wf m" using inv by (simp add: mm_inv_def)
  have get: "bt_get k m = Some r" using wf kr by (simp add: bt_get_iff)
  have m1: "set m1 = set m - {(k, r)}"
    by (auto simp: m1_def dest: bt_unique [OF wf kr])
  have other: "mr_span r \<inter> mr_span q = {}" "j \<noteq> k" if "(j, q) \<in> set m1" for j q
    using that kr inv spans_disjointD [of m k r j q] by (auto simp: m1_def mm_inv_def)
  have m2_set: "set m2 = (set m - {(k, r)}) \<union> (if k < addr then {(k, piece_before addr r)} else {})"
  proof -
    have "{p \<in> set m1. fst p \<noteq> k} = set m1" by (auto simp: m1_def)
    then show ?thesis by (simp add: m2_def m1)
  qed
  have inv2: "mm_inv U m2"
  proof (cases "k < addr")
    case True
    then have sub: "mr_span (piece_before addr r) \<subseteq> mr_span r"
      using piece_span_subset(2) [OF rng ok t, of k "piece_before addr r"] f(1) by (simp add: pieces_def)
    have "mm_inv U (bt_insert k (piece_before addr r) m1)"
    proof (rule mm_inv_insert)
      show "mm_inv U m1" unfolding m1_def by (rule mm_inv_remove [OF inv])
      show "mr_span (piece_before addr r) \<inter> mr_span q = {}" if "(j, q) \<in> set m1" for j q
        using sub other(1) [OF that] by blast
    qed (rule piece_before_ok(1) [OF rng ok t True])
    then show ?thesis using True by (simp add: m2_def)
  next
    case False
    then show ?thesis using mm_inv_remove [OF inv, of k] by (simp add: m2_def m1_def)
  qed
  have after: "set m3 = (set m - {(k, r)}) \<union> pieces addr e r \<and> mm_inv U m3"
  proof (cases "e < ?fin")
    case True
    have m2: "(j, q) \<in> set m1 \<or> j = k \<and> mr_span q = {unat k..<unat addr}" if "(j, q) \<in> set m2" for j q
      using that piece_before_ok(2) [OF rng ok t] by (auto simp: m2_def split: if_splits)
    have sub: "mr_span (piece_after e r) \<subseteq> mr_span r"
      using piece_span_subset(2) [OF rng ok t, of e "piece_after e r"] True f(1) by (simp add: pieces_def)
    have span: "mr_span (piece_after e r) = {unat e..<mr_end r}"
      using piece_after_ok(2) [OF rng ok t True] .
    have in_r: "unat e \<in> mr_span r"
      using True f page_up_ge [of "unat k + unat (mr_size r)"]
      by (auto simp: mr_span_def mr_end_def word_less_nat_alt)
    have no_e: "j \<noteq> e" if "(j, q) \<in> set m2" for j q
    proof
      assume "j = e"
      then have "(j, q) \<in> set m1" using m2 [OF that] f(3) by auto
      moreover have "unat j \<in> mr_span q"
        using calculation m1 by (intro region_start_in_span [OF mm_inv_region [OF inv]]) auto
      ultimately show False
        using other(1) in_r \<open>j = e\<close> by blast
    qed
    have dis: "mr_span (piece_after e r) \<inter> mr_span q = {}" if "(j, q) \<in> set m2" for j q
      using m2 [OF that]
    proof
      assume "(j, q) \<in> set m1"
      then show ?thesis using sub other(1) [of j q] by blast
    qed (use span f(5) in auto)
    have "mm_inv U (bt_insert e (piece_after e r) m2)"
      by (rule mm_inv_insert [OF inv2 piece_after_ok(1) [OF rng ok t True] dis])
    moreover have "{p \<in> set m2. fst p \<noteq> e} = set m2" using no_e by force
    then have "set m3 = insert (e, piece_after e r) (set m2)" using True by (simp add: m3_def)
    ultimately show ?thesis
      using True m2_set f(1) by (simp add: m3_def pieces_def)
  next
    case False
    then show ?thesis
      using inv2 m2_set f(1) by (simp add: m3_def pieces_def)
  qed
  have "max k addr \<le> min ?fin e"
    using f by (simp add: word_le_nat_alt max_def min_def)
  then have "unmap_region addr e k m = Some (cut_out addr e r, m3)"
    by (simp add: unmap_region_def get get_address_range_def f(1) m1_def [symmetric] Let_def cut_out_def
        piece_before_def piece_after_def m2_def m3_def)
  with after show ?thesis by blast
qed

lemma pieces_untouched:
  assumes "unmap_range U addr e" "region_ok U k r" "touches addr e r" "(j, q) \<in> pieces addr e r"
  shows "\<not> touches addr e q"
proof -
  note f = region_cut_facts [OF assms(1-3)]
  consider "q = piece_before addr r" "k < addr" | "q = piece_after e r"
    using assms(4) f(1) by (auto simp: pieces_def split: if_splits)
  then show ?thesis
  proof cases
    case 1
    have "unat (addr_add (mr_address q) (mr_size q)) = unat addr"
      using region_end(1) [OF piece_before_ok(1) [OF assms(1-3) 1(2)]] assms(1) f(1) 1
      by (simp add: unmap_range_def piece_before_def word_less_nat_alt)
    then show ?thesis by (simp add: touches_def word_less_nat_alt)
  next
    case 2
    then show ?thesis by (simp add: touches_def piece_after_def)
  qed
qed

lemma unmap_loop_spec:
  assumes rng: "unmap_range U addr e"
  shows "mm_inv U m \<Longrightarrow> set ps \<subseteq> set m \<Longrightarrow> distinct (map fst ps) \<Longrightarrow> \<forall>(k, r) \<in> set ps. touches addr e r \<Longrightarrow>
    \<exists>m'. unmap_loop addr e (map fst ps) m = Some (concat (map (\<lambda>p. cut_out addr e (snd p)) ps), m') \<and> mm_inv U m' \<and>
      set m' = (set m - set ps) \<union> (\<Union>(k, r) \<in> set ps. pieces addr e r)"
proof (induction ps arbitrary: m)
  case (Cons p ps)
  obtain k r where p: "p = (k, r)" by (cases p)
  obtain m1 where m1: "unmap_region addr e k m = Some (cut_out addr e r, m1)" "mm_inv U m1"
      "set m1 = (set m - {(k, r)}) \<union> pieces addr e r"
    using unmap_region_spec [OF Cons.prems(1) rng, of k r] Cons.prems by (auto simp: p)
  have notin: "(k, r) \<notin> set ps" using Cons.prems(3) by (force simp: p)
  then have sub: "set ps \<subseteq> set m1" using Cons.prems(2) by (auto simp: p m1(3))
  have disj: "pieces addr e r \<inter> set ps = {}"
  proof -
    have "region_ok U k r" "touches addr e r"
      using mm_inv_region [OF Cons.prems(1)] Cons.prems(2,4) by (auto simp: p)
    then show ?thesis
      using pieces_untouched [OF rng] Cons.prems(4) by fastforce
  qed
  obtain m' where m': "unmap_loop addr e (map fst ps) m1 = Some (concat (map (\<lambda>p. cut_out addr e (snd p)) ps), m')"
      "mm_inv U m'" "set m' = (set m1 - set ps) \<union> (\<Union>(k, r) \<in> set ps. pieces addr e r)"
    using Cons.IH [OF m1(2) sub] Cons.prems by (auto simp: p)
  have "set m' = (set m - set (p # ps)) \<union> (\<Union>(k, r) \<in> set (p # ps). pieces addr e r)"
    using m'(3) m1(3) disj by (auto simp: p)
  then show ?case
    using m1(1) m'(1,2) by (simp add: p)
qed simp

lemma keys_to_modify_eq:
  "bt_wf m \<Longrightarrow> \<forall>(k, r) \<in> set m. k = mr_address r \<Longrightarrow>
   keys_to_modify addr e m = map fst (filter (\<lambda>p. touches addr e (snd p)) m)"
proof (induction m rule: keys_to_modify.induct)
  case (2 addr e k r rest)
  have IH: "keys_to_modify addr e rest = map fst (filter (\<lambda>p. touches addr e (snd p)) rest)"
    if "\<not> e \<le> k" "\<not> addr_add k (mr_size r) \<le> addr \<or> addr_add k (mr_size r) \<le> addr"
    using 2 that by (cases "addr_add k (mr_size r) \<le> addr") (auto simp: get_address_range_def bt_wf_Cons)
  have "\<not> touches addr e q" if "e \<le> k" "(j, q) \<in> set rest" for j q
    using that "2.prems" by (fastforce simp: touches_def bt_wf_Cons)
  then have "e \<le> k \<Longrightarrow> filter (\<lambda>p. touches addr e (snd p)) rest = []"
    by (force simp: filter_empty_conv)
  then show ?case
    using IH "2.prems"(2) by (auto simp: get_address_range_def touches_def)
qed simp

lemma initial_key_None: "initial_key m addr = None \<Longrightarrow> m = []"
  by (cases m) (auto simp: initial_key_def split: list.splits if_splits)

lemma initial_key_first:
  assumes inv: "mm_inv U m" and "initial_key m addr = Some k0" "(k, r) \<in> set m" "touches addr e r"
  shows "k0 \<le> k"
proof (cases "rev (filter (\<lambda>(k, _). k \<le> addr) m)")
  case Nil
  then have all: "\<forall>(j, q) \<in> set m. addr < j"
    by (auto simp: filter_empty_conv)
  then have "filter (\<lambda>(j, _). addr \<le> j) m = m"
    by (auto simp: filter_id_conv)
  then obtain q rest where "m = (k0, q) # rest"
    using assms(2) Nil by (auto simp: initial_key_def split: list.splits)
  then show ?thesis
    using inv assms(3) by (force simp: mm_inv_def bt_wf_Cons)
next
  case (Cons p rest)
  then have f: "filter (\<lambda>(k, _). k \<le> addr) m = rev rest @ [p]"
    by (simp add: rev_eq_Cons_iff)
  have k0: "fst p = k0" using assms(2) Cons by (auto simp: initial_key_def split: prod.splits)
  have p: "p \<in> set m" "k0 \<le> addr"
  proof -
    have "p \<in> set (filter (\<lambda>(k, _). k \<le> addr) m)" by (simp add: f)
    then show "p \<in> set m" "k0 \<le> addr" using k0 by auto
  qed
  show ?thesis
  proof (rule ccontr)
    assume "\<not> k0 \<le> k"
    then have "k < k0" by simp
    then have "mr_end r \<le> unat k0"
      using mm_inv_ordered [OF inv assms(3), of k0 "snd p"] p k0 by auto
    moreover have "unat addr < mr_end r"
      using assms(4) region_end(1) [OF mm_inv_region [OF inv assms(3)]] inv
        page_up_ge [of "unat (mr_address r) + unat (mr_size r)"]
      by (auto simp: touches_def word_less_nat_alt mr_end_def mm_inv_def)
    ultimately show False
      using p(2) by (simp add: word_le_nat_alt)
  qed
qed

definition mapped_bytes :: "mapped_memory \<Rightarrow> nat set" where
  "mapped_bytes m = (\<Union>(k, r) \<in> set m. mr_bytes r)"

definition ur_bytes :: "unmapped_region \<Rightarrow> nat set" where
  "ur_bytes u = {unat (ur_address u)..<unat (ur_address u) + unat (ur_size u)}"

lemma unmap_memory_set:
  assumes inv: "mm_inv U m" and al: "is_page_aligned addr" "len AND 0xfff = 0"
    and fit: "addr < U" "unat addr + unat len \<le> unat U"
  shows "unmap_range U addr (addr + len)" (is ?rng)
    and "\<exists>m'. unmap_memory U m addr len =
        Some (Inr (concat (map (\<lambda>p. cut_out addr (addr + len) (snd p))
          (filter (\<lambda>p. touches addr (addr + len) (snd p)) m)), m')) \<and>
      mm_inv U m' \<and>
      set m' = {p \<in> set m. \<not> touches addr (addr + len) (snd p)} \<union>
        (\<Union>p \<in> {p \<in> set m. touches addr (addr + len) (snd p)}. pieces addr (addr + len) (snd p))"
proof -
  let ?e = "addr + len"
  let ?ps = "filter (\<lambda>p. touches addr ?e (snd p)) m"
  have sum: "unat ?e = unat addr + unat len"
    using le_less_trans [OF fit(2) unat_less_max32] by (simp add: unat_add_small)
  have U: "is_page_aligned U" using inv by (simp add: mm_inv_def)
  show rng: ?rng
    using U al fit sum by (simp add: unmap_range_def is_page_aligned_iff page_offset_0 word_le_nat_alt
        mod_add_eq [symmetric])
  have ps: "set ?ps \<subseteq> set m" "distinct (map fst ?ps)" "\<forall>(k, r) \<in> set ?ps. touches addr ?e r"
    using inv bt_wf_distinct bt_wf_filter by (auto simp: mm_inv_def)
  obtain m' where loop: "unmap_loop addr ?e (map fst ?ps) m =
        Some (concat (map (\<lambda>p. cut_out addr ?e (snd p)) ?ps), m')" "mm_inv U m'"
      "set m' = (set m - set ?ps) \<union> (\<Union>(k, r) \<in> set ?ps. pieces addr ?e r)"
    using unmap_loop_spec [OF rng inv ps] by blast
  have res: "unmap_memory U m addr len = Some (Inr (concat (map (\<lambda>p. cut_out addr ?e (snd p)) ?ps), m'))"
  proof (cases "initial_key m addr")
    case None
    then show ?thesis
      using initial_key_None [OF None] loop al fit sum
      by (auto simp: unmap_memory_def word_less_nat_alt word_le_nat_alt addr_add_def Let_def)
  next
    case (Some k0)
    have "filter (\<lambda>p. touches addr ?e (snd p)) (filter (\<lambda>(k, _). k0 \<le> k) m) = ?ps"
      using initial_key_first [OF inv Some] by (auto simp: filter_filter intro!: filter_cong)
    moreover have "keys_to_modify addr ?e (filter (\<lambda>(k, _). k0 \<le> k) m) =
        map fst (filter (\<lambda>p. touches addr ?e (snd p)) (filter (\<lambda>(k, _). k0 \<le> k) m))"
      using inv by (intro keys_to_modify_eq) (auto simp: mm_inv_def bt_wf_filter region_ok_def)
    ultimately show ?thesis
      using Some loop(1) al fit sum
      by (auto simp: unmap_memory_def word_less_nat_alt word_le_nat_alt addr_add_def Let_def)
  qed
  show "\<exists>m'. unmap_memory U m addr len =
        Some (Inr (concat (map (\<lambda>p. cut_out addr (addr + len) (snd p)) ?ps), m')) \<and> mm_inv U m' \<and>
      set m' = {p \<in> set m. \<not> touches addr (addr + len) (snd p)} \<union>
        (\<Union>p \<in> {p \<in> set m. touches addr (addr + len) (snd p)}. pieces addr (addr + len) (snd p))"
  proof -
    have "set m - set ?ps = {p \<in> set m. \<not> touches addr ?e (snd p)}" by auto
    moreover have "(\<Union>(k, r) \<in> set ?ps. pieces addr ?e r) =
        (\<Union>p \<in> {p \<in> set m. touches addr ?e (snd p)}. pieces addr ?e (snd p))"
      by (simp add: case_prod_beta')
    ultimately have "set m' = {p \<in> set m. \<not> touches addr ?e (snd p)} \<union>
        (\<Union>p \<in> {p \<in> set m. touches addr ?e (snd p)}. pieces addr ?e (snd p))"
      by (simp only: loop(3))
    with res loop(2) show ?thesis by (intro exI [of _ m'] conjI)
  qed
qed

lemma cut_out_bytes:
  assumes "unmap_range U addr e" "region_ok U k r" "touches addr e r"
  shows "(\<Union>u \<in> set (cut_out addr e r). ur_bytes u) = mr_bytes r \<inter> {unat addr..<unat e}"
proof -
  note f = region_cut_facts [OF assms]
  define s where "s = max k addr"
  define n where "n = addr_sub (min (addr_add k (mr_size r)) e) s"
  have s: "unat s = max (unat k) (unat addr)"
    by (auto simp: s_def max_def word_le_nat_alt)
  have "unat (min (addr_add k (mr_size r)) e) = min (unat k + unat (mr_size r)) (unat e)"
    using f(2) by (auto simp: min_def word_le_nat_alt)
  then have n: "unat n = min (unat k + unat (mr_size r)) (unat e) - unat s"
    by (simp add: n_def)
  have "cut_out addr e r = (if 0 < n then [\<lparr>ur_address = s, ur_size = n,
      ur_kind = unmapped_kind (mr_backed_by r) (addr_sub s (mr_address r))\<rparr>] else [])"
    by (simp add: cut_out_def Let_def f(1) s_def n_def)
  then have "(\<Union>u \<in> set (cut_out addr e r). ur_bytes u) = {unat s..<unat s + unat n}"
    by (auto simp: ur_bytes_def word_gt_0)
  then show ?thesis
    using f by (auto simp: n s mr_bytes_def)
qed

lemma pieces_bytes:
  assumes "unmap_range U addr e" "region_ok U k r" "touches addr e r"
  shows "(\<Union>(j, q) \<in> pieces addr e r. mr_bytes q) = mr_bytes r - {unat addr..<unat e}"
proof -
  note f = region_cut_facts [OF assms]
  have "(\<Union>(j, q) \<in> pieces addr e r. mr_bytes q) =
      (if k < addr then {unat k..<unat addr} else {}) \<union>
      (if e < addr_add k (mr_size r) then {unat e..<unat k + unat (mr_size r)} else {})"
    using f(1) piece_before_ok(3) [OF assms] piece_after_ok(3) [OF assms]
    by (auto simp: pieces_def split: if_splits)
  then show ?thesis
    using f by (auto simp: mr_bytes_def word_less_nat_alt)
qed

lemma untouched_bytes:
  assumes "unmap_range U addr e" "region_ok U k r" "\<not> touches addr e r"
  shows "mr_bytes r \<inter> {unat addr..<unat e} = {}"
  using assms region_end(1) [OF assms(2)]
  by (auto simp: touches_def mr_bytes_def unmap_range_def word_less_nat_alt)

lemma touched_region_meets:
  assumes rng: "unmap_range U addr e" and ok: "region_ok U (fst p) (snd p)" and t: "touches addr e (snd p)"
    and "addr < e"
  shows "mr_bytes (snd p) \<inter> {unat addr..<unat e} \<noteq> {}"
proof -
  note f = region_cut_facts [OF rng ok t]
  then have "max (unat (fst p)) (unat addr) \<in> mr_bytes (snd p) \<inter> {unat addr..<unat e}"
    using assms(4) ok by (auto simp: mr_bytes_def word_less_nat_alt region_ok_def)
  then show ?thesis by blast
qed

lemma mapped_bytes_eq: "mapped_bytes n = (\<Union>p \<in> set n. mr_bytes (snd p))"
  by (simp add: mapped_bytes_def case_prod_beta')

text \<open>
  Regions, remaining pieces and removed pieces seen as sets of bytes. \<open>?N\<close> are the regions the range does
  not meet, \<open>?T\<close> the others.
\<close>

lemma unmap_bytes:
  assumes inv: "mm_inv U m" and rng: "unmap_range U addr e"
    and m': "set m' = {p \<in> set m. \<not> touches addr e (snd p)} \<union>
      (\<Union>p \<in> {p \<in> set m. touches addr e (snd p)}. pieces addr e (snd p))"
  shows "mapped_bytes m' = mapped_bytes m - {unat addr..<unat e}"
    "(\<Union>p \<in> {p \<in> set m. touches addr e (snd p)}. \<Union>u \<in> set (cut_out addr e (snd p)). ur_bytes u) =
      mapped_bytes m \<inter> {unat addr..<unat e}"
proof -
  let ?R = "{unat addr..<unat e}"
  let ?T = "{p \<in> set m. touches addr e (snd p)}" and ?N = "{p \<in> set m. \<not> touches addr e (snd p)}"
  have ok: "region_ok U (fst p) (snd p)" if "p \<in> set m" for p
    using mm_inv_region [OF inv] that by (metis prod.collapse)
  have N: "mr_bytes (snd p) - ?R = mr_bytes (snd p)" "mr_bytes (snd p) \<inter> ?R = {}" if "p \<in> ?N" for p
    using untouched_bytes [OF rng ok, of p] that by auto
  have T: "(\<Union>(j, q) \<in> pieces addr e (snd p). mr_bytes q) = mr_bytes (snd p) - ?R" if "p \<in> ?T" for p
    using pieces_bytes [OF rng ok, of p] that by auto
  have C: "(\<Union>u \<in> set (cut_out addr e (snd p)). ur_bytes u) = mr_bytes (snd p) \<inter> ?R" if "p \<in> ?T" for p
    using cut_out_bytes [OF rng ok, of p] that by auto
  have "mapped_bytes m' = (\<Union>p \<in> ?N. mr_bytes (snd p)) \<union> (\<Union>p \<in> ?T. mr_bytes (snd p) - ?R)"
    using T by (simp add: mapped_bytes_eq m' case_prod_beta')
  also have "\<dots> = mapped_bytes m - ?R"
    using N by (auto simp: mapped_bytes_eq)
  finally show "mapped_bytes m' = mapped_bytes m - ?R" .
  have "mapped_bytes m \<inter> ?R = (\<Union>p \<in> ?N. mr_bytes (snd p) \<inter> ?R) \<union> (\<Union>p \<in> ?T. mr_bytes (snd p) \<inter> ?R)"
    by (auto simp: mapped_bytes_eq)
  also have "(\<Union>p \<in> ?N. mr_bytes (snd p) \<inter> ?R) = {}" using N(2) by blast
  finally show "(\<Union>p \<in> ?T. \<Union>u \<in> set (cut_out addr e (snd p)). ur_bytes u) = mapped_bytes m \<inter> ?R"
    using C by simp
qed

lemma unmap_remaining:
  assumes inv: "mm_inv U m" and rng: "unmap_range U addr e" and "p \<in> set m'"
    and m': "set m' = {p \<in> set m. \<not> touches addr e (snd p)} \<union>
      (\<Union>p \<in> {p \<in> set m. touches addr e (snd p)}. pieces addr e (snd p))"
  shows "\<exists>q \<in> set m. mr_bytes (snd p) \<subseteq> mr_bytes (snd q) \<and> mr_backed_by (snd p) = mr_backed_by (snd q)"
proof -
  have ok: "region_ok U (fst q) (snd q)" if "q \<in> set m" for q
    using mm_inv_region [OF inv] that by (metis prod.collapse)
  consider "p \<in> set m" | q where "q \<in> set m" "touches addr e (snd q)" "p \<in> pieces addr e (snd q)"
    using assms(3) by (auto simp: m')
  then show ?thesis
  proof cases
    case (2 q)
    then have "mr_bytes (snd p) \<subseteq> mr_bytes (snd q)"
      using pieces_bytes [OF rng ok, of q] by fastforce
    moreover have "mr_backed_by (snd p) = mr_backed_by (snd q)"
      using piece_span_subset(3) [OF rng ok, of q "fst p" "snd p"] 2 by simp
    ultimately show ?thesis using 2(1) by blast
  qed blast
qed

text \<open>
  (C5) Unmapping a page-aligned range below the bound never panics. Afterwards exactly the bytes of the
  range are unmapped: the mapped bytes are the former ones without the range, the regions handed to the
  caller for clean-up cover exactly the bytes that were mapped inside it, a region that does not meet
  the range is kept as it was, every remaining region is part of a former one with the same backing,
  and the invariant holds.
\<close>

theorem unmap_memory_exact:
  assumes "mm_inv U m" "is_page_aligned addr" "len AND 0xfff = 0" "0 < len" "addr < U"
    "unat addr + unat len \<le> unat U"
  shows "\<exists>us m'. unmap_memory U m addr len = Some (Inr (us, m')) \<and> mm_inv U m' \<and>
    mapped_bytes m' = mapped_bytes m - {unat addr..<unat addr + unat len} \<and>
    (\<Union>u \<in> set us. ur_bytes u) = mapped_bytes m \<inter> {unat addr..<unat addr + unat len} \<and>
    (\<forall>p \<in> set m. mr_bytes (snd p) \<inter> {unat addr..<unat addr + unat len} = {} \<longrightarrow> p \<in> set m') \<and>
    (\<forall>p \<in> set m'. \<exists>q \<in> set m. mr_bytes (snd p) \<subseteq> mr_bytes (snd q) \<and>
      mr_backed_by (snd p) = mr_backed_by (snd q))"
proof -
  let ?e = "addr + len"
  note rng = unmap_memory_set(1) [OF assms(1,2,3,5,6)]
  obtain m' where m': "unmap_memory U m addr len =
        Some (Inr (concat (map (\<lambda>p. cut_out addr ?e (snd p)) (filter (\<lambda>p. touches addr ?e (snd p)) m)), m'))"
      "mm_inv U m'" "set m' = {p \<in> set m. \<not> touches addr ?e (snd p)} \<union>
        (\<Union>p \<in> {p \<in> set m. touches addr ?e (snd p)}. pieces addr ?e (snd p))"
    using unmap_memory_set(2) [OF assms(1,2,3,5,6)] by blast
  have e: "unat ?e = unat addr + unat len"
    using le_less_trans [OF assms(6) unat_less_max32] by (simp add: unat_add_small)
  have lt: "addr < ?e" using e assms(4) by (simp add: word_less_nat_alt)
  have ok: "region_ok U (fst p) (snd p)" if "p \<in> set m" for p
    using mm_inv_region [OF assms(1)] that by (metis prod.collapse)
  note bytes = unmap_bytes [OF assms(1) rng m'(3), unfolded e]
  have us: "(\<Union>u \<in> set (concat (map (\<lambda>p. cut_out addr ?e (snd p)) (filter (\<lambda>p. touches addr ?e (snd p)) m))).
      ur_bytes u) = mapped_bytes m \<inter> {unat addr..<unat addr + unat len}"
    using bytes(2) by simp
  have kept: "\<forall>p \<in> set m. mr_bytes (snd p) \<inter> {unat addr..<unat addr + unat len} = {} \<longrightarrow> p \<in> set m'"
    using touched_region_meets [OF rng ok _ lt] e by (auto simp: m'(3))
  have part: "\<forall>p \<in> set m'. \<exists>q \<in> set m. mr_bytes (snd p) \<subseteq> mr_bytes (snd q) \<and>
      mr_backed_by (snd p) = mr_backed_by (snd q)"
    using unmap_remaining [OF assms(1) rng _ m'(3)] by blast
  show ?thesis
    using m'(1,2) bytes(1) us kept part by (intro exI conjI)
qed

theorem unmap_memory_exact_witness:
  "\<exists>us m'. unmap_memory 0xc0000000 example_memory 0x4000 0x3000 = Some (Inr (us, m')) \<and>
     mapped_bytes m' = mapped_bytes example_memory - {0x4000..<0x7000}"
  using unmap_memory_exact [OF example_memory_inv, of "0x4000" "0x3000"]
  by (auto simp: is_page_aligned_def)


section \<open>Pages shared between file mappings\<close>

type_synonym page_tracker = "driver_id \<times> mapping_token \<times> u32 \<rightharpoonup> phys_addr"

definition get_file_backed_page :: "page_tracker \<Rightarrow> driver_id \<Rightarrow> mapping_token \<Rightarrow> u32 \<Rightarrow> phys_addr option" where
  "get_file_backed_page tracker d t offset_in_file = tracker (d, t, offset_in_file)"

definition track_file_backed_page ::
  "driver_id \<Rightarrow> mapping_token \<Rightarrow> u32 \<Rightarrow> phys_addr \<Rightarrow> page_tracker \<Rightarrow> page_tracker" where
  "track_file_backed_page d t offset_in_file paddr tracker = tracker((d, t, offset_in_file) \<mapsto> paddr)"

definition untrack_file_backed_page ::
  "driver_id \<Rightarrow> mapping_token \<Rightarrow> u32 \<Rightarrow> page_tracker \<Rightarrow> page_tracker" where
  "untrack_file_backed_page d t offset_in_file tracker = tracker((d, t, offset_in_file) := None)"

end
