(* ===== verification/Paging.thy ===== *)
theory Paging
  imports Physical_Memory Mapped_Memory
begin

text \<open>
  \<^verbatim>\<open>kernel/src/memory/virt/page_entry.rs\<close>, \<^verbatim>\<open>page_table.rs\<close>, \<^verbatim>\<open>kernel/src/task/paging.rs\<close> and the unmapping loop of
  \<^verbatim>\<open>kernel/src/task/actions/memory.rs\<close>: page directories and tables, demand paging and the release of
  frames. Directories and tables are frames of 1024 words; the kernel reaches them through the
  self-mapping of the last directory entry or through scratch pages, the model reads and writes the
  frame itself. A panic is \<open>None\<close>.
\<close>

section \<open>Page table entries\<close>

definition ENTRY_PRESENT :: u32 where "ENTRY_PRESENT = 1"
definition ENTRY_WRITE_ACCESS :: u32 where "ENTRY_WRITE_ACCESS = 2"
definition ENTRY_USER_ACCESS :: u32 where "ENTRY_USER_ACCESS = 4"
definition ENTRY_NO_RECLAIM :: u32 where "ENTRY_NO_RECLAIM = 0x400"

type_synonym pte = u32

definition pte_new :: pte where
  "pte_new = 0"

definition pte_get_address :: "pte \<Rightarrow> phys_addr" where
  "pte_get_address e = e AND 0xfffff000"

definition pte_set_address :: "phys_addr \<Rightarrow> pte \<Rightarrow> pte" where
  "pte_set_address addr e = (let addr_bits = addr AND 0xfffff000 in (e AND 0xfff) OR addr_bits)"

definition pte_set_present :: "pte \<Rightarrow> pte" where
  "pte_set_present e = e OR ENTRY_PRESENT"

definition pte_clear_present :: "pte \<Rightarrow> pte" where
  "pte_clear_present e = e AND NOT ENTRY_PRESENT"

definition pte_is_present :: "pte \<Rightarrow> bool" where
  "pte_is_present e \<longleftrightarrow> e AND ENTRY_PRESENT \<noteq> 0"

definition pte_set_user_access :: "pte \<Rightarrow> pte" where
  "pte_set_user_access e = e OR ENTRY_USER_ACCESS"

definition pte_set_write_access :: "pte \<Rightarrow> pte" where
  "pte_set_write_access e = e OR ENTRY_WRITE_ACCESS"

definition pte_set_no_reclaim :: "pte \<Rightarrow> pte" where
  "pte_set_no_reclaim e = e OR ENTRY_NO_RECLAIM"

subsection \<open>Facts\<close>

lemma present_bit: "pte_is_present e \<longleftrightarrow> bit e 0"
  by (simp add: pte_is_present_def ENTRY_PRESENT_def and_one_eq odd_iff_mod_2_eq_one bit_0)

lemma bit_entry_flags:
  "bit ENTRY_PRESENT n \<longleftrightarrow> n = 0" "bit ENTRY_WRITE_ACCESS n \<longleftrightarrow> n = 1" "bit ENTRY_USER_ACCESS n \<longleftrightarrow> n = 2"
  "bit ENTRY_NO_RECLAIM n \<longleftrightarrow> n = 10"
proof -
  have e: "bit ((2 :: u32) ^ k) n \<longleftrightarrow> n = k" if "k < 32" for k n
    using that by (auto simp: bit_exp_iff)
  show "bit ENTRY_PRESENT n \<longleftrightarrow> n = 0" using e [of 0 n] by (simp add: ENTRY_PRESENT_def)
  show "bit ENTRY_WRITE_ACCESS n \<longleftrightarrow> n = 1" using e [of 1 n] by (simp add: ENTRY_WRITE_ACCESS_def)
  show "bit ENTRY_USER_ACCESS n \<longleftrightarrow> n = 2" using e [of 2 n] by (simp add: ENTRY_USER_ACCESS_def)
  show "bit ENTRY_NO_RECLAIM n \<longleftrightarrow> n = 10" using e [of 10 n] by (simp add: ENTRY_NO_RECLAIM_def)
qed

lemmas pte_defs = pte_set_address_def pte_set_present_def pte_clear_present_def pte_set_user_access_def
  pte_set_write_access_def pte_set_no_reclaim_def pte_get_address_def present_bit

lemmas pte_bits = pte_defs bit_or_iff bit_and_iff bit_not_iff bit_entry_flags Let_def

lemma pte_present_simps [simp]:
  "pte_is_present (pte_set_present e)" "\<not> pte_is_present (pte_clear_present e)"
  "pte_is_present (pte_set_address a e) \<longleftrightarrow> pte_is_present e"
  "pte_is_present (pte_set_user_access e) \<longleftrightarrow> pte_is_present e"
  "pte_is_present (pte_set_write_access e) \<longleftrightarrow> pte_is_present e"
  "pte_is_present (pte_set_no_reclaim e) \<longleftrightarrow> pte_is_present e"
  "\<not> pte_is_present 0"
  by (simp_all add: pte_bits)

lemma pte_address_simps [simp]:
  "pte_get_address (pte_set_address a e) = a AND 0xfffff000"
  "pte_get_address (pte_set_present e) = pte_get_address e"
  "pte_get_address (pte_clear_present e) = pte_get_address e"
  "pte_get_address (pte_set_user_access e) = pte_get_address e"
  "pte_get_address (pte_set_write_access e) = pte_get_address e"
  "pte_get_address (pte_set_no_reclaim e) = pte_get_address e"
  by (rule bit_word_eqI; auto simp: pte_bits)+

lemma aligned_and_frame: "is_page_aligned a \<Longrightarrow> a AND 0xfffff000 = a"
  using unat_page_frame [of a] by (simp add: is_page_aligned_iff word_unat_eq_iff)

section \<open>Directories and tables\<close>

record page_sys =
  ps_phys :: phys_mem
  ps_tables :: "phys_addr \<Rightarrow> nat \<Rightarrow> pte"   \<comment> \<open>frames used as directories and tables\<close>
  ps_bytes :: "phys_addr \<Rightarrow> u8"             \<comment> \<open>contents of the other frames\<close>
  ps_map :: mapped_memory                  \<comment> \<open>memory map of the task\<close>
  ps_files :: page_tracker                 \<comment> \<open>\<^verbatim>\<open>FILE_BACKED_PAGE_TRACKER\<close>\<close>

type_synonym permission_flags = u8

definition USER_ACCESS :: permission_flags where "USER_ACCESS = 1"
definition WRITE_ACCESS :: permission_flags where "WRITE_ACCESS = 2"
definition NO_RECLAIM :: permission_flags where "NO_RECLAIM = 4"

definition has_flag :: "permission_flags \<Rightarrow> u8 \<Rightarrow> bool" where
  "has_flag flags flag \<longleftrightarrow> flags AND flag \<noteq> 0"

definition get_entry :: "page_sys \<Rightarrow> phys_addr \<Rightarrow> nat \<Rightarrow> pte" where
  "get_entry ps frame index = ps_tables ps frame (index mod 1024)"

definition put_entry :: "phys_addr \<Rightarrow> nat \<Rightarrow> pte \<Rightarrow> page_sys \<Rightarrow> page_sys" where
  "put_entry frame index e ps =
     ps\<lparr>ps_tables := (ps_tables ps)(frame := (ps_tables ps frame)(index mod 1024 := e))\<rparr>"

definition zero_table :: "phys_addr \<Rightarrow> page_sys \<Rightarrow> page_sys" where
  "zero_table frame ps = ps\<lparr>ps_tables := (ps_tables ps)(frame := (\<lambda>_. 0))\<rparr>"

definition apply_flags :: "permission_flags \<Rightarrow> pte \<Rightarrow> pte" where
  "apply_flags flags e =
     (let e1 = (if has_flag flags USER_ACCESS then pte_set_user_access e else e);
          e2 = (if has_flag flags WRITE_ACCESS then pte_set_write_access e1 else e1)
      in if has_flag flags NO_RECLAIM then pte_set_no_reclaim e2 else e2)"

text \<open>The table a directory entry names, allocated and cleared when the entry is not present.\<close>

definition ensure_table :: "phys_addr \<Rightarrow> nat \<Rightarrow> page_sys \<Rightarrow> page_sys option" where
  "ensure_table dir dir_index ps =
     (let entry = get_entry ps dir dir_index
      in if pte_is_present entry then Some ps
         else (case allocate_frame (ps_phys ps) of
                 Inl _ \<Rightarrow> None
               | Inr (frame_addr, pm) \<Rightarrow>
                   let e1 = pte_set_present (pte_set_address frame_addr entry);
                       e2 = (if dir_index < 768 then pte_set_write_access (pte_set_user_access e1) else e1)
                   in Some (zero_table (pte_get_address e2) (put_entry dir dir_index e2 (ps\<lparr>ps_phys := pm\<rparr>)))))"

definition pagedir_map ::
  "phys_addr \<Rightarrow> virt_addr \<Rightarrow> phys_addr \<Rightarrow> permission_flags \<Rightarrow> page_sys \<Rightarrow> page_sys option" where
  "pagedir_map dir vaddr paddr flags ps =
     (let dir_index = get_page_directory_index vaddr;
          table_index = get_page_table_index vaddr
      in case ensure_table dir dir_index ps of
           None \<Rightarrow> None
         | Some ps1 \<Rightarrow>
             let table = pte_get_address (get_entry ps1 dir dir_index);
                 e = pte_set_present (pte_set_address paddr (get_entry ps1 table table_index))
             in Some (put_entry table table_index (apply_flags flags e) ps1))"

definition pagedir_unmap :: "phys_addr \<Rightarrow> virt_addr \<Rightarrow> page_sys \<Rightarrow> phys_addr option \<times> page_sys" where
  "pagedir_unmap dir vaddr ps =
     (let dir_index = get_page_directory_index vaddr;
          table_index = get_page_table_index vaddr;
          entry = get_entry ps dir dir_index
      in if \<not> pte_is_present entry then (None, ps)
         else let table = pte_get_address entry; e = get_entry ps table table_index
              in if \<not> pte_is_present e then (None, ps)
                 else (Some (pte_get_address (pte_clear_present e)),
                       put_entry table table_index (pte_clear_present e) ps))"

definition maybe_get_physical_address :: "phys_addr \<Rightarrow> page_sys \<Rightarrow> virt_addr \<Rightarrow> phys_addr option" where
  "maybe_get_physical_address dir ps vaddr =
     (let dir_entry = get_entry ps dir (get_page_directory_index vaddr)
      in if \<not> pte_is_present dir_entry then None
         else let table_entry = get_entry ps (pte_get_address dir_entry) (get_page_table_index vaddr)
              in if \<not> pte_is_present table_entry then None
                 else Some (addr_add (pte_get_address table_entry) (vaddr AND 0xfff)))"

text \<open>
  A new directory: the user half is empty, the kernel half is shared with the current directory and
  the last entry maps the directory itself.
\<close>

definition create_page_directory :: "phys_addr \<Rightarrow> page_sys \<Rightarrow> (phys_addr \<times> page_sys) option" where
  "create_page_directory current_dir ps =
     (case allocate_frame (ps_phys ps) of
        Inl _ \<Rightarrow> None
      | Inr (addr, pm) \<Rightarrow>
          let entries = (\<lambda>i. if i < 0x300 then 0 else get_entry ps current_dir i);
              entries' = entries(0x3ff := pte_set_address addr (entries 0x3ff))
          in Some (addr, ps\<lparr>ps_phys := pm, ps_tables := (ps_tables ps)(addr := entries')\<rparr>))"

text \<open>
  The directory of another task (\<^verbatim>\<open>ExternalPageDirectory\<close>) is reached through scratch pages instead of
  its last entry: first the directory entry, then the table at the address read from it.
\<close>

definition external_map ::
  "phys_addr \<Rightarrow> virt_addr \<Rightarrow> phys_addr \<Rightarrow> permission_flags \<Rightarrow> page_sys \<Rightarrow> page_sys option" where
  "external_map dir vaddr paddr flags ps =
     (let dir_index = get_page_directory_index vaddr;
          table_index = get_page_table_index vaddr;
          dir_entry = get_entry ps dir dir_index
      in case (if \<not> pte_is_present dir_entry
               then (case allocate_frame (ps_phys ps) of
                       Inl _ \<Rightarrow> None
                     | Inr (frame_addr, pm) \<Rightarrow>
                         let e1 = pte_set_present (pte_set_address frame_addr dir_entry);
                             e2 = (if dir_index < 768 then pte_set_write_access (pte_set_user_access e1) else e1)
                         in Some (True, pte_get_address e2, put_entry dir dir_index e2 (ps\<lparr>ps_phys := pm\<rparr>)))
               else Some (False, pte_get_address dir_entry, ps)) of
           None \<Rightarrow> None
         | Some (zero_frame, table_location, ps1) \<Rightarrow>
             let ps2 = (if zero_frame then zero_table table_location ps1 else ps1);
                 e = pte_set_present (pte_set_address paddr (get_entry ps2 table_location table_index))
             in Some (put_entry table_location table_index (apply_flags flags e) ps2))"

definition external_unmap :: "phys_addr \<Rightarrow> virt_addr \<Rightarrow> page_sys \<Rightarrow> phys_addr option \<times> page_sys" where
  "external_unmap dir address ps =
     (let dir_index = get_page_directory_index address;
          table_index = get_page_table_index address;
          dir_entry = get_entry ps dir dir_index
      in if \<not> pte_is_present dir_entry then (None, ps)
         else let table_location = pte_get_address dir_entry;
                  table_entry = get_entry ps table_location table_index
              in if \<not> pte_is_present table_entry then (None, ps)
                 else (Some (pte_get_address table_entry),
                       put_entry table_location table_index (pte_clear_present table_entry) ps))"

section \<open>Demand paging\<close>

definition get_flags_for_region :: "mem_mapped_region \<Rightarrow> permission_flags" where
  "get_flags_for_region region =
     (let flags = USER_ACCESS OR WRITE_ACCESS;
          flags1 = (case mr_backed_by region of Direct _ \<Rightarrow> flags OR NO_RECLAIM | _ \<Rightarrow> flags)
      in case mr_backed_by region of
           FileBacked _ _ _ True \<Rightarrow> flags1 AND NOT WRITE_ACCESS
         | _ \<Rightarrow> flags1)"

fun map_frames ::
  "phys_addr \<Rightarrow> phys_addr \<Rightarrow> virt_addr \<Rightarrow> permission_flags \<Rightarrow> nat list \<Rightarrow> page_sys \<Rightarrow> page_sys option" where
  "map_frames dir range_start map_to flags [] ps = Some ps"
| "map_frames dir range_start map_to flags (i # is) ps =
     (let offset = of_nat i * 0x1000
      in case pagedir_map dir (addr_add map_to offset) (addr_add range_start offset) flags ps of
           None \<Rightarrow> None
         | Some ps' \<Rightarrow> map_frames dir range_start map_to flags is ps')"

definition fill_frame :: "phys_addr \<Rightarrow> (nat \<Rightarrow> u8) \<Rightarrow> page_sys \<Rightarrow> page_sys" where
  "fill_frame frame data ps =
     ps\<lparr>ps_bytes := (\<lambda>x. if x AND 0xfffff000 = frame then data (unat (x AND 0xfff)) else ps_bytes ps x)\<rparr>"

text \<open>
  \<open>page_in\<close> is the driver's answer to the request for one page of a mapped file, \<open>None\<close> an error. The
  result is the physical address the handler reports, \<open>None\<close> an unhandled fault.
\<close>

definition file_offset :: "mem_mapped_region \<Rightarrow> virt_addr \<Rightarrow> u32 \<Rightarrow> u32" where
  "file_offset region address offset_in_file =
     offset_in_file + addr_sub (prev_page_barrier address) (mr_address region)"

definition page_on_demand ::
  "(driver_id \<Rightarrow> mapping_token \<Rightarrow> u32 \<Rightarrow> (nat \<Rightarrow> u8) option) \<Rightarrow> phys_addr \<Rightarrow> virt_addr \<Rightarrow> page_sys \<Rightarrow>
   (phys_addr option \<times> page_sys) option" where
  "page_on_demand page_in dir address ps =
     (case get_mapping_containing_address (ps_map ps) address of
        None \<Rightarrow> Some (None, ps)
      | Some region \<Rightarrow>
          let page_start = prev_page_barrier address;
              page_offset = addr_sub page_start (mr_address region);
              local_offset = address AND 0xfff;
              flags = get_flags_for_region region
          in case mr_backed_by region of
               IsaDma \<Rightarrow>
                 (case allocate_frames (page_count region) (ps_phys ps) of
                    Inl _ \<Rightarrow> None
                  | Inr (range_start, pm) \<Rightarrow>
                      map_option (\<lambda>ps'. (Some (addr_add (addr_add range_start page_offset) local_offset), ps'))
                        (map_frames dir range_start (mr_address region) flags [0..<unat (page_count region)]
                          (ps\<lparr>ps_phys := pm\<rparr>)))
             | Direct _ \<Rightarrow> None
             | FreeMemory \<Rightarrow>
                 (case allocate_frame_with_tracking (ps_phys ps) of
                    Some (Inr (frame, pm)) \<Rightarrow>
                      map_option (\<lambda>ps'. (Some (addr_add frame local_offset), ps'))
                        (pagedir_map dir page_start frame flags (fill_frame frame (\<lambda>_. 0) (ps\<lparr>ps_phys := pm\<rparr>)))
                  | _ \<Rightarrow> None)
             | FileBacked d t offset_in_file shared \<Rightarrow>
                 let total_offset = file_offset region address offset_in_file
                 in case (if shared then get_file_backed_page (ps_files ps) d t total_offset else None) of
                      Some paddr \<Rightarrow>
                        (case maybe_add_frame_reference paddr (ps_phys ps) of
                           None \<Rightarrow> None
                         | Some pm \<Rightarrow>
                             map_option (\<lambda>ps'. (Some paddr, ps'))
                               (pagedir_map dir page_start paddr flags (ps\<lparr>ps_phys := pm\<rparr>)))
                    | None \<Rightarrow>
                        (case allocate_frame_with_tracking (ps_phys ps) of
                           Some (Inr (frame, pm)) \<Rightarrow>
                             (case page_in d t total_offset of
                                Some data \<Rightarrow>
                                  let ps1 = fill_frame frame data (ps\<lparr>ps_phys := pm\<rparr>);
                                      ps2 = (if shared then ps1\<lparr>ps_files :=
                                        track_file_backed_page d t total_offset frame (ps_files ps1)\<rparr> else ps1)
                                  in map_option (\<lambda>ps'. (Some (addr_add frame local_offset), ps'))
                                       (pagedir_map dir page_start frame flags ps2)
                              | None \<Rightarrow>
                                  map_option (\<lambda>(_, pm'). (None, ps\<lparr>ps_phys := pm'\<rparr>)) (release_tracked_frame frame pm))
                         | _ \<Rightarrow> None))"

definition get_physical_address ::
  "(driver_id \<Rightarrow> mapping_token \<Rightarrow> u32 \<Rightarrow> (nat \<Rightarrow> u8) option) \<Rightarrow> phys_addr \<Rightarrow> virt_addr \<Rightarrow> page_sys \<Rightarrow>
   (phys_addr option \<times> page_sys) option" where
  "get_physical_address page_in dir vaddr ps =
     (case maybe_get_physical_address dir ps vaddr of
        Some paddr \<Rightarrow> Some (Some paddr, ps)
      | None \<Rightarrow> page_on_demand page_in dir vaddr ps)"

section \<open>Mapping and unmapping for a task\<close>

fun map_direct :: "phys_addr \<Rightarrow> phys_addr \<Rightarrow> virt_addr \<Rightarrow> nat list \<Rightarrow> page_sys \<Rightarrow> page_sys option" where
  "map_direct dir paddr mapped_to [] ps = Some ps"
| "map_direct dir paddr mapped_to (i # is) ps =
     (let offset = of_nat (i * 4096)
      in case external_map dir (addr_add mapped_to offset) (addr_add paddr offset)
                (USER_ACCESS OR WRITE_ACCESS) ps of
           None \<Rightarrow> None
         | Some ps1 \<Rightarrow>
             (case maybe_add_frame_reference (addr_add paddr offset) (ps_phys ps1) of
                None \<Rightarrow> None
              | Some pm \<Rightarrow> map_direct dir paddr mapped_to is (ps1\<lparr>ps_phys := pm\<rparr>)))"

definition page_steps :: "u32 \<Rightarrow> nat list" where
  "page_steps sz = [0..<(unat sz + 4095) div 4096]"

definition map_memory_for_task ::
  "u32 \<Rightarrow> phys_addr \<Rightarrow> virt_addr option \<Rightarrow> u32 \<Rightarrow> memory_backing \<Rightarrow> page_sys \<Rightarrow>
   (mem_map_error + (virt_addr \<times> page_sys)) option" where
  "map_memory_for_task U dir addr sz backing ps =
     (case map_memory U (ps_map ps) addr sz backing of
        Inl e \<Rightarrow> Some (Inl e)
      | Inr (mapped_to, m) \<Rightarrow>
          let ps1 = ps\<lparr>ps_map := m\<rparr>
          in case backing of
               Direct paddr \<Rightarrow>
                 map_option (\<lambda>ps'. Inr (mapped_to, ps')) (map_direct dir paddr mapped_to (page_steps sz) ps1)
             | _ \<Rightarrow> Some (Inr (mapped_to, ps1)))"

text \<open>
  One page of the clean-up loop, \<open>current\<close> when the task is the running one. \<open>Inl\<close> is the early return
  with \<open>KernelError\<close>.
\<close>

definition release_page ::
  "bool \<Rightarrow> phys_addr \<Rightarrow> unmapped_region \<Rightarrow> u32 \<Rightarrow> page_sys \<Rightarrow> (mem_map_error + page_sys) option" where
  "release_page current dir region offset ps =
     (case (if current then pagedir_unmap else external_unmap) dir (addr_add (ur_address region) offset) ps of
        (None, ps1) \<Rightarrow> Some (Inr ps1)
      | (Some frame, ps1) \<Rightarrow>
          (case release_tracked_frame frame (ps_phys ps1) of
             None \<Rightarrow> None
           | Some (Inl _, pm) \<Rightarrow> Some (Inl KernelError)
           | Some (Inr released, pm) \<Rightarrow>
               let ps2 = ps1\<lparr>ps_phys := pm\<rparr>
               in if released
                  then (case ur_kind region of
                          U_FileBacked d t offset_in_file shared \<Rightarrow>
                            if shared
                            then Some (Inr (ps2\<lparr>ps_files := untrack_file_backed_page d t offset_in_file (ps_files ps2)\<rparr>))
                            else Some (Inr ps2)
                        | _ \<Rightarrow> Some (Inr ps2))
                  else Some (Inr ps2)))"

fun release_pages ::
  "bool \<Rightarrow> phys_addr \<Rightarrow> unmapped_region \<Rightarrow> nat list \<Rightarrow> page_sys \<Rightarrow> (mem_map_error + page_sys) option" where
  "release_pages current dir region [] ps = Some (Inr ps)"
| "release_pages current dir region (i # is) ps =
     (case release_page current dir region (of_nat (i * 4096)) ps of
        None \<Rightarrow> None
      | Some (Inl e) \<Rightarrow> Some (Inl e)
      | Some (Inr ps') \<Rightarrow> release_pages current dir region is ps')"

fun release_regions :: "bool \<Rightarrow> phys_addr \<Rightarrow> unmapped_region list \<Rightarrow> page_sys \<Rightarrow> (mem_map_error + page_sys) option" where
  "release_regions current dir [] ps = Some (Inr ps)"
| "release_regions current dir (region # rest) ps =
     (case release_pages current dir region (page_steps (ur_size region)) ps of
        None \<Rightarrow> None
      | Some (Inl e) \<Rightarrow> Some (Inl e)
      | Some (Inr ps') \<Rightarrow> release_regions current dir rest ps')"

definition unmap_memory_for_task ::
  "u32 \<Rightarrow> bool \<Rightarrow> phys_addr \<Rightarrow> virt_addr \<Rightarrow> u32 \<Rightarrow> page_sys \<Rightarrow> (mem_map_error + page_sys) option" where
  "unmap_memory_for_task U current dir addr sz ps =
     (case unmap_memory U (ps_map ps) addr sz of
        None \<Rightarrow> None
      | Some (Inl e) \<Rightarrow> Some (Inl e)
      | Some (Inr (unmapped_regions, m)) \<Rightarrow> release_regions current dir unmapped_regions (ps\<lparr>ps_map := m\<rparr>))"

section \<open>Translation after mapping\<close>

lemma get_put_entry [simp]:
  "get_entry (put_entry f i e ps) g j = (if g = f \<and> j mod 1024 = i mod 1024 then e else get_entry ps g j)"
  by (simp add: get_entry_def put_entry_def)

lemma get_zero_table [simp]: "get_entry (zero_table f ps) g j = (if g = f then 0 else get_entry ps g j)"
  by (simp add: get_entry_def zero_table_def)

lemma get_entry_phys [simp]: "get_entry (ps\<lparr>ps_phys := pm\<rparr>) g j = get_entry ps g j"
  by (simp add: get_entry_def)

lemma ps_phys_put [simp]: "ps_phys (put_entry f i e ps) = ps_phys ps" "ps_phys (zero_table f ps) = ps_phys ps"
  by (simp_all add: put_entry_def zero_table_def)

lemma table_index_bounds: "get_page_directory_index v < 1024" "get_page_table_index v < 1024"
proof -
  have "unat v div 4194304 < 1024"
    using unat_less_max32 [of v] by (simp add: less_mult_imp_div_less)
  then show "get_page_directory_index v < 1024"
    by (simp only: get_page_directory_index_def unat_drop_bit) simp
  show "get_page_table_index v < 1024"
    by (simp only: get_page_table_index_def ten_bit_mask unat_and_mask) simp
qed

lemma apply_flags_simps [simp]:
  "pte_is_present (apply_flags flags e) \<longleftrightarrow> pte_is_present e"
  "pte_get_address (apply_flags flags e) = pte_get_address e"
  by (simp_all add: apply_flags_def Let_def)

text \<open>
  The tables of a directory are frames in use, different from each other and from the directory; the
  last entry is the directory itself.
\<close>

definition table_of :: "page_sys \<Rightarrow> phys_addr \<Rightarrow> nat \<Rightarrow> phys_addr" where
  "table_of ps dir i = pte_get_address (get_entry ps dir i)"

definition dir_inv :: "phys_addr \<Rightarrow> page_sys \<Rightarrow> bool" where
  "dir_inv dir ps \<longleftrightarrow> pm_inv (ps_phys ps) \<and> is_address_allocated (pm_allocator (ps_phys ps)) dir \<and>
     is_page_aligned dir \<and>
     (\<forall>i < 1023. pte_is_present (get_entry ps dir i) \<longrightarrow>
        is_address_allocated (pm_allocator (ps_phys ps)) (table_of ps dir i) \<and> table_of ps dir i \<noteq> dir) \<and>
     (\<forall>i < 1023. \<forall>j < 1023. i \<noteq> j \<and> pte_is_present (get_entry ps dir i) \<and> pte_is_present (get_entry ps dir j) \<longrightarrow>
        table_of ps dir i \<noteq> table_of ps dir j)"

lemma table_of_aligned: "is_page_aligned (table_of ps dir i)"
  using prev_page_barrier_aligned by (simp add: table_of_def pte_get_address_def prev_page_barrier_def)

lemma allocate_frame_mono:
  assumes "pm_inv pm" "allocate_frame pm = Inr (a, pm')" "is_page_aligned b"
  shows "is_address_allocated (pm_allocator pm') b \<longleftrightarrow> is_address_allocated (pm_allocator pm) b \<or> b = a"
proof -
  obtain m where m: "allocate_first_frame (pm_allocator pm) = Inr (a, m)" "pm' = pm\<lparr>pm_allocator := m\<rparr>"
    using assms(2) by (auto simp: allocate_frame_def split: sum.splits)
  have "bitmap_ok (pm_allocator pm)" using assms(1) by (simp add: pm_inv_def)
  from bitmap_alloc.alloc_frame [OF this m(1) assms(3)] show ?thesis by (simp add: m(2))
qed

lemma ensure_table_spec:
  assumes inv: "dir_inv dir ps" and i: "i < 1023" and res: "ensure_table dir i ps = Some ps1"
  shows "dir_inv dir ps1" "pte_is_present (get_entry ps1 dir i)"
    "\<And>j. j < 1023 \<Longrightarrow> j \<noteq> i \<Longrightarrow> get_entry ps1 dir j = get_entry ps dir j"
    "\<And>j k. j < 1023 \<Longrightarrow> j \<noteq> i \<Longrightarrow> pte_is_present (get_entry ps dir j) \<Longrightarrow>
       get_entry ps1 (table_of ps dir j) k = get_entry ps (table_of ps dir j) k"
    "\<And>k. get_entry ps1 (table_of ps1 dir i) k =
       (if pte_is_present (get_entry ps dir i) then get_entry ps (table_of ps dir i) k else 0)"
proof -
  have "dir_inv dir ps1 \<and> pte_is_present (get_entry ps1 dir i) \<and>
    (\<forall>j < 1023. j \<noteq> i \<longrightarrow> get_entry ps1 dir j = get_entry ps dir j) \<and>
    (\<forall>j < 1023. \<forall>k. j \<noteq> i \<and> pte_is_present (get_entry ps dir j) \<longrightarrow>
       get_entry ps1 (table_of ps dir j) k = get_entry ps (table_of ps dir j) k) \<and>
    (\<forall>k. get_entry ps1 (table_of ps1 dir i) k =
       (if pte_is_present (get_entry ps dir i) then get_entry ps (table_of ps dir i) k else 0))"
  proof (cases "pte_is_present (get_entry ps dir i)")
    case True
    then show ?thesis using res inv by (simp add: ensure_table_def Let_def)
  next
    case False
    obtain f pm where alloc: "allocate_frame (ps_phys ps) = Inr (f, pm)"
      using res False by (auto simp: ensure_table_def Let_def split: sum.splits)
    have pm: "pm_inv (ps_phys ps)" using inv by (simp add: dir_inv_def)
    note c = allocate_frame_cases [OF pm alloc] and mono = allocate_frame_mono [OF pm alloc]
    have f: "f AND 0xfffff000 = f" using c(1) by (rule aligned_and_frame)
    define e2 where "e2 = (let e1 = pte_set_present (pte_set_address f (get_entry ps dir i))
      in if i < 768 then pte_set_write_access (pte_set_user_access e1) else e1)"
    have e2: "pte_is_present e2" "pte_get_address e2 = f" by (simp_all add: e2_def Let_def f)
    have ps1: "ps1 = zero_table f (put_entry dir i e2 (ps\<lparr>ps_phys := pm\<rparr>))"
      using res False alloc e2(2) by (simp add: ensure_table_def Let_def e2_def)
    have fd: "f \<noteq> dir" using c(2) inv by (auto simp: dir_inv_def)
    have ft: "table_of ps dir j \<noteq> f" if "j < 1023" "pte_is_present (get_entry ps dir j)" for j
      using that c(2) inv by (auto simp: dir_inv_def)
    have ent: "get_entry ps1 dir j = (if j = i then e2 else get_entry ps dir j)" if "j < 1023" for j
      using that i fd by (simp add: ps1)
    then have tab: "table_of ps1 dir j = (if j = i then f else table_of ps dir j)" if "j < 1023" for j
      using that e2(2) by (simp add: table_of_def)
    have "dir_inv dir ps1"
      unfolding dir_inv_def using inv c mono [OF table_of_aligned] mono [of dir] ent tab e2 fd ft
      by (auto simp: dir_inv_def ps1)
    moreover have "get_entry ps1 (table_of ps dir j) k = get_entry ps (table_of ps dir j) k"
      if "j < 1023" "j \<noteq> i" "pte_is_present (get_entry ps dir j)" for j k
      using that ft [of j] inv by (auto simp: ps1 dir_inv_def)
    ultimately show ?thesis
      using ent e2 tab i False by (auto simp: ps1)
  qed
  then show "dir_inv dir ps1" "pte_is_present (get_entry ps1 dir i)"
    "\<And>j. j < 1023 \<Longrightarrow> j \<noteq> i \<Longrightarrow> get_entry ps1 dir j = get_entry ps dir j"
    "\<And>j k. j < 1023 \<Longrightarrow> j \<noteq> i \<Longrightarrow> pte_is_present (get_entry ps dir j) \<Longrightarrow>
       get_entry ps1 (table_of ps dir j) k = get_entry ps (table_of ps dir j) k"
    "\<And>k. get_entry ps1 (table_of ps1 dir i) k =
       (if pte_is_present (get_entry ps dir i) then get_entry ps (table_of ps dir i) k else 0)"
    by blast+
qed

lemma translate_eq:
  "maybe_get_physical_address dir ps v =
     (if pte_is_present (get_entry ps dir (get_page_directory_index v)) \<and>
         pte_is_present (get_entry ps (table_of ps dir (get_page_directory_index v)) (get_page_table_index v))
      then Some (addr_add (pte_get_address (get_entry ps (table_of ps dir (get_page_directory_index v))
             (get_page_table_index v))) (v AND 0xfff))
      else None)"
  by (auto simp: maybe_get_physical_address_def table_of_def Let_def)

definition same_page :: "virt_addr \<Rightarrow> virt_addr \<Rightarrow> bool" where
  "same_page v w \<longleftrightarrow> get_page_directory_index v = get_page_directory_index w \<and>
     get_page_table_index v = get_page_table_index w"

lemma pagedir_map_spec:
  assumes inv: "dir_inv dir ps" and user: "get_page_directory_index v < 1023" and al: "is_page_aligned paddr"
    and res: "pagedir_map dir v paddr flags ps = Some ps'"
  shows "dir_inv dir ps'" "maybe_get_physical_address dir ps' v = Some (addr_add paddr (v AND 0xfff))"
    "\<And>w. get_page_directory_index w < 1023 \<Longrightarrow> \<not> same_page v w \<Longrightarrow>
       maybe_get_physical_address dir ps' w = maybe_get_physical_address dir ps w"
proof -
  let ?i = "get_page_directory_index v" and ?k = "get_page_table_index v"
  obtain ps1 where ps1: "ensure_table dir ?i ps = Some ps1"
    using res by (auto simp: pagedir_map_def Let_def split: option.splits)
  note spec = ensure_table_spec [OF inv user ps1]
  define t where "t = table_of ps1 dir ?i"
  define e where "e = apply_flags flags (pte_set_present (pte_set_address paddr (get_entry ps1 t ?k)))"
  have ps': "ps' = put_entry t ?k e ps1"
    using res ps1 by (simp add: pagedir_map_def Let_def t_def e_def table_of_def)
  have e: "pte_is_present e" "pte_get_address e = paddr"
    by (simp_all add: e_def aligned_and_frame [OF al])
  have td: "t \<noteq> dir" "\<And>j. j < 1023 \<Longrightarrow> j \<noteq> ?i \<Longrightarrow> pte_is_present (get_entry ps1 dir j) \<Longrightarrow> table_of ps1 dir j \<noteq> t"
    using spec(1,2) user by (auto simp: dir_inv_def t_def)
  have ent: "get_entry ps' dir j = get_entry ps1 dir j" for j
    using td(1) by (simp add: ps')
  then have tab: "table_of ps' dir j = table_of ps1 dir j" for j
    by (simp add: table_of_def)
  have phys: "ps_phys ps' = ps_phys ps1" by (simp add: ps')
  show "dir_inv dir ps'"
    using spec(1) unfolding dir_inv_def ent tab phys .
  show "maybe_get_physical_address dir ps' v = Some (addr_add paddr (v AND 0xfff))"
    using spec(2) e by (simp add: translate_eq ent tab) (simp add: ps' t_def [symmetric])
  show "maybe_get_physical_address dir ps' w = maybe_get_physical_address dir ps w"
    if w: "get_page_directory_index w < 1023" "\<not> same_page v w" for w
  proof (cases "get_page_directory_index w = ?i")
    case True
    then have "get_page_table_index w \<noteq> ?k" using w(2) by (simp add: same_page_def)
    then have "get_entry ps' t (get_page_table_index w) = get_entry ps1 t (get_page_table_index w)"
      using table_index_bounds(2) [of w] table_index_bounds(2) [of v] by (simp add: ps')
    then show ?thesis
      using True spec(2,5) by (auto simp: translate_eq ent tab t_def)
  next
    case False
    have same: "get_entry ps1 dir (get_page_directory_index w) = get_entry ps dir (get_page_directory_index w)"
      using spec(3) [OF w(1) False] .
    then have same_t: "table_of ps1 dir (get_page_directory_index w) = table_of ps dir (get_page_directory_index w)"
      by (simp add: table_of_def)
    show ?thesis
    proof (cases "pte_is_present (get_entry ps dir (get_page_directory_index w))")
      case True
      have "table_of ps dir (get_page_directory_index w) \<noteq> t"
        using td(2) [OF w(1) False] True same same_t by simp
      then have "get_entry ps' (table_of ps dir (get_page_directory_index w)) k =
          get_entry ps (table_of ps dir (get_page_directory_index w)) k" for k
        using spec(4) [OF w(1) False True] by (simp add: ps')
      then show ?thesis by (simp add: translate_eq ent tab same same_t)
    next
      case False
      then show ?thesis by (simp add: translate_eq ent same)
    qed
  qed
qed

text \<open>
  (C20) Mapping a page-aligned frame below the self-mapping makes every address of the page translate to
  the frame with its offset, leaves the translation of every other page as it was, even when a new page
  table had to be allocated, and keeps the tables of the directory distinct frames in use.
\<close>

theorem pagedir_map_translates:
  assumes "dir_inv dir ps" "get_page_directory_index v < 1023" "is_page_aligned paddr"
    "pagedir_map dir v paddr flags ps = Some ps'"
  shows "dir_inv dir ps' \<and>
    maybe_get_physical_address dir ps' v = Some (paddr + (v AND 0xfff)) \<and>
    (\<forall>w. get_page_directory_index w < 1023 \<and> \<not> same_page v w \<longrightarrow>
      maybe_get_physical_address dir ps' w = maybe_get_physical_address dir ps w)"
  using pagedir_map_spec [OF assms] by (auto simp: addr_add_def)

definition empty_page_sys :: page_sys where
  "empty_page_sys = \<lparr>ps_phys = \<lparr>pm_allocator = [3, 0], pm_tracker = address_tree_new\<rparr>,
     ps_tables = (\<lambda>_ _. 0), ps_bytes = (\<lambda>_. 0), ps_map = [], ps_files = Map.empty\<rparr>"

lemma get_entry_empty [simp]: "get_entry empty_page_sys f i = 0"
  by (simp add: get_entry_def empty_page_sys_def)

lemma dir_inv_empty: "dir_inv 0x1000 empty_page_sys"
proof -
  have "is_address_allocated [3, 0] 0x1000" by code_simp
  then show ?thesis
    by (simp add: dir_inv_def empty_page_sys_def pm_inv_untracked bitmap_ok_def is_page_aligned_def
        get_entry_def)
qed

lemma allocate_first_example: "allocate_frame (ps_phys empty_page_sys) = Inr (0x2000, \<lparr>pm_allocator = [7, 0], pm_tracker = address_tree_new\<rparr>)"
proof -
  have "find_free_range [3, 0] 1 = Some (frame_range_new 0x2000 0x1000)"
    by (simp add: find_free_range_def find_free_loop.simps total_frame_count_def frame_taken_def)
  moreover have "allocate_range [3, 0] (frame_range_new 0x2000 0x1000) = Inr [7, 0]"
    by code_simp
  ultimately show ?thesis
    by (simp add: allocate_frame_def allocate_first_frame_def bitmap_allocate_frames_def empty_page_sys_def
        get_starting_address_def frame_range_new_def)
qed

theorem pagedir_map_translates_witness:
  "\<exists>ps'. pagedir_map 0x1000 0x8048123 0x7000 3 empty_page_sys = Some ps' \<and>
     maybe_get_physical_address 0x1000 ps' 0x8048123 = Some 0x7123"
proof -
  obtain ps' where "pagedir_map 0x1000 0x8048123 0x7000 3 empty_page_sys = Some ps'"
    by (simp add: pagedir_map_def ensure_table_def allocate_first_example get_entry_empty Let_def)
  then show ?thesis
    using pagedir_map_translates [OF dir_inv_empty, of "0x8048123" "0x7000" 3 ps']
    by (simp add: get_page_directory_index_def is_page_aligned_def)
qed

lemma external_unmap_eq: "external_unmap dir v ps = pagedir_unmap dir v ps"
  by (simp add: external_unmap_def pagedir_unmap_def Let_def)

text \<open>
  (C21) Mapping and unmapping a page through the directory of another task does what the running task's own
  routines do: the two copies of the code compute the same tables, frames and results.
\<close>

theorem external_directory_agrees:
  assumes "dir_inv dir ps"
  shows "external_map dir v p flags ps = pagedir_map dir v p flags ps \<and>
    external_unmap dir v ps = pagedir_unmap dir v ps"
proof (cases "pte_is_present (get_entry ps dir (get_page_directory_index v))")
  case True
  then show ?thesis
    by (simp add: external_unmap_eq external_map_def pagedir_map_def ensure_table_def Let_def)
next
  case False
  show ?thesis
  proof (cases "allocate_frame (ps_phys ps)")
    case (Inl e)
    then show ?thesis
      using False by (simp add: external_unmap_eq external_map_def pagedir_map_def ensure_table_def Let_def)
  next
    case (Inr r)
    obtain f pm where r: "r = (f, pm)" by (cases r)
    have pm: "pm_inv (ps_phys ps)" using assms by (simp add: dir_inv_def)
    note c = allocate_frame_cases [OF pm Inr [unfolded r]]
    have "f \<noteq> dir" using c(2) assms by (auto simp: dir_inv_def)
    moreover have "f AND 0xfffff000 = f" using c(1) by (rule aligned_and_frame)
    ultimately show ?thesis
      using False Inr by (simp add: r external_unmap_eq external_map_def pagedir_map_def ensure_table_def Let_def)
  qed
qed

theorem external_directory_agrees_witness:
  "external_map 0x1000 0x8048000 0x3000 USER_ACCESS empty_page_sys =
     pagedir_map 0x1000 0x8048000 0x3000 USER_ACCESS empty_page_sys \<and>
   external_unmap 0x1000 0x8048000 empty_page_sys = pagedir_unmap 0x1000 0x8048000 empty_page_sys"
  by (rule external_directory_agrees [OF dir_inv_empty])

section \<open>Page faults\<close>

lemma page_start_indices:
  "get_page_directory_index (prev_page_barrier v) = get_page_directory_index v"
  "get_page_table_index (prev_page_barrier v) = get_page_table_index v"
proof -
  have "drop_bit 12 (prev_page_barrier v) = drop_bit 12 v"
    unfolding prev_page_barrier_def page_frame_mask
    by (rule bit_word_eqI) (auto simp: bit_drop_bit_eq bit_and_iff bit_not_iff bit_mask_iff dest: bit_imp_le_length)
  moreover have "drop_bit 22 w = drop_bit 10 (drop_bit 12 w)" for w :: u32
    by (simp only: drop_bit_drop_bit) simp
  ultimately show "get_page_directory_index (prev_page_barrier v) = get_page_directory_index v"
    "get_page_table_index (prev_page_barrier v) = get_page_table_index v"
    by (simp_all only: get_page_directory_index_def get_page_table_index_def)
qed

lemma dir_inv_phys:
  assumes "dir_inv dir ps" "pm_inv pm"
    "\<And>b. is_page_aligned b \<Longrightarrow> is_address_allocated (pm_allocator (ps_phys ps)) b \<Longrightarrow>
       is_address_allocated (pm_allocator pm) b"
  shows "dir_inv dir (ps\<lparr>ps_phys := pm\<rparr>)"
  using assms table_of_aligned by (auto simp: dir_inv_def table_of_def)

lemma dir_inv_fill [simp]: "dir_inv dir (fill_frame f data ps) \<longleftrightarrow> dir_inv dir ps"
  by (simp add: dir_inv_def fill_frame_def table_of_def get_entry_def)

lemma tracked_alloc_cases:
  assumes "pm_inv pm" "allocate_frame_with_tracking pm = Some (Inr (a, pm'))"
  shows "is_page_aligned a" "\<not> is_address_allocated (pm_allocator pm) a" "pm_inv pm'"
    "tracked_frame_reference_count pm' a = Some 1"
    "\<And>b. is_page_aligned b \<Longrightarrow> is_address_allocated (pm_allocator pm) b \<Longrightarrow> is_address_allocated (pm_allocator pm') b"
proof -
  obtain pm1 where pm1: "allocate_frame pm = Inr (a, pm1)"
    using assms(2) by (auto simp: allocate_frame_with_tracking_def split: sum.splits option.splits)
  note c = allocate_frame_cases [OF assms(1) pm1]
    and t = allocate_frame_with_tracking_ok [OF assms(1) pm1]
    and mono = allocate_frame_mono [OF assms(1) pm1]
  have pm': "pm' = pm1\<lparr>pm_tracker := tree_add a (pm_tracker pm)\<rparr>" using assms(2) t(1) by simp
  have wf: "wf_tree (pm_tracker pm)" using assms(1) by (simp add: pm_inv_def)
  show "is_page_aligned a" "\<not> is_address_allocated (pm_allocator pm) a" "pm_inv pm'"
    using c t pm' by auto
  show "tracked_frame_reference_count pm' a = Some 1"
    using frame_refs.count_add [OF wf c(1) c(1)] c(3) by (simp add: pm' tracked_frame_reference_count_def)
  show "is_address_allocated (pm_allocator pm') b" if "is_page_aligned b" "is_address_allocated (pm_allocator pm) b" for b
    using mono [OF that(1)] that by (simp add: pm')
qed

lemma pagedir_map_bytes:
  "pagedir_map dir v paddr flags ps = Some ps' \<Longrightarrow> ps_bytes ps' = ps_bytes ps"
  by (auto simp: pagedir_map_def ensure_table_def put_entry_def zero_table_def Let_def
      split: option.splits sum.splits if_splits)


definition fault_example :: page_sys where
  "fault_example = empty_page_sys\<lparr>ps_map := [(0x8048000, new_region 0x8048000 0x1000 FreeMemory)]\<rparr>"

lemma allocate_second_example:
  "allocate_frame \<lparr>pm_allocator = [7, 0], pm_tracker = t\<rparr> = Inr (0x3000, \<lparr>pm_allocator = [15, 0], pm_tracker = t\<rparr>)"
proof -
  have "find_free_range [7, 0] 1 = Some (frame_range_new 0x3000 0x1000)"
    by (simp add: find_free_range_def find_free_loop.simps total_frame_count_def frame_taken_def)
  moreover have "allocate_range [7, 0] (frame_range_new 0x3000 0x1000) = Inr [15, 0]"
    by code_simp
  ultimately show ?thesis
    by (simp add: allocate_frame_def allocate_first_frame_def bitmap_allocate_frames_def
        get_starting_address_def frame_range_new_def)
qed


section \<open>Access rights of remapped pages\<close>

definition entry_at :: "phys_addr \<Rightarrow> page_sys \<Rightarrow> virt_addr \<Rightarrow> pte" where
  "entry_at dir ps v = get_entry ps (table_of ps dir (get_page_directory_index v)) (get_page_table_index v)"

lemma pagedir_map_entry:
  assumes "dir_inv dir ps" "get_page_directory_index v < 1023" "pagedir_map dir v paddr flags ps = Some ps'"
  shows "entry_at dir ps' v = apply_flags flags (pte_set_present (pte_set_address paddr
      (if pte_is_present (get_entry ps dir (get_page_directory_index v)) then entry_at dir ps v else 0)))"
    "pte_is_present (get_entry ps' dir (get_page_directory_index v))"
proof -
  let ?i = "get_page_directory_index v"
  obtain ps1 where ps1: "ensure_table dir ?i ps = Some ps1"
    using assms(3) by (auto simp: pagedir_map_def Let_def split: option.splits)
  note spec = ensure_table_spec [OF assms(1,2) ps1]
  define t where "t = table_of ps1 dir ?i"
  have td: "t \<noteq> dir" using spec(1,2) assms(2) by (auto simp: dir_inv_def t_def)
  have ps': "ps' = put_entry t (get_page_table_index v) (apply_flags flags (pte_set_present (pte_set_address paddr
      (get_entry ps1 t (get_page_table_index v))))) ps1"
    using assms(3) ps1 by (simp add: pagedir_map_def Let_def t_def table_of_def)
  have "get_entry ps' dir ?i = get_entry ps1 dir ?i"
    using td by (simp add: ps')
  then show "pte_is_present (get_entry ps' dir ?i)" using spec(2) by simp
  have "table_of ps' dir ?i = t"
    using \<open>get_entry ps' dir ?i = get_entry ps1 dir ?i\<close> by (simp add: table_of_def t_def)
  then show "entry_at dir ps' v = apply_flags flags (pte_set_present (pte_set_address paddr
      (if pte_is_present (get_entry ps dir ?i) then entry_at dir ps v else 0)))"
    using spec(5) by (simp add: entry_at_def) (simp add: ps' t_def)
qed

lemma pagedir_unmap_entry:
  assumes "dir_inv dir ps" "get_page_directory_index v < 1023" "pagedir_unmap dir v ps = (Some f, ps')"
  shows "entry_at dir ps' v = pte_clear_present (entry_at dir ps v)"
    "pte_is_present (get_entry ps' dir (get_page_directory_index v))" "dir_inv dir ps'"
proof -
  let ?i = "get_page_directory_index v"
  define t where "t = table_of ps dir ?i"
  have pres: "pte_is_present (get_entry ps dir ?i)"
    and ps': "ps' = put_entry t (get_page_table_index v) (pte_clear_present (get_entry ps t (get_page_table_index v))) ps"
    using assms(3) by (auto simp: pagedir_unmap_def Let_def t_def table_of_def split: if_splits)
  have td: "t \<noteq> dir" using assms(1,2) pres by (auto simp: dir_inv_def t_def)
  have ent: "get_entry ps' dir j = get_entry ps dir j" for j
    using td by (simp add: ps')
  then have tab: "table_of ps' dir j = table_of ps dir j" for j
    by (simp add: table_of_def)
  have phys: "ps_phys ps' = ps_phys ps" by (simp add: ps')
  show "dir_inv dir ps'"
    using assms(1) unfolding dir_inv_def ent tab phys .
  show "pte_is_present (get_entry ps' dir ?i)" using pres ent by simp
  show "entry_at dir ps' v = pte_clear_present (entry_at dir ps v)"
    by (simp add: entry_at_def tab) (simp add: ps' t_def)
qed

lemma write_bit_simps [simp]:
  "bit (pte_set_present e) (Suc 0) \<longleftrightarrow> bit e (Suc 0)" "bit (pte_set_address a e) (Suc 0) \<longleftrightarrow> bit e (Suc 0)"
  "bit (pte_clear_present e) (Suc 0) \<longleftrightarrow> bit e (Suc 0)"
  "bit (apply_flags flags e) (Suc 0) \<longleftrightarrow> bit e (Suc 0) \<or> has_flag flags WRITE_ACCESS"
  by (auto simp: pte_bits apply_flags_def)

text \<open>
  (C35) Unmapping a page clears only the present bit and mapping keeps the old flag bits, so rights are
  never taken back: if a page was mapped writable once, then after unmapping it and mapping a shared
  file page at the same address, whose region flags exclude write access, the entry is still writable.
\<close>

theorem remapped_page_keeps_write_access:
  assumes "dir_inv dir ps" "get_page_directory_index v < 1023" "is_page_aligned p1"
    and "pagedir_map dir v p1 (USER_ACCESS OR WRITE_ACCESS) ps = Some ps1"
    and "pagedir_unmap dir v ps1 = (Some f, ps2)"
    and "mr_backed_by region = FileBacked d t off True"
    and "pagedir_map dir v p2 (get_flags_for_region region) ps2 = Some ps3"
  shows "\<not> has_flag (get_flags_for_region region) WRITE_ACCESS \<and> bit (entry_at dir ps3 v) 1"
proof -
  have w: "has_flag (USER_ACCESS OR WRITE_ACCESS) WRITE_ACCESS"
    by code_simp
  have "\<not> has_flag ((USER_ACCESS OR WRITE_ACCESS) AND NOT WRITE_ACCESS) WRITE_ACCESS"
    by code_simp
  then have nw: "\<not> has_flag (get_flags_for_region region) WRITE_ACCESS"
    using assms(6) by (simp add: get_flags_for_region_def)
  have inv1: "dir_inv dir ps1" using pagedir_map_spec(1) [OF assms(1-4)] .
  note m1 = pagedir_map_entry [OF assms(1,2,4)] and u = pagedir_unmap_entry [OF inv1 assms(2,5)]
  note m2 = pagedir_map_entry [OF u(3) assms(2,7)]
  have "bit (entry_at dir ps3 v) (Suc 0)"
    using m2(1) u(1,2) m1(1) w by simp
  with nw show ?thesis by simp
qed

lemma pagedir_unmap_Some:
  "pte_is_present (get_entry ps dir (get_page_directory_index v)) \<Longrightarrow> pte_is_present (entry_at dir ps v) \<Longrightarrow>
   \<exists>f ps'. pagedir_unmap dir v ps = (Some f, ps')"
  by (simp add: pagedir_unmap_def entry_at_def table_of_def Let_def)

lemma pagedir_map_Some:
  "pte_is_present (get_entry ps dir (get_page_directory_index v)) \<Longrightarrow> \<exists>ps'. pagedir_map dir v paddr flags ps = Some ps'"
  by (simp add: pagedir_map_def ensure_table_def Let_def)

theorem remapped_page_keeps_write_access_witness:
  "\<exists>ps1 f ps2 ps3. pagedir_map 0x1000 0x8048000 0x7000 (USER_ACCESS OR WRITE_ACCESS) empty_page_sys = Some ps1 \<and>
     pagedir_unmap 0x1000 0x8048000 ps1 = (Some f, ps2) \<and>
     pagedir_map 0x1000 0x8048000 0x9000 (get_flags_for_region (new_region 0x8048000 0x1000 (FileBacked 1 1 0 True))) ps2 = Some ps3 \<and>
     bit (entry_at 0x1000 ps3 0x8048000) 1"
proof -
  let ?v = "0x8048000 :: u32" and ?r = "new_region 0x8048000 0x1000 (FileBacked 1 1 0 True)"
  have user: "get_page_directory_index ?v < 1023" and al: "is_page_aligned 0x7000"
    by (simp_all add: get_page_directory_index_def is_page_aligned_def)
  obtain ps1 where ps1: "pagedir_map 0x1000 ?v 0x7000 (USER_ACCESS OR WRITE_ACCESS) empty_page_sys = Some ps1"
    by (simp add: pagedir_map_def ensure_table_def allocate_first_example get_entry_empty Let_def)
  note m1 = pagedir_map_entry [OF dir_inv_empty user ps1] and inv1 = pagedir_map_spec(1) [OF dir_inv_empty user al ps1]
  obtain f ps2 where ps2: "pagedir_unmap 0x1000 ?v ps1 = (Some f, ps2)"
    using pagedir_unmap_Some [OF m1(2)] m1(1) by auto
  obtain ps3 where ps3: "pagedir_map 0x1000 ?v 0x9000 (get_flags_for_region ?r) ps2 = Some ps3"
    using pagedir_map_Some [OF pagedir_unmap_entry(2) [OF inv1 user ps2]] by blast
  show ?thesis
    using remapped_page_keeps_write_access [OF dir_inv_empty user al ps1 ps2 _ ps3] ps1 ps2 ps3 by auto
qed

section \<open>File pages\<close>

lemma release_page_files:
  "release_page current dir region off ps = Some (Inr ps') \<Longrightarrow> ur_kind region = U_FileBacked d t o0 shared \<Longrightarrow>
   k \<noteq> (d, t, o0) \<Longrightarrow> ps_files ps' k = ps_files ps k"
  by (auto simp: release_page_def pagedir_unmap_def external_unmap_def put_entry_def untrack_file_backed_page_def Let_def
      split: option.splits prod.splits sum.splits if_splits)

text \<open>
  (C36) Releasing a region of a shared file mapping clears the page tracker only at the region's own file
  offset: whatever frames the loop frees, the entries of the later pages, tracked at their own offsets,
  are still there afterwards.
\<close>

theorem release_leaves_later_pages_tracked:
  assumes "ur_kind region = U_FileBacked d t off shared" "release_pages current dir region is ps = Some (Inr ps')"
  shows "\<forall>k. k \<noteq> (d, t, off) \<longrightarrow> ps_files ps' k = ps_files ps k"
  using assms
proof (induction "is" arbitrary: ps)
  case (Cons i "is")
  then obtain ps1 where "release_page current dir region (of_nat (i * 4096)) ps = Some (Inr ps1)"
      "release_pages current dir region is ps1 = Some (Inr ps')"
    by (auto split: option.splits sum.splits)
  with Cons.IH [of ps1] Cons.prems(1) show ?case
    using release_page_files by metis
qed simp

text \<open>Two pages of a shared mapping, each with its frame, and the tracker entries of both.\<close>

definition shared_file_example :: page_sys where
  "shared_file_example =
     \<lparr>ps_phys = \<lparr>pm_allocator = [0x1f, 0], pm_tracker = tree_add 0x3000 (tree_add 0x2000 address_tree_new)\<rparr>,
      ps_tables = (\<lambda>f i. if f = 0x1000 \<and> i = 0x20 then 0x4007
                         else if f = 0x4000 \<and> i = 0x48 then 0x2005
                         else if f = 0x4000 \<and> i = 0x49 then 0x3005 else 0),
      ps_bytes = (\<lambda>_. 0), ps_map = [],
      ps_files = [(1, 1, 0) \<mapsto> 0x2000, (1, 1, 0x1000) \<mapsto> 0x3000]\<rparr>"

definition shared_file_region :: unmapped_region where
  "shared_file_region = \<lparr>ur_address = 0x8048000, ur_size = 0x2000, ur_kind = U_FileBacked 1 1 0 True\<rparr>"

lemma shared_file_example_released:
  "case release_pages True 0x1000 shared_file_region [0, 1] shared_file_example of
     Some (Inr ps') \<Rightarrow> \<not> is_address_allocated (pm_allocator (ps_phys ps')) 0x3000
   | _ \<Rightarrow> False"
  by code_simp

theorem release_leaves_later_pages_tracked_witness:
  "\<exists>ps'. release_pages True 0x1000 shared_file_region [0, 1] shared_file_example = Some (Inr ps') \<and>
     \<not> is_address_allocated (pm_allocator (ps_phys ps')) 0x3000 \<and>
     get_file_backed_page (ps_files ps') 1 1 0x1000 = Some 0x3000"
proof -
  obtain ps' where ps': "release_pages True 0x1000 shared_file_region [0, 1] shared_file_example = Some (Inr ps')"
      "\<not> is_address_allocated (pm_allocator (ps_phys ps')) 0x3000"
    using shared_file_example_released by (auto split: option.splits sum.splits)
  have "ps_files ps' (1, 1, 0x1000) = ps_files shared_file_example (1, 1, 0x1000)"
    using release_leaves_later_pages_tracked [OF _ ps'(1), of 1 1 0 True] by (simp add: shared_file_region_def)
  then show ?thesis
    using ps' by (auto simp: get_file_backed_page_def shared_file_example_def)
qed


end
