(* ===== verification/Byte_Order.thy ===== *)
theory Byte_Order
  imports Idos_Prelude
begin

text \<open>
  Integers as sequences of bytes: the \<^verbatim>\<open>to_le_bytes\<close>, \<^verbatim>\<open>from_le_bytes\<close>, \<^verbatim>\<open>to_be_bytes\<close> and
  \<^verbatim>\<open>from_be_bytes\<close> of Rust's standard library, at the widths the sources use, with the round trips in
  both directions. The other components that pack and unpack integers by shifts and masks are related
  to these functions.
\<close>

definition byte_of :: "nat \<Rightarrow> 'a::len word \<Rightarrow> u8" where
  "byte_of k w = ucast (drop_bit (8 * k) w)"

definition le16 :: "u8 \<Rightarrow> u8 \<Rightarrow> u16" where
  "le16 b0 b1 = ucast b0 OR push_bit 8 (ucast b1)"

definition le32 :: "u8 \<Rightarrow> u8 \<Rightarrow> u8 \<Rightarrow> u8 \<Rightarrow> u32" where
  "le32 b0 b1 b2 b3 = ucast b0 OR push_bit 8 (ucast b1) OR push_bit 16 (ucast b2) OR push_bit 24 (ucast b3)"

definition le16_bytes :: "u16 \<Rightarrow> u8 list" where
  "le16_bytes w = [byte_of 0 w, byte_of 1 w]"

definition le32_bytes :: "u32 \<Rightarrow> u8 list" where
  "le32_bytes w = [byte_of 0 w, byte_of 1 w, byte_of 2 w, byte_of 3 w]"

definition be16_bytes :: "u16 \<Rightarrow> u8 list" where
  "be16_bytes w = rev (le16_bytes w)"

definition be32_bytes :: "u32 \<Rightarrow> u8 list" where
  "be32_bytes w = rev (le32_bytes w)"

lemma bit_byte_of: "bit (byte_of k w) n \<longleftrightarrow> n < 8 \<and> bit w (8 * k + n)"
  by (auto simp: byte_of_def bit_ucast_iff bit_drop_bit_eq add.commute)

lemma bit_le16: "bit (le16 b0 b1) n \<longleftrightarrow> (if n < 8 then bit b0 n else n < 16 \<and> bit b1 (n - 8))"
proof (cases "n < 8")
  case True
  then show ?thesis
    by (simp add: le16_def bit_or_iff bit_push_bit_iff bit_ucast_iff)
next
  case False
  then have "\<not> bit b0 n" using bit_imp_le_length [of b0 n] by auto
  then show ?thesis
    using False by (auto simp: le16_def bit_or_iff bit_push_bit_iff bit_ucast_iff)
qed

lemma bit_le32:
  "bit (le32 b0 b1 b2 b3) n \<longleftrightarrow>
     (if n < 8 then bit b0 n else if n < 16 then bit b1 (n - 8)
      else if n < 24 then bit b2 (n - 16) else n < 32 \<and> bit b3 (n - 24))"
proof -
  have b: "\<not> bit (b :: u8) k" if "8 \<le> k" for b k
    using bit_imp_le_length [of b k] that by auto
  show ?thesis
    by (auto simp: le32_def bit_or_iff bit_push_bit_iff bit_ucast_iff b not_less)
qed

lemma le16_inverse [simp]: "le16 (byte_of 0 w) (byte_of 1 w) = w"
proof (rule bit_word_eqI)
  fix n assume "n < LENGTH(16)"
  then show "bit (le16 (byte_of 0 w) (byte_of 1 w)) n = bit w n"
    by (auto simp: bit_le16 bit_byte_of)
qed

lemma le32_inverse [simp]: "le32 (byte_of 0 w) (byte_of 1 w) (byte_of 2 w) (byte_of 3 w) = w"
proof (rule bit_word_eqI)
  fix n assume "n < LENGTH(32)"
  then show "bit (le32 (byte_of 0 w) (byte_of 1 w) (byte_of 2 w) (byte_of 3 w)) n = bit w n"
    by (auto simp: bit_le32 bit_byte_of)
qed

lemma le16_bytes_inverse [simp]: "byte_of 0 (le16 b0 b1) = b0" "byte_of 1 (le16 b0 b1) = b1"
  by (rule bit_word_eqI; auto simp: bit_le16 bit_byte_of)+

lemma le32_bytes_inverse [simp]:
  "byte_of 0 (le32 b0 b1 b2 b3) = b0" "byte_of 1 (le32 b0 b1 b2 b3) = b1"
  "byte_of 2 (le32 b0 b1 b2 b3) = b2" "byte_of 3 (le32 b0 b1 b2 b3) = b3"
  by (rule bit_word_eqI; auto simp: bit_le32 bit_byte_of)+

lemmas byte_inverse_Suc [simp] = le16_inverse [unfolded One_nat_def] le32_inverse [unfolded One_nat_def]
  le16_bytes_inverse(2) [unfolded One_nat_def] le32_bytes_inverse(2) [unfolded One_nat_def]

lemma length_bytes [simp]:
  "length (le16_bytes w) = 2" "length (le32_bytes v) = 4" "length (be16_bytes w) = 2" "length (be32_bytes v) = 4"
  by (simp_all add: le16_bytes_def le32_bytes_def be16_bytes_def be32_bytes_def)

end
