(* ===== verification/Task_State.thy ===== *)
theory Task_State
  imports Mapped_Memory Slot_List Byte_Order
begin

text \<open>
  The task of the kernel (\<^verbatim>\<open>kernel/src/task/state.rs\<close>) with its message queue
  (\<^verbatim>\<open>kernel/src/task/messaging.rs\<close>), its arguments (\<^verbatim>\<open>kernel/src/task/args.rs\<close>) and its kernel stack.

  A task is a record with the fields whose operations are modelled; the saved registers, the FPU image
  and the descriptor table are data of the processor and are left out. \<^verbatim>\<open>Box<[u8]>\<close> of the kernel stack
  is the address of its first byte with its bytes. A panic of the source is \<open>None\<close>.
\<close>

section \<open>Messages\<close>

type_synonym task_id = u32

record message =
  message_type :: u32
  unique_id :: u32
  msg_args :: "u32 list"

definition message_empty :: message where
  "message_empty = \<lparr>message_type = 0, unique_id = 0, msg_args = replicate 6 0\<rparr>"

definition set_args :: "u32 list \<Rightarrow> message \<Rightarrow> message" where
  "set_args args m = m\<lparr>msg_args := args\<rparr>"

record message_packet =
  mp_from :: task_id
  mp_message :: message

record enqueued_message =
  em_packet :: message_packet
  expiration_ticks :: u32

type_synonym message_queue = "enqueued_message list"

definition message_queue_new :: message_queue where
  "message_queue_new = []"

fun remove_expired_items :: "u32 \<Rightarrow> message_queue \<Rightarrow> message_queue" where
  "remove_expired_items current_ticks [] = []"
| "remove_expired_items current_ticks (entry # q) =
     (if current_ticks < expiration_ticks entry then entry # q
      else remove_expired_items current_ticks q)"

definition mq_add :: "task_id \<Rightarrow> message \<Rightarrow> u32 \<Rightarrow> u32 \<Rightarrow> message_queue \<Rightarrow> message_queue" where
  "mq_add sender msg current_ticks expiration q =
     remove_expired_items current_ticks q @
       [\<lparr>em_packet = \<lparr>mp_from = sender, mp_message = msg\<rparr>, expiration_ticks = expiration\<rparr>]"

definition mq_read :: "u32 \<Rightarrow> message_queue \<Rightarrow> (message_packet option \<times> bool) \<times> message_queue" where
  "mq_read current_ticks q =
     (case remove_expired_items current_ticks q of
        [] \<Rightarrow> ((None, False), [])
      | entry # rest \<Rightarrow> ((Some (em_packet entry), rest \<noteq> []), rest))"

definition mq_has_messages :: "u32 \<Rightarrow> message_queue \<Rightarrow> bool \<times> message_queue" where
  "mq_has_messages current_ticks q =
     (let q' = remove_expired_items current_ticks q in (q' \<noteq> [], q'))"

section \<open>Arguments\<close>

record exec_args =
  ea_raw :: "u8 list"
  ea_lengths :: "u32 list"

definition exec_args_new :: exec_args where
  "exec_args_new = \<lparr>ea_raw = [], ea_lengths = []\<rparr>"

definition args_add :: "u8 list \<Rightarrow> exec_args \<Rightarrow> exec_args" where
  "args_add arg a = \<lparr>ea_raw = ea_raw a @ arg @ [0], ea_lengths = ea_lengths a @ [of_nat (length arg) + 1]\<rparr>"

definition arg_count :: "exec_args \<Rightarrow> u32" where
  "arg_count a = of_nat (length (ea_lengths a))"

definition args_stack_size :: "exec_args \<Rightarrow> nat" where
  "args_stack_size a =
     (let string_length = length (ea_raw a);
          padded = (if string_length mod 4 \<noteq> 0 then string_length + (4 - string_length mod 4) else string_length)
      in padded + length (ea_lengths a) * 4 + 4)"

section \<open>The task\<close>

datatype block_type = Sleep | Futex | FileMapping

datatype run_state = Uninitialized | Initialized | Running | Terminated | Blocked "u32 option" block_type

datatype io_error =
    FileSystemError | NotFound | FileHandleInvalid | FileHandleWrongType | OperationFailed
  | UnsupportedOperation | UnsupportedCommand | AlreadyOpen | WriteToClosedIO | InvalidArgument
  | ResourceInUse | ResourceLimitExceeded | CrossDeviceLink | UnknownIoError

type_synonym io_result = "io_error + u32"

record kernel_stack =
  ks_base :: u32
  ks_bytes :: "u8 list"

record task =
  t_id :: task_id
  t_parent :: task_id
  t_state :: run_state
  t_created_at :: u32
  t_stack :: "kernel_stack option"
  t_stack_pointer :: u32
  t_page_directory :: phys_addr
  t_memory :: mapped_memory
  t_messages :: message_queue
  t_filename :: string
  t_args :: exec_args
  t_handles :: "u32 handle_table"
  t_map_result :: "io_result option"

definition task_new :: "task_id \<Rightarrow> task_id \<Rightarrow> kernel_stack \<Rightarrow> u32 \<Rightarrow> task" where
  "task_new i parent stack now =
     \<lparr>t_id = i, t_parent = parent, t_state = Uninitialized, t_created_at = now, t_stack = Some stack,
      t_stack_pointer = ks_base stack + of_nat (length (ks_bytes stack)) - 4,
      t_page_directory = 0, t_memory = mapped_memory_new, t_messages = message_queue_new, t_filename = [],
      t_args = exec_args_new, t_handles = handle_table_new, t_map_result = None\<rparr>"

definition create_initial_task :: "kernel_stack \<Rightarrow> u32 \<Rightarrow> task" where
  "create_initial_task stack now =
     (task_new 0 0 stack now)\<lparr>t_state := Running, t_filename := ''IDLE''\<rparr>"

definition get_stack_top :: "task \<Rightarrow> u32 option" where
  "get_stack_top t = map_option (\<lambda>s. ks_base s + of_nat (length (ks_bytes s))) (t_stack t)"

definition reset_stack_pointer :: "task \<Rightarrow> task option" where
  "reset_stack_pointer t = map_option (\<lambda>top_addr. t\<lparr>t_stack_pointer := top_addr\<rparr>) (get_stack_top t)"

definition stack_push_u8 :: "u8 \<Rightarrow> task \<Rightarrow> task option" where
  "stack_push_u8 v t =
     (let esp = t_stack_pointer t - 1
      in case t_stack t of
           None \<Rightarrow> None
         | Some s \<Rightarrow>
             let offset = unat (esp - ks_base s)
             in if offset < length (ks_bytes s)
                then Some (t\<lparr>t_stack_pointer := esp, t_stack := Some (s\<lparr>ks_bytes := (ks_bytes s)[offset := v]\<rparr>)\<rparr>)
                else None)"

definition stack_push_u32 :: "u32 \<Rightarrow> task \<Rightarrow> task option" where
  "stack_push_u32 v t =
     (let esp = t_stack_pointer t - 4
      in case t_stack t of
           None \<Rightarrow> None
         | Some s \<Rightarrow>
             let offset = unat (esp - ks_base s)
             in if offset + 3 < length (ks_bytes s)
                then Some (t\<lparr>t_stack_pointer := esp,
                  t_stack := Some (s\<lparr>ks_bytes := (ks_bytes s)
                    [offset := ucast (drop_bit 0 (v AND 0x000000ff)),
                     offset + 1 := ucast (drop_bit 8 (v AND 0x0000ff00)),
                     offset + 2 := ucast (drop_bit 16 (v AND 0x00ff0000)),
                     offset + 3 := ucast (drop_bit 24 (v AND 0xff000000))]\<rparr>)\<rparr>)
                else None)"

fun push_words :: "u32 list \<Rightarrow> task \<Rightarrow> task option" where
  "push_words [] t = Some t"
| "push_words (v # vs) t = (case stack_push_u32 v t of None \<Rightarrow> None | Some t' \<Rightarrow> push_words vs t')"

definition initialize_registers :: "task \<Rightarrow> task option" where
  "initialize_registers t = push_words [0, 0, 0, 0, 0, 0, 0] t"

definition set_entry_point :: "u32 \<Rightarrow> task \<Rightarrow> task option" where
  "set_entry_point f t = (case initialize_registers t of None \<Rightarrow> None | Some t' \<Rightarrow> stack_push_u32 f t')"

definition can_resume :: "task \<Rightarrow> bool" where
  "can_resume t = (case t_state t of Initialized \<Rightarrow> True | Running \<Rightarrow> True | _ \<Rightarrow> False)"

definition make_runnable :: "task \<Rightarrow> task" where
  "make_runnable t = (case t_state t of Uninitialized \<Rightarrow> t\<lparr>t_state := Initialized\<rparr> | _ \<Rightarrow> t)"

definition set_filename :: "string \<Rightarrow> task \<Rightarrow> task" where
  "set_filename name t = t\<lparr>t_filename := name\<rparr>"

definition task_terminate :: "task \<Rightarrow> task" where
  "task_terminate t = t\<lparr>t_state := Terminated\<rparr>"

definition is_terminated :: "task \<Rightarrow> bool" where
  "is_terminated t = (case t_state t of Terminated \<Rightarrow> True | _ \<Rightarrow> False)"

definition update_timeout :: "u32 \<Rightarrow> task \<Rightarrow> bool \<times> task" where
  "update_timeout ms t =
     (case t_state t of
        Blocked (Some left) b \<Rightarrow>
          if left \<le> ms then (True, t\<lparr>t_state := Running\<rparr>)
          else (False, t\<lparr>t_state := Blocked (Some (left - ms)) b\<rparr>)
      | _ \<Rightarrow> (False, t))"

definition task_sleep :: "u32 \<Rightarrow> task \<Rightarrow> task option" where
  "task_sleep timeout_ms t =
     (case t_state t of Running \<Rightarrow> Some (t\<lparr>t_state := Blocked (Some timeout_ms) Sleep\<rparr>) | _ \<Rightarrow> None)"

definition read_message :: "u32 \<Rightarrow> task \<Rightarrow> (message_packet option \<times> bool) \<times> task" where
  "read_message current_ticks t = (let (r, q) = mq_read current_ticks (t_messages t) in (r, t\<lparr>t_messages := q\<rparr>))"

definition receive_message :: "u32 \<Rightarrow> task_id \<Rightarrow> message \<Rightarrow> u32 \<Rightarrow> task \<Rightarrow> task" where
  "receive_message current_ticks sender msg expiration t =
     t\<lparr>t_messages := mq_add sender msg current_ticks expiration (t_messages t)\<rparr>"

definition task_futex_wait :: "u32 option \<Rightarrow> task \<Rightarrow> task" where
  "task_futex_wait timeout t = t\<lparr>t_state := Blocked timeout Futex\<rparr>"

definition task_futex_wake :: "task \<Rightarrow> bool \<times> task" where
  "task_futex_wake t =
     (case t_state t of Blocked _ Futex \<Rightarrow> (True, t\<lparr>t_state := Running\<rparr>) | _ \<Rightarrow> (False, t))"

definition begin_file_mapping_request :: "task \<Rightarrow> task" where
  "begin_file_mapping_request t =
     (case t_state t of
        Running \<Rightarrow> (if t_map_result t \<noteq> None then t else t\<lparr>t_state := Blocked None FileMapping\<rparr>)
      | _ \<Rightarrow> t)"

definition resolve_file_mapping_request :: "io_result \<Rightarrow> task \<Rightarrow> bool \<times> task" where
  "resolve_file_mapping_request result t =
     (let t' = t\<lparr>t_map_result := Some result\<rparr>
      in case t_state t of Blocked _ FileMapping \<Rightarrow> (True, t'\<lparr>t_state := Running\<rparr>) | _ \<Rightarrow> (False, t'))"

definition push_args :: "u8 list list \<Rightarrow> task \<Rightarrow> task" where
  "push_args args t = t\<lparr>t_args := fold args_add args (t_args t)\<rparr>"

section \<open>Error codes\<close>

definition io_error_code :: "io_error \<Rightarrow> u32" where
  "io_error_code e =
     (case e of FileSystemError \<Rightarrow> 1 | NotFound \<Rightarrow> 2 | FileHandleInvalid \<Rightarrow> 3 | FileHandleWrongType \<Rightarrow> 4
      | OperationFailed \<Rightarrow> 5 | UnsupportedOperation \<Rightarrow> 6 | UnsupportedCommand \<Rightarrow> 7 | AlreadyOpen \<Rightarrow> 8
      | WriteToClosedIO \<Rightarrow> 9 | InvalidArgument \<Rightarrow> 10 | ResourceInUse \<Rightarrow> 11 | ResourceLimitExceeded \<Rightarrow> 12
      | CrossDeviceLink \<Rightarrow> 13 | UnknownIoError \<Rightarrow> 0xffffffff)"

definition io_error_try_from :: "u32 \<Rightarrow> io_error" where
  "io_error_try_from v =
     (if v = 1 then FileSystemError else if v = 2 then NotFound else if v = 3 then FileHandleInvalid
      else if v = 4 then FileHandleWrongType else if v = 5 then OperationFailed
      else if v = 6 then UnsupportedOperation else if v = 7 then UnsupportedCommand
      else if v = 8 then AlreadyOpen else if v = 9 then WriteToClosedIO else if v = 10 then InvalidArgument
      else if v = 11 then ResourceInUse else if v = 12 then ResourceLimitExceeded
      else if v = 13 then CrossDeviceLink else UnknownIoError)"

lemma io_error_roundtrip [simp]: "io_error_try_from (io_error_code e) = e"
  by (cases e) (simp_all add: io_error_try_from_def io_error_code_def)

section \<open>Delivery of messages\<close>

text \<open>
  The queue drops expired messages only at its front, when it is used. Specification: a message is
  available until its expiration; reading takes the oldest available one.
\<close>

definition available :: "u32 \<Rightarrow> message_queue \<Rightarrow> message_queue" where
  "available now q = filter (\<lambda>e. now < expiration_ticks e) q"

datatype mq_op = Mq_Send task_id message u32 | Mq_Read | Mq_Poll

datatype mq_answer = Mq_Sent | Mq_Packet "message_packet option" | Mq_Polled bool

fun mq_run :: "(u32 \<times> mq_op) list \<Rightarrow> message_queue \<Rightarrow> mq_answer list" where
  "mq_run [] q = []"
| "mq_run ((now, Mq_Send sender msg expiration) # ops) q = Mq_Sent # mq_run ops (mq_add sender msg now expiration q)"
| "mq_run ((now, Mq_Read) # ops) q =
     Mq_Packet (fst (fst (mq_read now q))) # mq_run ops (snd (mq_read now q))"
| "mq_run ((now, Mq_Poll) # ops) q = Mq_Polled (fst (mq_has_messages now q)) # mq_run ops (snd (mq_has_messages now q))"

fun mq_spec :: "(u32 \<times> mq_op) list \<Rightarrow> message_queue \<Rightarrow> mq_answer list" where
  "mq_spec [] q = []"
| "mq_spec ((now, Mq_Send sender msg expiration) # ops) q =
     Mq_Sent # mq_spec ops (q @ [\<lparr>em_packet = \<lparr>mp_from = sender, mp_message = msg\<rparr>, expiration_ticks = expiration\<rparr>])"
| "mq_spec ((now, Mq_Read) # ops) q =
     (case available now q of
        [] \<Rightarrow> Mq_Packet None # mq_spec ops []
      | e # rest \<Rightarrow> Mq_Packet (Some (em_packet e)) # mq_spec ops rest)"
| "mq_spec ((now, Mq_Poll) # ops) q = Mq_Polled (available now q \<noteq> []) # mq_spec ops q"

lemma available_remove_expired: "available now (remove_expired_items now q) = available now q"
  by (induction now q rule: remove_expired_items.induct) (simp_all add: available_def)

lemma available_later: "now \<le> later \<Longrightarrow> available later (available now q) = available later q"
  by (auto simp: available_def intro!: filter_cong)

lemma available_later_cong:
  "now \<le> later \<Longrightarrow> available now q = available now r \<Longrightarrow> available later q = available later r"
  using available_later by metis

lemma remove_expired_Nil: "remove_expired_items now q = [] \<longleftrightarrow> available now q = []"
  by (induction now q rule: remove_expired_items.induct) (simp_all add: available_def)

lemma remove_expired_Cons:
  "remove_expired_items now q = e # rest \<Longrightarrow> available now q = e # available now rest"
  by (induction now q rule: remove_expired_items.induct) (auto simp: available_def split: if_splits)

lemma mq_read_available:
  "available now q = [] \<Longrightarrow> mq_read now q = ((None, False), [])"
  "available now q = e # rest \<Longrightarrow>
    fst (fst (mq_read now q)) = Some (em_packet e) \<and> available now (snd (mq_read now q)) = rest"
  using remove_expired_Nil [of now q] remove_expired_Cons [of now q]
  by (auto simp: mq_read_def split: list.splits)

lemma mq_run_refines:
  assumes "sorted (map fst ops)" "\<forall>now \<in> fst ` set ops. t \<le> now" "available t q = available t r"
  shows "mq_run ops q = mq_spec ops r"
  using assms
proof (induction ops arbitrary: t q r)
  case (Cons p ops)
  obtain now op where p: "p = (now, op)" by (cases p)
  have le: "t \<le> now" and rest: "sorted (map fst ops)" "\<forall>later \<in> fst ` set ops. now \<le> later"
    using Cons.prems(1,2) by (auto simp: p)
  have eq: "available now q = available now r"
    using le Cons.prems(3) by (rule available_later_cong)
  note IH = Cons.IH [OF rest]
  show ?case
  proof (cases op)
    case (Mq_Send sender msg expiration)
    have "available now (mq_add sender msg now expiration q) = available now
        (r @ [\<lparr>em_packet = \<lparr>mp_from = sender, mp_message = msg\<rparr>, expiration_ticks = expiration\<rparr>])"
      using eq available_remove_expired [of now q] by (simp add: mq_add_def available_def)
    from IH [OF this] show ?thesis by (simp add: p Mq_Send)
  next
    case Mq_Read
    show ?thesis
    proof (cases "available now r")
      case Nil
      then show ?thesis
        using IH [of "[]" "[]"] mq_read_available(1) eq by (simp add: p Mq_Read)
    next
      case (Cons e rest')
      have "\<forall>m \<in> set (available now r). now < expiration_ticks m" by (simp add: available_def)
      then have "available now rest' = rest'"
        unfolding Cons by (simp add: available_def)
      then show ?thesis
        using IH [of "snd (mq_read now q)" rest'] mq_read_available(2) [of now q e rest'] eq Cons
        by (simp add: p Mq_Read)
    qed
  next
    case Mq_Poll
    have "available now (remove_expired_items now q) = available now r"
      using eq available_remove_expired by simp
    from IH [OF this] show ?thesis
      using remove_expired_Nil [of now q] eq by (simp add: p Mq_Poll mq_has_messages_def Let_def)
  qed
qed simp

text \<open>
  (C23) As long as the system clock does not run backwards, a task's message queue delivers every message
  exactly once and in the order of sending unless it expires first, never delivers an expired one, and
  reports waiting messages exactly when there is one to deliver: the queue that removes expired
  entries only at its front answers every sequence of requests as the specification does.
\<close>

theorem messages_in_order_until_expiry:
  "sorted (map fst ops) \<Longrightarrow> mq_run ops message_queue_new = mq_spec ops message_queue_new"
  by (rule mq_run_refines [where t = 0]) (simp_all add: message_queue_new_def)

theorem messages_in_order_until_expiry_witness:
  "mq_run [(0, Mq_Send 10 message_empty 2000), (5, Mq_Send 11 message_empty 9000), (3000, Mq_Read), (3000, Mq_Read)]
      message_queue_new =
    [Mq_Sent, Mq_Sent, Mq_Packet (Some \<lparr>mp_from = 11, mp_message = message_empty\<rparr>), Mq_Packet None]"
proof -
  let ?ops = "[(0, Mq_Send 10 message_empty 2000), (5, Mq_Send 11 message_empty 9000), (3000, Mq_Read), (3000, Mq_Read)]"
  have "mq_spec ?ops message_queue_new =
      [Mq_Sent, Mq_Sent, Mq_Packet (Some \<lparr>mp_from = 11, mp_message = message_empty\<rparr>), Mq_Packet None]"
    by (simp add: message_queue_new_def available_def)
  then show ?thesis
    using messages_in_order_until_expiry [of ?ops] by simp
qed

text \<open>
  The flag that \<open>mq_read\<close> returns is weaker than \<open>mq_has_messages\<close>: a reader can be told that there is
  more to read when everything left in the queue has expired.
\<close>

theorem read_reports_expired_messages_as_waiting:
  "let q = mq_add 2 message_empty 0 100 (mq_add 1 message_empty 0 5000 message_queue_new);
       ((packet, has_more), q') = mq_read 200 q
   in packet \<noteq> None \<and> has_more \<and> \<not> fst (mq_has_messages 200 q') \<and> fst (fst (mq_read 200 q')) = None"
  by (simp add: Let_def mq_add_def mq_read_def mq_has_messages_def message_queue_new_def)

section \<open>Timeouts\<close>

lemma update_timeout_Running:
  "t_state t = Running \<Longrightarrow> snd (update_timeout ms t) = t"
  by (simp add: update_timeout_def)

lemma update_timeout_blocked:
  assumes "t_state t = Blocked (Some left) b"
  shows "t_state (snd (update_timeout ms t)) = (if left \<le> ms then Running else Blocked (Some (left - ms)) b)"
  using assms by (simp add: update_timeout_def)

lemma funpow_update_Running:
  "t_state t = Running \<Longrightarrow> ((snd \<circ> update_timeout ms) ^^ n) t = t"
  by (induction n) (simp_all add: update_timeout_Running)

text \<open>
  (C24) A task that blocks with a timeout of \<open>left\<close> milliseconds is resumed by the first clock tick at which
  the elapsed time reaches the timeout, and by no earlier one; until then the remaining time is exact
  and the reason of blocking is kept.
\<close>

theorem timeout_expires_on_time:
  assumes "t_state t = Blocked (Some left) b" "0 < ms"
  shows "t_state (((snd \<circ> update_timeout ms) ^^ Suc n) t) =
    (if Suc n * unat ms < unat left then Blocked (Some (left - of_nat (Suc n) * ms)) b else Running)"
  using assms
proof (induction n arbitrary: t left)
  case 0
  then show ?case by (auto simp: update_timeout_blocked word_le_nat_alt)
next
  case (Suc n)
  let ?t = "snd (update_timeout ms t)"
  have step: "((snd \<circ> update_timeout ms) ^^ Suc (Suc n)) t = ((snd \<circ> update_timeout ms) ^^ Suc n) ?t"
    by (simp only: funpow_Suc_right o_apply)
  show ?case
  proof (cases "left \<le> ms")
    case True
    then have "t_state ?t = Running" using Suc.prems by (simp add: update_timeout_blocked)
    moreover have "\<not> Suc (Suc n) * unat ms < unat left" using True by (simp add: word_le_nat_alt)
    ultimately show ?thesis by (simp only: step funpow_update_Running) simp
  next
    case False
    then have b: "t_state ?t = Blocked (Some (left - ms)) b" using Suc.prems by (simp add: update_timeout_blocked)
    have "unat (left - ms) = unat left - unat ms" "unat ms < unat left"
      using False by (simp_all add: unat_sub word_le_nat_alt)
    then have "Suc n * unat ms < unat (left - ms) \<longleftrightarrow> Suc (Suc n) * unat ms < unat left"
      by simp linarith
    then show ?thesis
      using Suc.IH [OF b Suc.prems(2)] by (simp only: step) (simp add: algebra_simps)
  qed
qed

theorem timeout_expires_on_time_witness:
  "let t = (task_new 3 0 \<lparr>ks_base = 0, ks_bytes = []\<rparr> 0)\<lparr>t_state := Blocked (Some 25) Sleep\<rparr>
   in t_state (((snd \<circ> update_timeout 10) ^^ Suc 1) t) = Blocked (Some 5) Sleep \<and>
      t_state (((snd \<circ> update_timeout 10) ^^ Suc 2) t) = Running"
proof -
  let ?t = "(task_new 3 0 \<lparr>ks_base = 0, ks_bytes = []\<rparr> 0)\<lparr>t_state := Blocked (Some 25) Sleep\<rparr>"
  have "t_state ?t = Blocked (Some 25) Sleep" by simp
  note timeout_expires_on_time [OF this, of 10 1] timeout_expires_on_time [OF this, of 10 2]
  then show ?thesis by (simp add: Let_def)
qed

section \<open>The kernel stack\<close>

lemma stack_bytes:
  fixes v :: u32
  shows "ucast (drop_bit 0 (v AND 0x000000ff)) = byte_of 0 v" "ucast (drop_bit 8 (v AND 0x0000ff00)) = byte_of 1 v"
    "ucast (drop_bit 16 (v AND 0x00ff0000)) = byte_of 2 v" "ucast (drop_bit 24 (v AND 0xff000000)) = byte_of 3 v"
proof -
  have m: "ucast (drop_bit (8 * k) (v AND push_bit (8 * k) (mask 8))) = byte_of k v" if "k < 4" for k
    using that by (intro bit_word_eqI)
      (auto simp: bit_byte_of bit_ucast_iff bit_drop_bit_eq bit_and_iff bit_push_bit_iff bit_mask_iff add.commute)
  have c: "(0xff :: u32) = push_bit (8 * 0) (mask 8)" "(0xff00 :: u32) = push_bit (8 * 1) (mask 8)"
    "(0xff0000 :: u32) = push_bit (8 * 2) (mask 8)" "(0xff000000 :: u32) = push_bit (8 * 3) (mask 8)"
    by (simp_all add: mask_numeral)
  show "ucast (drop_bit 0 (v AND 0x000000ff)) = byte_of 0 v" "ucast (drop_bit 8 (v AND 0x0000ff00)) = byte_of 1 v"
    "ucast (drop_bit 16 (v AND 0x00ff0000)) = byte_of 2 v" "ucast (drop_bit 24 (v AND 0xff000000)) = byte_of 3 v"
    using m [of 0] m [of 1] m [of 2] m [of 3] unfolding c by simp_all
qed

text \<open>The words on the stack from the stack pointer up to the top.\<close>

definition stack_offset :: "task \<Rightarrow> kernel_stack \<Rightarrow> nat" where
  "stack_offset t s = unat (t_stack_pointer t - ks_base s)"

definition word_at :: "u8 list \<Rightarrow> nat \<Rightarrow> u32" where
  "word_at bs i = le32 (bs ! i) (bs ! (i + 1)) (bs ! (i + 2)) (bs ! (i + 3))"

lemma stack_push_u32_spec:
  assumes "t_stack t = Some s" "4 \<le> stack_offset t s" "stack_offset t s \<le> length (ks_bytes s)"
  shows "\<exists>t' s'. stack_push_u32 v t = Some t' \<and> t_stack t' = Some s' \<and> t_stack_pointer t' = t_stack_pointer t - 4 \<and>
    ks_base s' = ks_base s \<and> length (ks_bytes s') = length (ks_bytes s) \<and>
    stack_offset t' s' = stack_offset t s - 4 \<and> word_at (ks_bytes s') (stack_offset t' s') = v \<and>
    (\<forall>i. i < stack_offset t s - 4 \<or> stack_offset t s \<le> i \<longrightarrow> ks_bytes s' ! i = ks_bytes s ! i) \<and>
    t_state t' = t_state t"
proof -
  let ?d = "t_stack_pointer t - ks_base s"
  have four: "(4 :: u32) \<le> ?d" using assms(2) by (simp add: stack_offset_def word_le_nat_alt)
  have off: "unat (t_stack_pointer t - 4 - ks_base s) = stack_offset t s - 4"
  proof -
    have "t_stack_pointer t - 4 - ks_base s = ?d - 4" by simp
    then have "unat (t_stack_pointer t - 4 - ks_base s) = unat (?d - 4)" by (rule arg_cong)
    also have "\<dots> = unat ?d - unat (4 :: u32)" by (rule unat_sub [OF four])
    finally show ?thesis by (simp add: stack_offset_def)
  qed
  define o4 where "o4 = stack_offset t s - 4"
  have o4: "o4 + 3 < length (ks_bytes s)" and d: "unat ?d = o4 + 4"
    using assms(2,3) by (simp_all add: o4_def stack_offset_def)
  show ?thesis
    using assms(1) o4 unfolding stack_push_u32_def Let_def off o4_def [symmetric] stack_bytes
    by (auto simp: stack_offset_def off [unfolded stack_offset_def] d word_at_def nth_list_update)
qed

lemma push_words_spec:
  assumes "t_stack t = Some s" "4 * length vs \<le> stack_offset t s" "stack_offset t s \<le> length (ks_bytes s)"
  shows "\<exists>t' s'. push_words vs t = Some t' \<and> t_stack t' = Some s' \<and> ks_base s' = ks_base s \<and>
    length (ks_bytes s') = length (ks_bytes s) \<and> stack_offset t' s' + 4 * length vs = stack_offset t s \<and>
    t_stack_pointer t' = t_stack_pointer t - of_nat (4 * length vs) \<and>
    (\<forall>k < length vs. word_at (ks_bytes s') (stack_offset t' s' + 4 * k) = rev vs ! k) \<and>
    (\<forall>i \<ge> stack_offset t s. ks_bytes s' ! i = ks_bytes s ! i)"
  using assms
proof (induction vs arbitrary: t s)
  case (Cons v vs)
  have room: "4 \<le> stack_offset t s" using Cons.prems(2) by simp
  obtain t1 s1 where t1: "stack_push_u32 v t = Some t1" "t_stack t1 = Some s1" "ks_base s1 = ks_base s"
      "t_stack_pointer t1 = t_stack_pointer t - 4" "length (ks_bytes s1) = length (ks_bytes s)"
      "stack_offset t1 s1 = stack_offset t s - 4" "word_at (ks_bytes s1) (stack_offset t1 s1) = v"
      "\<forall>i. i < stack_offset t s - 4 \<or> stack_offset t s \<le> i \<longrightarrow> ks_bytes s1 ! i = ks_bytes s ! i"
    using stack_push_u32_spec [OF Cons.prems(1) room Cons.prems(3)] by blast
  have "4 * length vs \<le> stack_offset t1 s1" "stack_offset t1 s1 \<le> length (ks_bytes s1)"
    using Cons.prems t1(5,6) by simp_all
  from Cons.IH [OF t1(2) this] obtain t' s' where t': "push_words vs t1 = Some t'" "t_stack t' = Some s'"
      "ks_base s' = ks_base s1" "length (ks_bytes s') = length (ks_bytes s1)"
      "stack_offset t' s' + 4 * length vs = stack_offset t1 s1"
      "t_stack_pointer t' = t_stack_pointer t1 - of_nat (4 * length vs)"
      "\<forall>k < length vs. word_at (ks_bytes s') (stack_offset t' s' + 4 * k) = rev vs ! k"
      "\<forall>i \<ge> stack_offset t1 s1. ks_bytes s' ! i = ks_bytes s1 ! i"
    by blast
  have "word_at (ks_bytes s') (stack_offset t1 s1) = v"
    using t'(8) t1(7) by (simp add: word_at_def)
  then have "word_at (ks_bytes s') (stack_offset t' s' + 4 * k) = rev (v # vs) ! k" if "k < Suc (length vs)" for k
    using that t'(5,7) by (cases "k = length vs") (auto simp: nth_append)
  moreover have "ks_bytes s' ! i = ks_bytes s ! i" if "stack_offset t s \<le> i" for i
    using that t1(6,8) t'(8) by simp
  moreover have "stack_offset t' s' + 4 * length (v # vs) = stack_offset t s"
    using t'(5) t1(6) room by simp
  moreover have "t_stack_pointer t' = t_stack_pointer t - of_nat (4 * length (v # vs))"
    using t'(6) t1(4) by (simp add: algebra_simps)
  ultimately show ?case
    using t1(1,3,5) t'(1-4) by simp
qed auto

lemma push_words_append:
  "push_words (us @ vs) t = (case push_words us t of None \<Rightarrow> None | Some t' \<Rightarrow> push_words vs t')"
  by (induction us arbitrary: t) (auto split: option.splits)

lemma set_entry_point_eq: "set_entry_point f t = push_words (replicate 7 0 @ [f]) t"
  by (simp add: set_entry_point_def initialize_registers_def push_words_append numeral_eq_Suc split: option.splits)

text \<open>
  (C25) Preparing a new task for its first switch cannot overrun its kernel stack when the stack has at
  least 36 bytes: eight words are pushed, and the switch then finds, from the stack pointer upwards, the
  entry point as return address and seven zero words for the registers it restores.
\<close>

theorem entry_frame:
  assumes "36 \<le> length (ks_bytes stack)" "length (ks_bytes stack) < 2 ^ 32"
  shows "\<exists>t' s'. set_entry_point f (task_new i parent stack now) = Some t' \<and> t_stack t' = Some s' \<and>
    t_stack_pointer t' = ks_base stack + of_nat (length (ks_bytes stack)) - 36 \<and>
    map (\<lambda>k. word_at (ks_bytes s') (stack_offset t' s' + 4 * k)) [0..<8] = f # replicate 7 0"
proof -
  let ?t = "task_new i parent stack now" and ?vs = "replicate 7 0 @ [f]"
  let ?n = "length (ks_bytes stack)"
  have "unat (of_nat ?n - 4 :: u32) = ?n - 4"
  proof -
    have "(of_nat ?n - 4 :: u32) = of_nat (?n - 4)" using assms(1) by (simp add: of_nat_diff)
    then show ?thesis using assms(2) by (simp only: unat_of_nat_small)
        (simp add: unat_of_nat_small)
  qed
  then have off: "stack_offset ?t stack = ?n - 4" by (simp add: stack_offset_def task_new_def)
  have stack: "t_stack ?t = Some stack" by (simp add: task_new_def)
  have room: "4 * length ?vs \<le> stack_offset ?t stack" "stack_offset ?t stack \<le> ?n"
    using assms(1) by (simp_all add: off)
  obtain t' s' where t': "push_words ?vs ?t = Some t'" "t_stack t' = Some s'"
      "t_stack_pointer t' = t_stack_pointer ?t - of_nat (4 * length ?vs)"
      "\<forall>k < length ?vs. word_at (ks_bytes s') (stack_offset t' s' + 4 * k) = rev ?vs ! k"
    using push_words_spec [OF stack room] by blast
  have "map (\<lambda>k. word_at (ks_bytes s') (stack_offset t' s' + 4 * k)) [0..<8] = rev ?vs"
    using t'(4) by (intro nth_equalityI) simp_all
  then show ?thesis
    using t' by (intro exI [of _ t'] exI [of _ s']) (simp add: set_entry_point_eq task_new_def)
qed

theorem entry_frame_witness:
  "\<exists>t' s'. set_entry_point 0xc0101234 (task_new 4 1 \<lparr>ks_base = 0xfe000000, ks_bytes = replicate 64 0\<rparr> 0) = Some t' \<and>
     t_stack t' = Some s' \<and> t_stack_pointer t' = 0xfe00001c \<and>
     map (\<lambda>k. word_at (ks_bytes s') (stack_offset t' s' + 4 * k)) [0..<8] = 0xc0101234 # replicate 7 0"
  using entry_frame [of "\<lparr>ks_base = 0xfe000000, ks_bytes = replicate 64 0\<rparr>" "0xc0101234" 4 1 0] by simp

end
