(* ===== verification/Scheduler.thy ===== *)
theory Scheduler
  imports Task_State "HOL-Library.Multiset"
begin

text \<open>
  The task table (\<^verbatim>\<open>kernel/src/task/map.rs\<close>), the work queue shared by the processors and the per-processor
  scheduler (\<^verbatim>\<open>kernel/src/task/scheduling/mod.rs\<close>), context switches (\<^verbatim>\<open>kernel/src/task/switching.rs\<close>),
  creation and termination of tasks (\<^verbatim>\<open>kernel/src/task/actions/lifecycle.rs\<close>) and futexes
  (\<^verbatim>\<open>kernel/src/sync/futex.rs\<close>).

  \<open>sched_switch\<close> is the part of \<^verbatim>\<open>switch\<close> up to the exchange of the stacks, \<open>switch_finish\<close> the part that runs
  on the stack of the resumed task. A task that runs for the first time starts at its entry point instead
  and skips the second part, so the two are separate operations. A panic of the source is \<open>None\<close>.
\<close>

section \<open>State\<close>

datatype work_item = WI_Task task_id | WI_Tasklet

record cpu_scheduler =
  c_current :: task_id
  c_idle :: task_id
  c_pending :: u32
  c_ticks :: u8
  c_user_ticks :: u32
  c_kernel_ticks :: u32
  c_idle_ticks :: u32

record system =
  s_tasks :: "(task_id, task) btree_map"
  s_next_id :: u32
  s_queue :: "work_item list"
  s_cpus :: "cpu_scheduler list"
  s_futexes :: "(phys_addr, task_id list) btree_map"

definition NO_TASK :: u32 where "NO_TASK = 0xFFFFFFFF"

definition cpu_scheduler_new :: "task_id \<Rightarrow> cpu_scheduler" where
  "cpu_scheduler_new idle = \<lparr>c_current = idle, c_idle = idle, c_pending = NO_TASK, c_ticks = 0,
     c_user_ticks = 0, c_kernel_ticks = 0, c_idle_ticks = 0\<rparr>"

section \<open>The task table\<close>

definition get_task :: "task_id \<Rightarrow> system \<Rightarrow> task option" where
  "get_task i sys = bt_get i (s_tasks sys)"

definition put_task :: "task_id \<Rightarrow> task \<Rightarrow> system \<Rightarrow> system" where
  "put_task i t sys = sys\<lparr>s_tasks := bt_insert i t (s_tasks sys)\<rparr>"

definition take_task :: "task_id \<Rightarrow> system \<Rightarrow> task option \<times> system" where
  "take_task i sys = (get_task i sys, sys\<lparr>s_tasks := bt_remove i (s_tasks sys)\<rparr>)"

definition get_next_task_id :: "system \<Rightarrow> task_id \<times> system" where
  "get_next_task_id sys = (s_next_id sys, sys\<lparr>s_next_id := s_next_id sys + 1\<rparr>)"

definition insert_task :: "task \<Rightarrow> system \<Rightarrow> system" where
  "insert_task t sys = put_task (t_id t) t sys"

section \<open>Processors\<close>

definition record_tick :: "bool \<Rightarrow> cpu_scheduler \<Rightarrow> cpu_scheduler" where
  "record_tick is_user c =
     (let is_idle = c_current c = c_idle c
      in if is_user then c\<lparr>c_user_ticks := c_user_ticks c + 1\<rparr>
         else if is_idle then c\<lparr>c_idle_ticks := c_idle_ticks c + 1\<rparr>
         else c\<lparr>c_kernel_ticks := c_kernel_ticks c + 1\<rparr>)"

definition sched_tick :: "cpu_scheduler \<Rightarrow> bool \<times> cpu_scheduler" where
  "sched_tick c =
     (let prev = c_ticks c; c' = c\<lparr>c_ticks := prev + 1\<rparr>
      in if prev \<ge> 1 then (True, c'\<lparr>c_ticks := 0\<rparr>) else (False, c'))"

definition get_tick_counts :: "cpu_scheduler \<Rightarrow> u32 \<times> u32 \<times> u32" where
  "get_tick_counts c = (c_user_ticks c, c_kernel_ticks c, c_idle_ticks c)"

definition put_cpu :: "nat \<Rightarrow> cpu_scheduler \<Rightarrow> system \<Rightarrow> system" where
  "put_cpu k c sys = sys\<lparr>s_cpus := (s_cpus sys)[k := c]\<rparr>"

definition reenqueue_task :: "task_id \<Rightarrow> system \<Rightarrow> system" where
  "reenqueue_task i sys = sys\<lparr>s_queue := s_queue sys @ [WI_Task i]\<rparr>"

definition drain_pending :: "nat \<Rightarrow> system \<Rightarrow> system" where
  "drain_pending k sys =
     (let c = s_cpus sys ! k; stale = c_pending c; sys1 = put_cpu k (c\<lparr>c_pending := NO_TASK\<rparr>) sys
      in if stale \<noteq> NO_TASK then reenqueue_task stale sys1 else sys1)"

definition resumable :: "system \<Rightarrow> task_id \<Rightarrow> bool" where
  "resumable sys i = (case get_task i sys of None \<Rightarrow> False | Some t \<Rightarrow> can_resume t)"

fun select_task :: "system \<Rightarrow> task_id \<Rightarrow> work_item list \<Rightarrow> (task_id \<times> work_item list) option" where
  "select_task sys idle [] = Some (idle, [])"
| "select_task sys idle (WI_Task i # q) =
     (if resumable sys i then Some (i, q) else select_task sys idle q)"
| "select_task sys idle (WI_Tasklet # q) = None"

definition switch_to :: "nat \<Rightarrow> task_id \<Rightarrow> system \<Rightarrow> system option" where
  "switch_to k i sys =
     (let c = s_cpus sys ! k
      in case (get_task (c_current c) sys, get_task i sys) of
           (Some current, Some next_task) \<Rightarrow>
             (case get_stack_top next_task of
                None \<Rightarrow> None
              | Some stack_top \<Rightarrow>
                  let sys1 = put_cpu k (c\<lparr>c_current := i\<rparr>) sys
                  in case t_state next_task of
                       Initialized \<Rightarrow> Some (put_task i (next_task\<lparr>t_state := Running\<rparr>) sys1)
                     | _ \<Rightarrow> Some sys1)
         | _ \<Rightarrow> None)"

definition sched_switch :: "nat \<Rightarrow> system \<Rightarrow> system option" where
  "sched_switch k sys =
     (let sys1 = drain_pending k sys;
          c = s_cpus sys1 ! k;
          current_id = c_current c;
          should_reenqueue = (if current_id \<noteq> c_idle c then resumable sys1 current_id else False)
      in case select_task sys1 (c_idle c) (s_queue sys1) of
           None \<Rightarrow> None
         | Some (switch_to_id, q) \<Rightarrow>
             let sys2 = sys1\<lparr>s_queue := q\<rparr>
             in if current_id = switch_to_id then Some sys2
                else switch_to k switch_to_id
                       (if should_reenqueue then put_cpu k (c\<lparr>c_pending := current_id\<rparr>) sys2 else sys2))"

definition switch_finish :: "nat \<Rightarrow> system \<Rightarrow> system" where
  "switch_finish k sys = drain_pending k sys"

section \<open>Blocking and waking\<close>

definition current_task_id :: "nat \<Rightarrow> system \<Rightarrow> task_id" where
  "current_task_id k sys = c_current (s_cpus sys ! k)"

text \<open>
  \<open>current_value\<close> is the word the caller finds at the address, \<open>paddr\<close> the translation of the address.
\<close>

definition futex_wait_inner :: "nat \<Rightarrow> u32 \<Rightarrow> u32 \<Rightarrow> phys_addr option \<Rightarrow> u32 option \<Rightarrow> system \<Rightarrow> system option" where
  "futex_wait_inner k current_value value paddr timeout sys =
     (if current_value \<noteq> value then Some sys
      else case paddr of
        None \<Rightarrow> Some sys
      | Some p \<Rightarrow>
          let i = current_task_id k sys;
              waiting = (case bt_get p (s_futexes sys) of Some waiters \<Rightarrow> waiters @ [i] | None \<Rightarrow> [i]);
              sys1 = sys\<lparr>s_futexes := bt_insert p waiting (s_futexes sys)\<rparr>
          in map_option (\<lambda>t. put_task i (task_futex_wait timeout t) sys1) (get_task i sys1))"

definition wake_waiter :: "task_id \<Rightarrow> system \<Rightarrow> system" where
  "wake_waiter i sys =
     (case get_task i sys of
        None \<Rightarrow> sys
      | Some t \<Rightarrow> (case task_futex_wake t of
                    (True, t') \<Rightarrow> reenqueue_task i (put_task i t' sys)
                  | (False, t') \<Rightarrow> put_task i t' sys))"

fun wake_loop :: "nat \<Rightarrow> task_id list \<Rightarrow> system \<Rightarrow> task_id list \<times> system" where
  "wake_loop 0 waiters sys = (waiters, sys)"
| "wake_loop (Suc n) [] sys = ([], sys)"
| "wake_loop (Suc n) (i # waiters) sys = wake_loop n waiters (wake_waiter i sys)"

definition futex_wake_inner :: "phys_addr \<Rightarrow> u32 \<Rightarrow> system \<Rightarrow> system" where
  "futex_wake_inner p wakeups sys =
     (if wakeups = 0 then sys
      else case bt_get p (s_futexes sys) of
        None \<Rightarrow> sys
      | Some waiters \<Rightarrow>
          let (left, sys1) = wake_loop (unat wakeups) waiters sys
          in if left = [] then sys1\<lparr>s_futexes := bt_remove p (s_futexes sys1)\<rparr>
             else sys1\<lparr>s_futexes := bt_insert p left (s_futexes sys1)\<rparr>)"

text \<open>\<open>locked\<close>: the tasks whose lock is held while the clock interrupt runs (\<^verbatim>\<open>try_write\<close> fails).\<close>

definition update_task_timeout :: "u32 \<Rightarrow> (task_id \<Rightarrow> bool) \<Rightarrow> task_id \<Rightarrow> system \<Rightarrow> system" where
  "update_task_timeout ms locked i sys =
     (case get_task i sys of
        None \<Rightarrow> sys
      | Some t \<Rightarrow>
          if locked i then sys
          else (case update_timeout ms t of
                  (True, t') \<Rightarrow> reenqueue_task (t_id t') (put_task i t' sys)
                | (False, t') \<Rightarrow> put_task i t' sys))"

definition update_timeouts :: "u32 \<Rightarrow> (task_id \<Rightarrow> bool) \<Rightarrow> system \<Rightarrow> system" where
  "update_timeouts ms locked sys = fold (update_task_timeout ms locked) (map fst (s_tasks sys)) sys"

definition complete_file_mapping :: "task_id \<Rightarrow> io_result \<Rightarrow> system \<Rightarrow> system" where
  "complete_file_mapping i result sys =
     (case get_task i sys of
        None \<Rightarrow> sys
      | Some t \<Rightarrow> (case resolve_file_mapping_request result t of
                    (True, t') \<Rightarrow> reenqueue_task i (put_task i t' sys)
                  | (False, t') \<Rightarrow> put_task i t' sys))"

definition sleep_current :: "nat \<Rightarrow> u32 \<Rightarrow> system \<Rightarrow> system option" where
  "sleep_current k ms sys =
     (let i = current_task_id k sys
      in case get_task i sys of
           None \<Rightarrow> None
         | Some t \<Rightarrow> map_option (\<lambda>t'. put_task i t' sys) (task_sleep ms t))"

definition request_file_mapping :: "nat \<Rightarrow> system \<Rightarrow> system option" where
  "request_file_mapping k sys =
     (let i = current_task_id k sys
      in map_option (\<lambda>t. put_task i (begin_file_mapping_request t) sys) (get_task i sys))"

section \<open>Creation and termination\<close>

text \<open>\<open>stack\<close>, \<open>page_dir\<close> and \<open>now\<close>: the new kernel stack, the new page directory and the time.\<close>

definition create_task :: "nat \<Rightarrow> kernel_stack \<Rightarrow> phys_addr \<Rightarrow> u32 \<Rightarrow> system \<Rightarrow> task_id \<times> system" where
  "create_task k stack page_dir now sys =
     (let cur_id = current_task_id k sys;
          (i, sys1) = get_next_task_id sys
      in (i, insert_task ((task_new i cur_id stack now)\<lparr>t_page_directory := page_dir\<rparr>) sys1))"

definition create_kernel_task ::
  "nat \<Rightarrow> u32 \<Rightarrow> string option \<Rightarrow> kernel_stack \<Rightarrow> phys_addr \<Rightarrow> u32 \<Rightarrow> system \<Rightarrow> (task_id \<times> system) option" where
  "create_kernel_task k body name stack page_dir now sys =
     (let (i, sys1) = create_task k stack page_dir now sys
      in case get_task i sys1 of
           None \<Rightarrow> None
         | Some t \<Rightarrow>
             map_option (\<lambda>t'.
                (i, reenqueue_task i (put_task i
                   (t'\<lparr>t_state := Running, t_filename := (case name of Some n \<Rightarrow> n | None \<Rightarrow> ''KERNEL'')\<rparr>) sys1)))
               (set_entry_point body t))"

definition create_idle_task :: "kernel_stack \<Rightarrow> phys_addr \<Rightarrow> u32 \<Rightarrow> system \<Rightarrow> task_id \<times> system" where
  "create_idle_task stack page_dir now sys =
     (let (i, sys1) = get_next_task_id sys
      in (i, insert_task ((task_new i 0 stack now)\<lparr>t_page_directory := page_dir, t_filename := ''IDLE''\<rparr>) sys1))"

text \<open>A further processor: its idle task and its scheduler.\<close>

definition init_ap :: "kernel_stack \<Rightarrow> phys_addr \<Rightarrow> u32 \<Rightarrow> system \<Rightarrow> system" where
  "init_ap stack page_dir now sys =
     (let (idle_id, sys1) = create_idle_task stack page_dir now sys
      in sys1\<lparr>s_cpus := s_cpus sys1 @ [cpu_scheduler_new idle_id]\<rparr>)"

definition boot_system :: "kernel_stack \<Rightarrow> u32 \<Rightarrow> system" where
  "boot_system stack now =
     \<lparr>s_tasks = [(0, create_initial_task stack now)], s_next_id = 1, s_queue = [],
      s_cpus = [cpu_scheduler_new 0], s_futexes = []\<rparr>"

text \<open>
  The last step of loading a program: the frame for the first switch, in the order it is pushed, and the
  change of the run state. \<open>entry_point\<close> and \<open>load_info_addr\<close> are where the loader and its arguments were mapped.
\<close>

definition STACK_TOP :: u32 where "STACK_TOP = 0xc0000000"

definition exec_frame :: "u32 \<Rightarrow> u32 \<Rightarrow> u32 list" where
  "exec_frame entry_point load_info_addr =
     [0, 0, 0x23, 0x23, 0x23, STACK_TOP, 0x200, 0x1b, entry_point, 0, 0, 0, load_info_addr, 0, 0, 0]"

definition exec_start :: "task_id \<Rightarrow> string \<Rightarrow> u32 \<Rightarrow> u32 \<Rightarrow> system \<Rightarrow> system option" where
  "exec_start i path entry_point load_info_addr sys =
     (case get_task i sys of
        None \<Rightarrow> Some sys
      | Some t \<Rightarrow>
          if t_state t \<noteq> Uninitialized then Some sys
          else map_option (\<lambda>t'. reenqueue_task (t_id t') (put_task i (make_runnable t') sys))
                 (push_words (exec_frame entry_point load_info_addr) (set_filename path t)))"

definition terminate_id :: "task_id \<Rightarrow> system \<Rightarrow> system" where
  "terminate_id i sys = (case get_task i sys of None \<Rightarrow> sys | Some t \<Rightarrow> put_task i (task_terminate t) sys)"

section \<open>Where a task can be\<close>

text \<open>
  A task that is not an idle task is in at most one of three places: running on a processor, set aside by a
  processor until its stack is saved, or queued. The places are counted in a multiset.
\<close>

definition cpu_places :: "cpu_scheduler \<Rightarrow> task_id multiset" where
  "cpu_places c = (if c_current c \<noteq> c_idle c then {#c_current c#} else {#}) +
     (if c_pending c \<noteq> NO_TASK then {#c_pending c#} else {#})"

fun queued :: "work_item list \<Rightarrow> task_id list" where
  "queued [] = []"
| "queued (WI_Task i # q) = i # queued q"
| "queued (WI_Tasklet # q) = queued q"

definition places :: "system \<Rightarrow> task_id multiset" where
  "places sys = (\<Sum>c \<in># mset (s_cpus sys). cpu_places c) + mset (queued (s_queue sys))"

definition idle_ids :: "system \<Rightarrow> task_id set" where
  "idle_ids sys = c_idle ` set (s_cpus sys)"

definition unique :: "'a multiset \<Rightarrow> bool" where
  "unique M \<longleftrightarrow> (\<forall>x. count M x \<le> 1)"

definition placeable :: "task \<Rightarrow> bool" where
  "placeable t \<longleftrightarrow> can_resume t \<or> t_state t = Terminated"

definition task_ok :: "system \<Rightarrow> task_id \<Rightarrow> task \<Rightarrow> bool" where
  "task_ok sys i t \<longleftrightarrow> t_id t = i \<and> i < s_next_id sys \<and> t_stack t \<noteq> None \<and>
     (i \<in> idle_ids sys \<longrightarrow> (case t_state t of Blocked _ _ \<Rightarrow> False | _ \<Rightarrow> True)) \<and>
     (can_resume t \<and> i \<notin> idle_ids sys \<longrightarrow> i \<in># places sys)"

text \<open>\<open>H\<close> are tasks that have just blocked or ended while a processor is still running them.\<close>

definition sched_inv :: "task_id set \<Rightarrow> system \<Rightarrow> bool" where
  "sched_inv H sys \<longleftrightarrow>
     WI_Tasklet \<notin> set (s_queue sys) \<and> unique (places sys) \<and> distinct (map c_idle (s_cpus sys)) \<and>
     (\<forall>i t. get_task i sys = Some t \<longrightarrow> task_ok sys i t) \<and>
     (\<forall>i \<in> idle_ids sys. get_task i sys \<noteq> None) \<and>
     (\<forall>i \<in># places sys. i \<notin> idle_ids sys \<and>
        (\<exists>t. get_task i sys = Some t \<and> (i \<in> H \<or> placeable t)))"

subsection \<open>Multisets of places\<close>

lemma queued_append [simp]: "queued (xs @ ys) = queued xs @ queued ys"
  by (induction xs rule: queued.induct) simp_all

lemma places_put_cpu:
  "k < length (s_cpus sys) \<Longrightarrow>
    places (put_cpu k c sys) + cpu_places (s_cpus sys ! k) = places sys + cpu_places c"
proof -
  assume k: "k < length (s_cpus sys)"
  have "mset ((s_cpus sys)[k := c]) + {#s_cpus sys ! k#} = mset (s_cpus sys) + {#c#}"
    using k by (simp add: mset_update)
  then have "(\<Sum>c \<in># mset ((s_cpus sys)[k := c]) + {#s_cpus sys ! k#}. cpu_places c) =
      (\<Sum>c \<in># mset (s_cpus sys) + {#c#}. cpu_places c)" by simp
  then show ?thesis
    by (simp add: places_def put_cpu_def ac_simps)
qed

lemma get_task_simps [simp]:
  "get_task i (put_task j t sys) = (if i = j then Some t else get_task i sys)"
  "get_task i (reenqueue_task j sys) = get_task i sys"
  "get_task i (put_cpu k c sys) = get_task i sys"
  "get_task i (sys\<lparr>s_queue := q\<rparr>) = get_task i sys"
  "get_task i (sys\<lparr>s_futexes := f\<rparr>) = get_task i sys"
  by (simp_all add: get_task_def put_task_def reenqueue_task_def put_cpu_def)

lemma places_simps [simp]:
  "places (put_task j t sys) = places sys"
  "places (reenqueue_task j sys) = add_mset j (places sys)"
  "places (sys\<lparr>s_futexes := f\<rparr>) = places sys"
  by (simp_all add: places_def put_task_def reenqueue_task_def)

lemma idle_ids_simps [simp]:
  "idle_ids (put_task j t sys) = idle_ids sys"
  "idle_ids (reenqueue_task j sys) = idle_ids sys"
  "idle_ids (sys\<lparr>s_futexes := f\<rparr>) = idle_ids sys"
  "idle_ids (sys\<lparr>s_queue := q\<rparr>) = idle_ids sys"
  by (simp_all add: idle_ids_def put_task_def reenqueue_task_def)

lemma map_idle_put_cpu:
  "k < length (s_cpus sys) \<Longrightarrow> c_idle c = c_idle (s_cpus sys ! k) \<Longrightarrow>
    map c_idle (s_cpus (put_cpu k c sys)) = map c_idle (s_cpus sys)"
  by (simp add: put_cpu_def map_update list_update_same_conv)

lemma idle_ids_map: "idle_ids sys = set (map c_idle (s_cpus sys))"
  by (simp add: idle_ids_def)

lemma system_simps [simp]:
  "s_cpus (put_task j t sys) = s_cpus sys" "s_cpus (reenqueue_task j sys) = s_cpus sys"
  "s_queue (put_task j t sys) = s_queue sys" "s_queue (reenqueue_task j sys) = s_queue sys @ [WI_Task j]"
  "s_queue (put_cpu k c sys) = s_queue sys" "s_cpus (put_cpu k c sys) = (s_cpus sys)[k := c]"
  "s_next_id (put_task j t sys) = s_next_id sys" "s_next_id (reenqueue_task j sys) = s_next_id sys"
  "s_next_id (put_cpu k c sys) = s_next_id sys"
  by (simp_all add: put_task_def reenqueue_task_def put_cpu_def)

subsection \<open>Steps that move or drop tasks\<close>

definition blocked :: "task \<Rightarrow> bool" where
  "blocked t \<longleftrightarrow> (case t_state t of Blocked _ _ \<Rightarrow> True | _ \<Rightarrow> False)"

text \<open>Two versions of a task that the scheduler treats alike.\<close>

definition task_like :: "task \<Rightarrow> task \<Rightarrow> bool" where
  "task_like t t' \<longleftrightarrow> t_id t' = t_id t \<and> (t_stack t' = None \<longleftrightarrow> t_stack t = None) \<and>
     (can_resume t' \<longleftrightarrow> can_resume t) \<and> (t_state t' = Terminated \<longleftrightarrow> t_state t = Terminated) \<and>
     (blocked t' \<longleftrightarrow> blocked t)"

lemma task_like_refl [simp]: "task_like t t"
  by (simp add: task_like_def)

lemma task_ok_iff:
  "task_ok sys i t \<longleftrightarrow> t_id t = i \<and> i < s_next_id sys \<and> t_stack t \<noteq> None \<and>
     (i \<in> idle_ids sys \<longrightarrow> \<not> blocked t) \<and> (can_resume t \<and> i \<notin> idle_ids sys \<longrightarrow> i \<in># places sys)"
  by (auto simp: task_ok_def blocked_def split: run_state.splits)

lemma unique_add: "unique (M + N) \<Longrightarrow> unique M"
proof -
  assume "unique (M + N)"
  then have "count M x + count N x \<le> 1" for x by (simp add: unique_def)
  then show "unique M" unfolding unique_def by (meson add_leD1)
qed

lemma unique_disjoint: "unique (M + N) \<Longrightarrow> x \<in># M \<Longrightarrow> x \<notin># N"
proof
  assume "unique (M + N)" and x: "x \<in># M" "x \<in># N"
  then have "count M x + count N x \<le> 1" by (simp add: unique_def)
  moreover have "1 \<le> count M x" "1 \<le> count N x" using x by (simp_all add: Suc_le_eq)
  ultimately show False by linarith
qed

lemma sched_inv_shrink:
  assumes inv: "sched_inv H sys" and queue: "WI_Tasklet \<notin> set (s_queue sys')"
    and places: "places sys = places sys' + X" and dropped: "\<forall>i \<in># X. \<not> resumable sys i"
    and idle: "map c_idle (s_cpus sys') = map c_idle (s_cpus sys)" and nid: "s_next_id sys' = s_next_id sys"
    and tasks: "\<And>i. rel_option task_like (get_task i sys) (get_task i sys')"
    and hole: "\<And>i t. i \<in># places sys' \<Longrightarrow> i \<in> H \<Longrightarrow> get_task i sys = Some t \<Longrightarrow> placeable t"
  shows "sched_inv {} sys'"
proof -
  have ids: "idle_ids sys' = idle_ids sys" using idle by (simp add: idle_ids_map)
  have bwd: "\<exists>t. get_task i sys = Some t \<and> task_like t t'" if "get_task i sys' = Some t'" for i t'
    using tasks [of i] that by (auto simp: option_rel_Some2)
  have fwd: "\<exists>t'. get_task i sys' = Some t' \<and> task_like t t'" if "get_task i sys = Some t" for i t
    using tasks [of i] that by (auto simp: option_rel_Some1)
  have "task_ok sys' i t'" if t': "get_task i sys' = Some t'" for i t'
  proof -
    obtain t where t: "get_task i sys = Some t" "task_like t t'" using bwd [OF t'] by blast
    then have ok: "task_ok sys i t" using inv by (simp add: sched_inv_def)
    have "i \<in># places sys'" if "can_resume t'" "i \<notin> idle_ids sys"
    proof -
      have r: "can_resume t" using t(2) that(1) by (simp add: task_like_def)
      then have "i \<in># places sys" using ok that(2) by (simp add: task_ok_iff)
      moreover have "i \<notin># X" using dropped t(1) r by (auto simp: resumable_def)
      ultimately show ?thesis using places by simp
    qed
    then show ?thesis using ok t(2) by (auto simp: task_ok_iff task_like_def nid ids)
  qed
  moreover have "i \<notin> idle_ids sys' \<and> (\<exists>t. get_task i sys' = Some t \<and> placeable t)" if i: "i \<in># places sys'" for i
  proof -
    have "i \<in># places sys" using i places by simp
    then obtain t where t: "get_task i sys = Some t" "i \<in> H \<or> placeable t" "i \<notin> idle_ids sys"
      using inv by (auto simp: sched_inv_def)
    then have "placeable t" using hole [OF i] by blast
    moreover obtain t' where "get_task i sys' = Some t'" "task_like t t'" using fwd [OF t(1)] by blast
    ultimately show ?thesis using t(3) ids by (auto simp: placeable_def task_like_def)
  qed
  moreover have "unique (places sys')"
  proof -
    have "unique (places sys)" using inv by (simp add: sched_inv_def)
    then show ?thesis unfolding places by (rule unique_add)
  qed
  moreover have "get_task i sys' \<noteq> None" if i: "i \<in> idle_ids sys" for i
  proof -
    have "\<forall>i \<in> idle_ids sys. get_task i sys \<noteq> None" using inv by (simp add: sched_inv_def)
    then obtain t where "get_task i sys = Some t" using i by blast
    from fwd [OF this] show ?thesis by auto
  qed
  moreover have "distinct (map c_idle (s_cpus sys'))" using inv unfolding idle by (simp add: sched_inv_def)
  ultimately show ?thesis
    using queue unfolding sched_inv_def ids by blast
qed

lemma places_drain: "k < length (s_cpus sys) \<Longrightarrow> places (drain_pending k sys) = places sys"
  using places_put_cpu [of k sys "(s_cpus sys ! k)\<lparr>c_pending := NO_TASK\<rparr>"]
  by (auto simp: drain_pending_def Let_def cpu_places_def split: if_splits)

lemma drain_simps [simp]:
  "get_task i (drain_pending k sys) = get_task i sys"
  "s_next_id (drain_pending k sys) = s_next_id sys"
  "s_cpus (drain_pending k sys) = (s_cpus sys)[k := (s_cpus sys ! k)\<lparr>c_pending := NO_TASK\<rparr>]"
  "WI_Tasklet \<in> set (s_queue (drain_pending k sys)) \<longleftrightarrow> WI_Tasklet \<in> set (s_queue sys)"
  by (auto simp: drain_pending_def Let_def)

lemma resumable_drain [simp]: "resumable (drain_pending k sys) i = resumable sys i"
  by (simp add: resumable_def)

lemma select_task_cases:
  assumes "WI_Tasklet \<notin> set q"
  shows "\<exists>dropped i q'. select_task sys idle q = Some (i, q') \<and> (\<forall>j \<in> set dropped. \<not> resumable sys j) \<and>
    WI_Tasklet \<notin> set q' \<and>
    (i = idle \<and> q' = [] \<and> queued q = dropped \<or> resumable sys i \<and> queued q = dropped @ i # queued q')"
  using assms
proof (induction q rule: queued.induct)
  case (2 i q)
  show ?case
  proof (cases "resumable sys i")
    case True
    then show ?thesis using "2.prems" by (intro exI [of _ "[]"]) simp
  next
    case False
    obtain dropped j q' where "select_task sys idle q = Some (j, q')" "\<forall>j \<in> set dropped. \<not> resumable sys j"
        "WI_Tasklet \<notin> set q'"
        "j = idle \<and> q' = [] \<and> queued q = dropped \<or> resumable sys j \<and> queued q = dropped @ j # queued q'"
      using 2 by auto
    then show ?thesis
      using False by (intro exI [of _ "i # dropped"] exI [of _ j] exI [of _ q']) auto
  qed
qed auto

lemma places_queue:
  "places (sys\<lparr>s_queue := q\<rparr>) + mset (queued (s_queue sys)) = places sys + mset (queued q)"
  by (simp add: places_def ac_simps)

lemma cpu_places_in_places:
  assumes "k < length (s_cpus sys)"
  obtains M where "places sys = cpu_places (s_cpus sys ! k) + M + mset (queued (s_queue sys))"
proof -
  obtain M where "mset (s_cpus sys) = add_mset (s_cpus sys ! k) M"
    using assms multi_member_split [of "s_cpus sys ! k" "mset (s_cpus sys)"] by auto
  then have "places sys = cpu_places (s_cpus sys ! k) + (\<Sum>c \<in># M. cpu_places c) + mset (queued (s_queue sys))"
    by (simp add: places_def)
  then show thesis by (rule that)
qed

lemma sched_inv_current:
  assumes "sched_inv H sys" "k < length (s_cpus sys)"
  shows "c_idle (s_cpus sys ! k) \<in> idle_ids sys" "\<exists>t. get_task (c_current (s_cpus sys ! k)) sys = Some t"
    "c_current (s_cpus sys ! k) \<noteq> c_idle (s_cpus sys ! k) \<Longrightarrow> c_current (s_cpus sys ! k) \<notin># mset (queued (s_queue sys))"
proof -
  let ?c = "s_cpus sys ! k"
  show idle: "c_idle ?c \<in> idle_ids sys" using assms(2) by (simp add: idle_ids_def)
  obtain M where M: "places sys = cpu_places ?c + M + mset (queued (s_queue sys))"
    by (rule cpu_places_in_places [OF assms(2)])
  have cur: "c_current ?c \<in># cpu_places ?c" if "c_current ?c \<noteq> c_idle ?c"
    using that by (simp add: cpu_places_def)
  show "\<exists>t. get_task (c_current ?c) sys = Some t"
  proof (cases "c_current ?c = c_idle ?c")
    case True
    then show ?thesis using idle assms(1) by (auto simp: sched_inv_def)
  next
    case False
    then have "c_current ?c \<in># places sys" using cur M by simp
    then show ?thesis using assms(1) by (auto simp: sched_inv_def)
  qed
  assume "c_current ?c \<noteq> c_idle ?c"
  moreover have "unique (places sys)" using assms(1) by (simp add: sched_inv_def)
  ultimately show "c_current ?c \<notin># mset (queued (s_queue sys))"
    using cur unique_disjoint [of "cpu_places ?c + M" "mset (queued (s_queue sys))"] M by auto
qed

lemma sched_inv_drain:
  assumes "sched_inv H sys" "k < length (s_cpus sys)"
  shows "sched_inv H (drain_pending k sys)"
proof -
  have ids: "map c_idle (s_cpus (drain_pending k sys)) = map c_idle (s_cpus sys)"
    using assms(2) by (simp add: map_update list_update_same_conv)
  then have "idle_ids (drain_pending k sys) = idle_ids sys" by (simp only: idle_ids_map)
  then show ?thesis
    using assms(1) ids places_drain [OF assms(2)] by (simp add: sched_inv_def task_ok_iff)
qed

lemma id_not_NO_TASK:
  "sched_inv H sys \<Longrightarrow> get_task i sys = Some t \<Longrightarrow> i \<noteq> NO_TASK"
proof -
  assume "sched_inv H sys" "get_task i sys = Some t"
  then have "i < s_next_id sys" by (auto simp: sched_inv_def task_ok_iff)
  moreover have "unat (s_next_id sys) \<le> 4294967295" using unat_less_max32 [of "s_next_id sys"] by linarith
  then have "s_next_id sys \<le> NO_TASK" by (simp add: word_le_nat_alt NO_TASK_def)
  ultimately show ?thesis by auto
qed

lemma task_like_start: "t_state t = Initialized \<Longrightarrow> task_like t (t\<lparr>t_state := Running\<rparr>)"
  by (simp add: task_like_def can_resume_def blocked_def)

lemma switch_to_cases:
  assumes "get_task (c_current (s_cpus sys ! k)) sys = Some tc" "get_task i sys = Some t" "t_stack t \<noteq> None"
    "k < length (s_cpus sys)"
  shows "\<exists>sys'. switch_to k i sys = Some sys' \<and> s_queue sys' = s_queue sys \<and> s_next_id sys' = s_next_id sys \<and>
    places sys' = places (put_cpu k ((s_cpus sys ! k)\<lparr>c_current := i\<rparr>) sys) \<and>
    map c_idle (s_cpus sys') = map c_idle (s_cpus sys) \<and> c_current (s_cpus sys' ! k) = i \<and>
    (\<forall>j. rel_option task_like (get_task j sys) (get_task j sys'))"
proof -
  let ?sys = "put_cpu k ((s_cpus sys ! k)\<lparr>c_current := i\<rparr>) sys"
  have idle: "map c_idle (s_cpus ?sys) = map c_idle (s_cpus sys)"
    using assms(4) by (rule map_idle_put_cpu) simp
  have refl: "rel_option task_like x x" for x by (cases x) simp_all
  show ?thesis
  proof (cases "t_state t = Initialized")
    case True
    then have "switch_to k i sys = Some (put_task i (t\<lparr>t_state := Running\<rparr>) ?sys)"
      using assms by (auto simp: switch_to_def Let_def get_stack_top_def)
    then show ?thesis
      using assms(2,4) idle refl task_like_start [OF True] by simp
  next
    case False
    then have "switch_to k i sys = Some ?sys"
      using assms by (auto simp: switch_to_def Let_def get_stack_top_def split: run_state.splits)
    then show ?thesis using assms(4) idle refl by simp
  qed
qed

text \<open>The tasks that leave the three places in a switch cannot be resumed.\<close>

lemma switch_places:
  fixes sys :: system and k :: nat
  defines "c \<equiv> s_cpus sys ! k"
  assumes k: "k < length (s_cpus sys)" and pending: "c_pending c = NO_TASK" and cur: "c_current c \<noteq> NO_TASK"
    and queue: "mset (queued (s_queue sys)) = mset dropped + (if i = c_idle c then {#} else {#i#}) + mset (queued q)"
    and sys3: "sys3 = (if keep then put_cpu k (c\<lparr>c_pending := c_current c\<rparr>) (sys\<lparr>s_queue := q\<rparr>) else sys\<lparr>s_queue := q\<rparr>)"
    and keep: "keep \<longrightarrow> c_current c \<noteq> c_idle c"
  shows "places sys = places (put_cpu k ((s_cpus sys3 ! k)\<lparr>c_current := i\<rparr>) sys3) +
    (mset dropped + (if c_current c \<noteq> c_idle c \<and> \<not> keep then {#c_current c#} else {#}))"
proof -
  let ?sys2 = "sys\<lparr>s_queue := q\<rparr>"
  define c4 where "c4 = (if keep then c\<lparr>c_pending := c_current c\<rparr> else c)\<lparr>c_current := i\<rparr>"
  have c2: "s_cpus ?sys2 ! k = c" by (simp add: c_def)
  have eq: "put_cpu k ((s_cpus sys3 ! k)\<lparr>c_current := i\<rparr>) sys3 = put_cpu k c4 ?sys2"
    using k by (simp add: sys3 c4_def put_cpu_def c_def)
  let ?I = "if i = c_idle c then {#} else {#i#}" and ?K = "if keep then {#c_current c#} else {#}"
  let ?L = "if c_current c \<noteq> c_idle c \<and> \<not> keep then {#c_current c#} else {#}"
  have moved: "places (put_cpu k c4 ?sys2) + cpu_places c = places ?sys2 + cpu_places c4"
    using places_put_cpu [of k ?sys2 c4] k c2 by simp
  have before: "cpu_places c = ?L + ?K" using keep by (simp add: cpu_places_def pending)
  have after: "cpu_places c4 = ?I + ?K" using cur pending by (simp add: cpu_places_def c4_def)
  have "(places (put_cpu k c4 ?sys2) + ?L) + ?K = (places ?sys2 + ?I) + ?K"
    using moved unfolding before after by (simp only: add.assoc)
  then have "places (put_cpu k c4 ?sys2) + ?L = places ?sys2 + ?I" by (rule add_right_imp_eq)
  moreover have "places sys = (places ?sys2 + ?I) + mset dropped"
    using places_queue [where sys = sys and q = q] queue by (simp add: ac_simps)
  ultimately show ?thesis unfolding eq by (simp add: ac_simps)
qed

lemma sched_switch_drained:
  assumes inv: "sched_inv H sys" and k: "k < length (s_cpus sys)" and H: "H \<subseteq> {current_task_id k sys}"
    and pending: "c_pending (s_cpus sys ! k) = NO_TASK" and drained: "drain_pending k sys = sys"
  shows "\<exists>sys'. sched_switch k sys = Some sys' \<and> sched_inv {} sys'"
proof -
  define c where "c = s_cpus sys ! k"
  define keep where "keep = (c_current c \<noteq> c_idle c \<and> resumable sys (c_current c))"
  have nt: "WI_Tasklet \<notin> set (s_queue sys)" using inv by (simp add: sched_inv_def)
  note cur = sched_inv_current [OF inv k, folded c_def]
  obtain tc where tc: "get_task (c_current c) sys = Some tc" using cur(2) by blast
  obtain dropped i q where sel: "select_task sys (c_idle c) (s_queue sys) = Some (i, q)"
      "\<forall>j \<in> set dropped. \<not> resumable sys j" "WI_Tasklet \<notin> set q"
      "i = c_idle c \<and> q = [] \<and> queued (s_queue sys) = dropped \<or>
       resumable sys i \<and> queued (s_queue sys) = dropped @ i # queued q"
    using select_task_cases [OF nt] by blast
  have queued_idle: "j \<notin> idle_ids sys" if "j \<in> set (queued (s_queue sys))" for j
    using inv that by (auto simp: sched_inv_def places_def)
  have qi: "mset (queued (s_queue sys)) = mset dropped + (if i = c_idle c then {#} else {#i#}) + mset (queued q)"
    using sel(4) queued_idle [of i] cur(1) by auto
  have hole: "placeable t" if "j \<in># M" "unique (M + X)" "j \<in> H" "get_task j sys = Some t"
      "c_current c \<noteq> c_idle c \<and> \<not> keep \<longrightarrow> c_current c \<in># X" "j \<notin> idle_ids sys" for j t M X
  proof -
    have j: "j = c_current c" using H that(3) by (auto simp: current_task_id_def c_def)
    have "c_current c \<noteq> c_idle c" using j that(6) cur(1) by auto
    moreover have "c_current c \<notin># X" using unique_disjoint [OF that(2,1)] j by simp
    ultimately have keep using that(5) by blast
    then show ?thesis using that(4) j by (simp add: keep_def resumable_def placeable_def)
  qed
  have uni: "unique (places sys)" and nidle: "\<And>j. j \<in># places sys \<Longrightarrow> j \<notin> idle_ids sys"
    using inv by (auto simp: sched_inv_def)
  show ?thesis
  proof (cases "c_current c = i")
    case True
    have "i = c_idle c \<and> q = [] \<and> queued (s_queue sys) = dropped"
    proof (rule ccontr)
      assume "\<not> ?thesis"
      then have i: "i \<in> set (queued (s_queue sys))" using sel(4) by auto
      then have "c_current c \<noteq> c_idle c" using queued_idle cur(1) True by auto
      then show False using cur(3) i True by simp
    qed
    then have places: "places sys = places (sys\<lparr>s_queue := q\<rparr>) + mset dropped"
      using places_queue [where sys = sys and q = q] by simp
    have "sched_switch k sys = Some (sys\<lparr>s_queue := q\<rparr>)"
      using sel(1) True by (simp add: sched_switch_def Let_def drained c_def)
    moreover have "sched_inv {} (sys\<lparr>s_queue := q\<rparr>)"
    proof (rule sched_inv_shrink [OF inv _ places])
      show "rel_option task_like (get_task j sys) (get_task j (sys\<lparr>s_queue := q\<rparr>))" for j
        by (cases "get_task j sys") simp_all
      show "placeable t" if "j \<in># places (sys\<lparr>s_queue := q\<rparr>)" "j \<in> H" "get_task j sys = Some t" for j t
        using hole [OF that(1) uni [unfolded places] that(2,3)] True nidle [of j] places that(1)
          \<open>i = c_idle c \<and> q = [] \<and> queued (s_queue sys) = dropped\<close> by simp
    qed (use sel in auto)
    ultimately show ?thesis by blast
  next
    case False
    define sys3 where "sys3 = (if keep then put_cpu k (c\<lparr>c_pending := c_current c\<rparr>) (sys\<lparr>s_queue := q\<rparr>) else sys\<lparr>s_queue := q\<rparr>)"
    obtain t where t: "get_task i sys = Some t"
      using sel(4) cur(1) inv by (auto simp: sched_inv_def resumable_def split: option.splits)
    have "t_stack t \<noteq> None" using t inv by (auto simp: sched_inv_def task_ok_iff)
    moreover have c3: "c_current (s_cpus sys3 ! k) = c_current c" "k < length (s_cpus sys3)"
      "get_task j sys3 = get_task j sys" "s_queue sys3 = q" "s_next_id sys3 = s_next_id sys"
      "map c_idle (s_cpus sys3) = map c_idle (s_cpus sys)" for j
      using k by (simp_all add: sys3_def c_def map_update list_update_same_conv)
    ultimately obtain sys' where sys': "switch_to k i sys3 = Some sys'" "s_queue sys' = q" "s_next_id sys' = s_next_id sys"
        "places sys' = places (put_cpu k ((s_cpus sys3 ! k)\<lparr>c_current := i\<rparr>) sys3)"
        "map c_idle (s_cpus sys') = map c_idle (s_cpus sys)"
        "\<forall>j. rel_option task_like (get_task j sys) (get_task j sys')"
      using switch_to_cases [of sys3 k tc i t] tc t by auto
    define X where "X = mset dropped + (if c_current c \<noteq> c_idle c \<and> \<not> keep then {#c_current c#} else {#})"
    have places: "places sys = places sys' + X"
      unfolding sys'(4) X_def c_def
      by (rule switch_places [OF k pending _ qi [unfolded c_def] sys3_def [unfolded c_def]])
        (use id_not_NO_TASK [OF inv tc] in \<open>simp_all add: c_def keep_def\<close>)
    have "sched_switch k sys = Some sys'"
      using sel(1) False sys'(1) unfolding sys3_def keep_def
      by (auto simp: sched_switch_def Let_def drained c_def)
    moreover have "sched_inv {} sys'"
    proof (rule sched_inv_shrink [OF inv _ places])
      show "\<forall>j \<in># X. \<not> resumable sys j" using sel(2) by (auto simp: X_def keep_def)
      show "placeable t" if "j \<in># places sys'" "j \<in> H" "get_task j sys = Some t" for j t
        using hole [OF that(1) uni [unfolded places] that(2,3)] nidle [of j] places that(1) by (simp add: X_def)
    qed (use sel(3) sys' in auto)
    ultimately show ?thesis by blast
  qed
qed

lemma drain_nothing: "c_pending (s_cpus sys ! k) = NO_TASK \<Longrightarrow> drain_pending k sys = sys"
proof -
  assume p: "c_pending (s_cpus sys ! k) = NO_TASK"
  define c where "c = s_cpus sys ! k"
  have same: "c\<lparr>c_pending := NO_TASK\<rparr> = c" using p unfolding c_def [symmetric] by (cases c) simp
  have "put_cpu k c sys = sys" by (simp add: put_cpu_def c_def)
  then show ?thesis
    using p unfolding drain_pending_def Let_def c_def [symmetric] same by simp
qed

lemma drain_idem: "k < length (s_cpus sys) \<Longrightarrow> drain_pending k (drain_pending k sys) = drain_pending k sys"
  by (rule drain_nothing) simp

lemma sched_switch_drain: "k < length (s_cpus sys) \<Longrightarrow> sched_switch k (drain_pending k sys) = sched_switch k sys"
  unfolding sched_switch_def by (simp only: drain_idem)

lemma sched_switch_inv:
  assumes "sched_inv H sys" "k < length (s_cpus sys)" "H \<subseteq> {current_task_id k sys}"
  shows "\<exists>sys'. sched_switch k sys = Some sys' \<and> sched_inv {} sys'"
proof -
  have "H \<subseteq> {current_task_id k (drain_pending k sys)}"
    using assms(2,3) by (simp add: current_task_id_def)
  then show ?thesis
    using sched_switch_drained [OF sched_inv_drain [OF assms(1,2)], of k] drain_idem [OF assms(2)] assms(2)
      sched_switch_drain [OF assms(2)] by simp
qed

subsection \<open>Steps that change the state of a task\<close>

lemma sched_inv_task: "sched_inv H sys \<Longrightarrow> get_task i sys = Some t \<Longrightarrow> task_ok sys i t"
  by (simp add: sched_inv_def)

lemma sched_inv_place:
  "sched_inv H sys \<Longrightarrow> i \<in># places sys \<Longrightarrow>
    i \<notin> idle_ids sys \<and> (\<exists>t. get_task i sys = Some t \<and> (i \<in> H \<or> placeable t))"
  by (simp add: sched_inv_def)

lemma sched_inv_put:
  assumes inv: "sched_inv {} sys" and t: "get_task i sys = Some t" and same: "t_id t' = t_id t" "t_stack t' \<noteq> None"
    and resume: "can_resume t' \<Longrightarrow> can_resume t" and idle: "i \<in> idle_ids sys \<Longrightarrow> \<not> blocked t'"
  shows "sched_inv {i} (put_task i t' sys)"
proof -
  have ok: "task_ok (put_task i t' sys) j u" if "get_task j (put_task i t' sys) = Some u" for j u
    using that sched_inv_task [OF inv t] sched_inv_task [OF inv, of j u] same resume idle
    by (auto simp: task_ok_iff split: if_splits)
  have pl: "j \<notin> idle_ids sys \<and> (\<exists>u. get_task j (put_task i t' sys) = Some u \<and> (j \<in> {i} \<or> placeable u))"
    if "j \<in># places sys" for j
    using sched_inv_place [OF inv that] by auto
  show ?thesis
    using inv ok pl by (simp add: sched_inv_def)
qed

lemma sched_inv_fill:
  "sched_inv {i} sys \<Longrightarrow> get_task i sys = Some t \<Longrightarrow> placeable t \<or> i \<notin># places sys \<Longrightarrow> sched_inv {} sys"
  unfolding sched_inv_def by (metis empty_iff option.inject singletonD)

lemma sched_inv_put_like:
  assumes "sched_inv {} sys" "get_task i sys = Some t" "task_like t t'"
  shows "sched_inv {} (put_task i t' sys)"
proof (rule sched_inv_shrink [OF assms(1), where X = "{#}"])
  show "rel_option task_like (get_task j sys) (get_task j (put_task i t' sys))" for j
    using assms(2,3) by (cases "get_task j sys") auto
qed (use assms(1) in \<open>simp_all add: sched_inv_def\<close>)

lemma sched_inv_admit:
  assumes inv: "sched_inv {} sys" and t: "get_task i sys = Some t" "\<not> placeable t" "i \<notin> idle_ids sys"
    and t': "t_id t' = i" "t_stack t' \<noteq> None" "can_resume t'"
  shows "sched_inv {} (reenqueue_task i (put_task i t' sys))"
proof -
  have fresh: "i \<notin># places sys" using sched_inv_place [OF inv, of i] t by auto
  let ?sys = "reenqueue_task i (put_task i t' sys)"
  have ok: "task_ok ?sys j u" if "get_task j ?sys = Some u" for j u
    using that sched_inv_task [OF inv t(1)] sched_inv_task [OF inv, of j u] t' t(3)
    by (auto simp: task_ok_iff split: if_splits)
  have pl: "j \<notin> idle_ids sys \<and> (\<exists>u. get_task j ?sys = Some u \<and> placeable u)" if "j \<in># add_mset i (places sys)" for j
    using that sched_inv_place [OF inv, of j] t(3) t'(3) by (auto simp: placeable_def)
  have "unique (add_mset i (places sys))"
    using inv fresh by (auto simp: sched_inv_def unique_def not_in_iff)
  then show ?thesis
    using inv ok pl by (simp add: sched_inv_def)
qed

lemma sched_inv_wake:
  assumes inv: "sched_inv {} sys" and t: "get_task i sys = Some t" "blocked t"
    and t': "t_id t' = t_id t" "t_stack t' = t_stack t" "t_state t' = Running"
  shows "sched_inv {} (reenqueue_task i (put_task i t' sys))"
proof (rule sched_inv_admit [OF inv t(1)])
  have "\<not> can_resume t" "t_state t \<noteq> Terminated"
    using t(2) by (auto simp: blocked_def can_resume_def split: run_state.splits)
  then show "\<not> placeable t" by (simp add: placeable_def)
qed (use sched_inv_task [OF inv t(1)] t t' in \<open>auto simp: task_ok_iff can_resume_def\<close>)

lemma sched_inv_futexes [simp]: "sched_inv H (sys\<lparr>s_futexes := f\<rparr>) \<longleftrightarrow> sched_inv H sys"
  by (simp add: sched_inv_def task_ok_iff)

lemma wake_waiter_inv [idos_inv]: "sched_inv {} sys \<Longrightarrow> sched_inv {} (wake_waiter i sys)"
proof -
  assume inv: "sched_inv {} sys"
  show ?thesis
  proof (cases "get_task i sys")
    case (Some t)
    show ?thesis
    proof (cases "\<exists>a. t_state t = Blocked a Futex")
      case True
      then show ?thesis
        using Some sched_inv_wake [OF inv Some, of "t\<lparr>t_state := Running\<rparr>"]
        by (auto simp: wake_waiter_def task_futex_wake_def blocked_def)
    next
      case False
      then have "task_futex_wake t = (False, t)"
        by (auto simp: task_futex_wake_def split: run_state.splits block_type.splits)
      then show ?thesis
        using Some sched_inv_put_like [OF inv Some, of t] by (simp add: wake_waiter_def)
    qed
  qed (simp add: wake_waiter_def inv)
qed

lemma wake_loop_inv [idos_inv]: "sched_inv {} sys \<Longrightarrow> sched_inv {} (snd (wake_loop n waiters sys))"
  by (induction n waiters sys rule: wake_loop.induct) (simp_all add: idos_inv)

lemma futex_wake_inner_inv [idos_inv]: "sched_inv {} sys \<Longrightarrow> sched_inv {} (futex_wake_inner p n sys)"
  using wake_loop_inv [of sys "unat n"]
  by (auto simp: futex_wake_inner_def Let_def case_prod_beta split: option.splits)

lemma update_task_timeout_inv [idos_inv]:
  "sched_inv {} sys \<Longrightarrow> sched_inv {} (update_task_timeout ms locked i sys)"
proof -
  assume inv: "sched_inv {} sys"
  show ?thesis
  proof (cases "get_task i sys")
    case (Some t)
    have i: "t_id t = i" using sched_inv_task [OF inv Some] by (simp add: task_ok_iff)
    show ?thesis
    proof (cases "\<exists>a b. t_state t = Blocked (Some a) b")
      case True
      then obtain a b where ab: "t_state t = Blocked (Some a) b" by blast
      have "task_like t (t\<lparr>t_state := Blocked (Some (a - ms)) b\<rparr>)"
        using ab by (simp add: task_like_def can_resume_def blocked_def)
      then show ?thesis
        using Some inv i ab sched_inv_wake [OF inv Some, of "t\<lparr>t_state := Running\<rparr>"] sched_inv_put_like [OF inv Some]
        by (simp add: update_task_timeout_def update_timeout_def blocked_def)
    next
      case False
      then have "update_timeout ms t = (False, t)"
        by (auto simp: update_timeout_def split: run_state.splits option.splits)
      then show ?thesis
        using Some inv sched_inv_put_like [OF inv Some, of t] by (simp add: update_task_timeout_def)
    qed
  qed (simp add: update_task_timeout_def inv)
qed

lemma update_timeouts_inv [idos_inv]: "sched_inv {} sys \<Longrightarrow> sched_inv {} (update_timeouts ms locked sys)"
proof -
  have "sched_inv {} sys \<Longrightarrow> sched_inv {} (fold (update_task_timeout ms locked) ks sys)" for ks sys
    by (induction ks arbitrary: sys) (simp_all add: idos_inv)
  then show "sched_inv {} sys \<Longrightarrow> ?thesis" by (simp add: update_timeouts_def)
qed

lemma complete_file_mapping_inv [idos_inv]:
  "sched_inv {} sys \<Longrightarrow> sched_inv {} (complete_file_mapping i r sys)"
proof -
  assume inv: "sched_inv {} sys"
  show ?thesis
  proof (cases "get_task i sys")
    case (Some t)
    show ?thesis
    proof (cases "\<exists>a. t_state t = Blocked a FileMapping")
      case True
      then show ?thesis
        using Some sched_inv_wake [OF inv Some, of "t\<lparr>t_map_result := Some r, t_state := Running\<rparr>"]
        by (auto simp: complete_file_mapping_def resolve_file_mapping_request_def blocked_def Let_def)
    next
      case False
      then have "resolve_file_mapping_request r t = (False, t\<lparr>t_map_result := Some r\<rparr>)"
        by (auto simp: resolve_file_mapping_request_def Let_def split: run_state.splits block_type.splits)
      moreover have "task_like t (t\<lparr>t_map_result := Some r\<rparr>)"
        by (simp add: task_like_def can_resume_def blocked_def)
      ultimately show ?thesis
        using Some sched_inv_put_like [OF inv Some] by (simp add: complete_file_mapping_def)
    qed
  qed (simp add: complete_file_mapping_def inv)
qed

lemma terminate_id_inv [idos_inv]: "sched_inv {} sys \<Longrightarrow> sched_inv {} (terminate_id i sys)"
proof -
  assume inv: "sched_inv {} sys"
  show ?thesis
  proof (cases "get_task i sys")
    case (Some t)
    have "sched_inv {i} (put_task i (task_terminate t) sys)"
      using sched_inv_task [OF inv Some]
      by (intro sched_inv_put [OF inv Some]) (auto simp: task_terminate_def can_resume_def blocked_def task_ok_iff)
    then show ?thesis
      using Some sched_inv_fill [of i _ "task_terminate t"]
      by (simp add: terminate_id_def placeable_def task_terminate_def)
  qed (simp add: terminate_id_def inv)
qed

text \<open>A running task that blocks leaves a hole until its processor switches.\<close>

lemma sched_inv_block:
  assumes "sched_inv {} sys" "get_task i sys = Some t" "i \<notin> idle_ids sys" "t_id t' = t_id t" "t_stack t' = t_stack t"
    "can_resume t' \<Longrightarrow> can_resume t"
  shows "sched_inv {i} (put_task i t' sys)"
  by (rule sched_inv_put [OF assms(1,2)]) (use assms sched_inv_task [OF assms(1,2)] in \<open>auto simp: task_ok_iff\<close>)

lemma sched_inv_weaken: "sched_inv {} sys \<Longrightarrow> sched_inv H sys"
  by (auto simp: sched_inv_def)

lemma can_resume_blocked [simp]: "\<not> can_resume (t\<lparr>t_state := Blocked a b\<rparr>)"
  by (simp add: can_resume_def)

lemma futex_wait_inner_inv:
  assumes "sched_inv {} sys" "current_task_id k sys \<notin> idle_ids sys"
    "futex_wait_inner k cv v p timeout sys = Some sys'"
  shows "sched_inv {current_task_id k sys} sys' \<and> s_cpus sys' = s_cpus sys"
  using assms sched_inv_weaken [OF assms(1)]
  by (auto simp: futex_wait_inner_def Let_def task_futex_wait_def intro!: sched_inv_block split: if_splits option.splits)

lemma sleep_current_inv:
  assumes "sched_inv {} sys" "current_task_id k sys \<notin> idle_ids sys" "sleep_current k ms sys = Some sys'"
  shows "sched_inv {current_task_id k sys} sys' \<and> s_cpus sys' = s_cpus sys"
proof -
  obtain t where t: "get_task (current_task_id k sys) sys = Some t"
      "sys' = put_task (current_task_id k sys) (t\<lparr>t_state := Blocked (Some ms) Sleep\<rparr>) sys"
    using assms(3) by (auto simp: sleep_current_def Let_def task_sleep_def split: option.splits run_state.splits)
  then show ?thesis
    using sched_inv_block [OF assms(1) t(1) assms(2), of "t\<lparr>t_state := Blocked (Some ms) Sleep\<rparr>"] by simp
qed

lemma begin_file_mapping_simps:
  "t_id (begin_file_mapping_request t) = t_id t" "t_stack (begin_file_mapping_request t) = t_stack t"
  "can_resume (begin_file_mapping_request t) \<Longrightarrow> can_resume t"
  by (auto simp: begin_file_mapping_request_def split: run_state.splits if_splits)

lemma request_file_mapping_inv:
  assumes "sched_inv {} sys" "current_task_id k sys \<notin> idle_ids sys" "request_file_mapping k sys = Some sys'"
  shows "sched_inv {current_task_id k sys} sys' \<and> s_cpus sys' = s_cpus sys"
proof -
  obtain t where t: "get_task (current_task_id k sys) sys = Some t"
      "sys' = put_task (current_task_id k sys) (begin_file_mapping_request t) sys"
    using assms(3) by (auto simp: request_file_mapping_def Let_def)
  then show ?thesis
    using sched_inv_block [OF assms(1) t(1) assms(2) begin_file_mapping_simps] by simp
qed

subsection \<open>New tasks and processors\<close>

lemma get_task_next_id [simp]: "get_task i (sys\<lparr>s_next_id := n\<rparr>) = get_task i sys"
  by (simp add: get_task_def)

lemma places_next_id [simp]: "places (sys\<lparr>s_next_id := n\<rparr>) = places sys" "idle_ids (sys\<lparr>s_next_id := n\<rparr>) = idle_ids sys"
  by (simp_all add: places_def idle_ids_def)

lemma next_id_fresh:
  assumes "sched_inv H sys"
  shows "get_task (s_next_id sys) sys = None" "s_next_id sys \<notin> idle_ids sys" "s_next_id sys \<notin># places sys"
proof -
  show none: "get_task (s_next_id sys) sys = None"
    using sched_inv_task [OF assms, of "s_next_id sys"] by (cases "get_task (s_next_id sys) sys") (auto simp: task_ok_iff)
  show "s_next_id sys \<notin> idle_ids sys" using none assms by (auto simp: sched_inv_def)
  show "s_next_id sys \<notin># places sys" using none sched_inv_place [OF assms, of "s_next_id sys"] by auto
qed

lemma next_id_less: "s_next_id sys \<noteq> NO_TASK \<Longrightarrow> s_next_id sys < s_next_id sys + 1"
proof -
  assume "s_next_id sys \<noteq> NO_TASK"
  then have "unat (s_next_id sys) \<noteq> 4294967295" by (simp add: NO_TASK_def word_unat_eq_iff)
  then have "unat (s_next_id sys) + 1 < 4294967296" using unat_less_max32 [of "s_next_id sys"] by linarith
  then show ?thesis by (simp add: word_less_nat_alt unat_add_small)
qed

lemma sched_inv_new_task:
  assumes inv: "sched_inv {} sys" and n: "s_next_id sys \<noteq> NO_TASK"
    and t: "t_id t = s_next_id sys" "t_stack t \<noteq> None" "t_state t = Uninitialized"
  shows "sched_inv {} (insert_task t (sys\<lparr>s_next_id := s_next_id sys + 1\<rparr>))"
proof -
  let ?sys = "insert_task t (sys\<lparr>s_next_id := s_next_id sys + 1\<rparr>)"
  note fresh = next_id_fresh [OF inv] and less = next_id_less [OF n]
  have ok: "task_ok ?sys j u" if "get_task j ?sys = Some u" for j u
    using that sched_inv_task [OF inv, of j u] t fresh(2) less
    by (auto simp: insert_task_def task_ok_iff can_resume_def split: if_splits)
  have "j \<notin> idle_ids sys \<and> (\<exists>u. get_task j ?sys = Some u \<and> placeable u)" if "j \<in># places sys" for j
    using sched_inv_place [OF inv that] that fresh(3) t(1) by (auto simp: insert_task_def)
  moreover have "get_task j ?sys \<noteq> None" if "j \<in> idle_ids sys" for j
    using inv that by (auto simp: sched_inv_def insert_task_def)
  ultimately show ?thesis
    using inv ok by (simp add: sched_inv_def insert_task_def)
qed

lemma push_words_task:
  "push_words vs t = Some t' \<Longrightarrow> t_id t' = t_id t \<and> t_state t' = t_state t \<and> (t_stack t \<noteq> None \<longrightarrow> t_stack t' \<noteq> None)"
  by (induction vs arbitrary: t) (auto simp: stack_push_u32_def Let_def split: option.splits if_splits)

lemma create_task_inv:
  assumes "sched_inv {} sys" "s_next_id sys \<noteq> NO_TASK" "create_task k stack page_dir now sys = (i, sys')"
  shows "sched_inv {} sys'" "i \<notin> idle_ids sys'"
    "get_task i sys' = Some ((task_new i (current_task_id k sys) stack now)\<lparr>t_page_directory := page_dir\<rparr>)"
proof -
  let ?t = "(task_new (s_next_id sys) (current_task_id k sys) stack now)\<lparr>t_page_directory := page_dir\<rparr>"
  have sys': "i = s_next_id sys" "sys' = insert_task ?t (sys\<lparr>s_next_id := s_next_id sys + 1\<rparr>)"
    using assms(3) by (auto simp: create_task_def get_next_task_id_def)
  show "sched_inv {} sys'"
    unfolding sys' by (rule sched_inv_new_task [OF assms(1,2)]) (simp_all add: task_new_def)
  show "i \<notin> idle_ids sys'" using next_id_fresh [OF assms(1)] by (simp add: sys' insert_task_def)
  show "get_task i sys' = Some ((task_new i (current_task_id k sys) stack now)\<lparr>t_page_directory := page_dir\<rparr>)"
    by (simp add: sys' insert_task_def task_new_def)
qed

lemma create_kernel_task_inv:
  assumes "sched_inv {} sys" "s_next_id sys \<noteq> NO_TASK"
    "create_kernel_task k body name stack page_dir now sys = Some (i, sys')"
  shows "sched_inv {} sys'"
proof -
  obtain j sys1 where c: "create_task k stack page_dir now sys = (j, sys1)" by (cases "create_task k stack page_dir now sys")
  note new = create_task_inv [OF assms(1,2) c]
  let ?t = "(task_new j (current_task_id k sys) stack now)\<lparr>t_page_directory := page_dir\<rparr>"
  obtain t' where t': "set_entry_point body ?t = Some t'"
      "sys' = reenqueue_task j (put_task j (t'\<lparr>t_state := Running,
         t_filename := (case name of Some n \<Rightarrow> n | None \<Rightarrow> ''KERNEL'')\<rparr>) sys1)"
    using assms(3) c new(3) by (auto simp: create_kernel_task_def)
  have "t_id t' = j" "t_stack t' \<noteq> None"
    using push_words_task [OF t'(1) [unfolded set_entry_point_eq]] by (auto simp: task_new_def)
  moreover have "\<not> placeable ?t" by (simp add: task_new_def placeable_def can_resume_def)
  ultimately show ?thesis
    unfolding t'(2) by (intro sched_inv_admit [OF new(1,3) _ new(2)]) (simp_all add: can_resume_def)
qed

lemma exec_start_inv:
  assumes "sched_inv {} sys" "i \<notin> idle_ids sys" "exec_start i path e l sys = Some sys'"
  shows "sched_inv {} sys'"
proof (cases "sys' = sys")
  case False
  then obtain t t' where t: "get_task i sys = Some t" "t_state t = Uninitialized"
      "push_words (exec_frame e l) (set_filename path t) = Some t'" "sys' = reenqueue_task (t_id t') (put_task i (make_runnable t') sys)"
    using assms(3) by (auto simp: exec_start_def split: option.splits if_splits)
  have p: "t_id t' = i" "t_state t' = Uninitialized" "t_stack t' \<noteq> None"
    using push_words_task [OF t(3)] t(2) sched_inv_task [OF assms(1) t(1)] by (auto simp: set_filename_def task_ok_iff)
  have "\<not> placeable t" by (simp add: t(2) placeable_def can_resume_def)
  then show ?thesis
    unfolding t(4) p(1) by (intro sched_inv_admit [OF assms(1) t(1) _ assms(2)])
      (use p in \<open>simp_all add: make_runnable_def can_resume_def\<close>)
qed (simp add: assms(1))

lemma init_ap_inv:
  assumes inv: "sched_inv {} sys" and n: "s_next_id sys \<noteq> NO_TASK"
  shows "sched_inv {} (init_ap stack page_dir now sys)"
proof -
  let ?i = "s_next_id sys"
  let ?t = "(task_new ?i 0 stack now)\<lparr>t_page_directory := page_dir, t_filename := ''IDLE''\<rparr>"
  define sys1 where "sys1 = insert_task ?t (sys\<lparr>s_next_id := ?i + 1\<rparr>)"
  define sys2 where "sys2 = sys1\<lparr>s_cpus := s_cpus sys1 @ [cpu_scheduler_new ?i]\<rparr>"
  have eq: "init_ap stack page_dir now sys = sys2"
    by (simp add: init_ap_def create_idle_task_def get_next_task_id_def sys1_def sys2_def)
  have inv1: "sched_inv {} sys1"
    unfolding sys1_def by (rule sched_inv_new_task [OF inv n]) (simp_all add: task_new_def)
  have t: "get_task ?i sys1 = Some ?t" by (simp add: sys1_def insert_task_def task_new_def)
  have fresh: "?i \<notin># places sys1" "?i \<notin> idle_ids sys1"
    using next_id_fresh [OF inv] by (simp_all add: sys1_def insert_task_def)
  have places: "places sys2 = places sys1" "idle_ids sys2 = insert ?i (idle_ids sys1)" "get_task j sys2 = get_task j sys1"
    "s_next_id sys2 = s_next_id sys1" "s_queue sys2 = s_queue sys1" for j
    by (simp_all add: sys2_def places_def cpu_places_def cpu_scheduler_new_def idle_ids_def get_task_def)
  have ok: "task_ok sys2 j u" if "get_task j sys1 = Some u" for j u
    using sched_inv_task [OF inv1 that] that t by (cases "j = ?i") (auto simp: task_ok_iff places blocked_def task_new_def)
  have "distinct (map c_idle (s_cpus sys2))"
    using inv1 fresh(2) by (auto simp: sched_inv_def sys2_def cpu_scheduler_new_def idle_ids_def)
  moreover have "j \<notin> idle_ids sys2" if "j \<in># places sys1" for j
    using sched_inv_place [OF inv1 that] fresh(1) that by (auto simp: places)
  ultimately show ?thesis
    using inv1 ok t unfolding eq by (auto simp: sched_inv_def places)
qed

lemma boot_system_inv: "sched_inv {} (boot_system stack now)"
  by (simp add: sched_inv_def boot_system_def cpu_scheduler_new_def places_def cpu_places_def unique_def idle_ids_def
      get_task_def bt_get_def task_ok_iff create_initial_task_def task_new_def blocked_def)

section \<open>Reachable states\<close>

text \<open>
  The steps of the system when blocking and the switch that follows it are not interrupted, as the comments
  of the futex code ask for. \<open>NO_TASK\<close> guards stop before the identifiers wrap around; programs are loaded
  into tasks made by \<open>create_task\<close>.
\<close>

inductive sched_step :: "system \<Rightarrow> system \<Rightarrow> bool" where
  yield: "k < length (s_cpus sys) \<Longrightarrow> sched_switch k sys = Some sys' \<Longrightarrow> sched_step sys sys'"
| finish: "k < length (s_cpus sys) \<Longrightarrow> sched_step sys (switch_finish k sys)"
| futex_wait: "k < length (s_cpus sys) \<Longrightarrow> current_task_id k sys \<notin> idle_ids sys \<Longrightarrow>
    futex_wait_inner k cv v p timeout sys = Some sys1 \<Longrightarrow> sched_switch k sys1 = Some sys' \<Longrightarrow> sched_step sys sys'"
| sleep: "k < length (s_cpus sys) \<Longrightarrow> current_task_id k sys \<notin> idle_ids sys \<Longrightarrow>
    sleep_current k ms sys = Some sys1 \<Longrightarrow> sched_switch k sys1 = Some sys' \<Longrightarrow> sched_step sys sys'"
| page_in: "k < length (s_cpus sys) \<Longrightarrow> current_task_id k sys \<notin> idle_ids sys \<Longrightarrow>
    request_file_mapping k sys = Some sys1 \<Longrightarrow> sched_switch k sys1 = Some sys' \<Longrightarrow> sched_step sys sys'"
| futex_wake: "sched_step sys (futex_wake_inner p n sys)"
| clock: "sched_step sys (update_timeouts ms locked sys)"
| paged_in: "sched_step sys (complete_file_mapping i r sys)"
| create: "s_next_id sys \<noteq> NO_TASK \<Longrightarrow> create_task k stack page_dir now sys = (i, sys') \<Longrightarrow> sched_step sys sys'"
| create_kernel: "s_next_id sys \<noteq> NO_TASK \<Longrightarrow>
    create_kernel_task k body name stack page_dir now sys = Some (i, sys') \<Longrightarrow> sched_step sys sys'"
| exec: "i \<notin> idle_ids sys \<Longrightarrow> exec_start i path e l sys = Some sys' \<Longrightarrow> sched_step sys sys'"
| exit: "sched_step sys (terminate_id i sys)"
| processor: "s_next_id sys \<noteq> NO_TASK \<Longrightarrow> sched_step sys (init_ap stack page_dir now sys)"

lemma switch_after_block:
  assumes "sched_inv {current_task_id k sys} sys1 \<and> s_cpus sys1 = s_cpus sys" "k < length (s_cpus sys)"
    "sched_switch k sys1 = Some sys'"
  shows "sched_inv {} sys'"
  using sched_switch_inv [of "{current_task_id k sys}" sys1 k] assms by (auto simp: current_task_id_def)

lemma sched_step_inv: "sched_step sys sys' \<Longrightarrow> sched_inv {} sys \<Longrightarrow> sched_inv {} sys'"
proof (induction rule: sched_step.induct)
  case (yield k sys sys')
  then show ?case using sched_switch_inv [of "{}" sys k] by auto
next
  case (finish k sys)
  then show ?case by (simp add: switch_finish_def sched_inv_drain)
next
  case (futex_wait k sys)
  then show ?case using switch_after_block futex_wait_inner_inv by blast
next
  case (sleep k sys)
  then show ?case using switch_after_block sleep_current_inv by blast
next
  case (page_in k sys)
  then show ?case using switch_after_block request_file_mapping_inv by blast
qed (auto intro: idos_inv create_task_inv create_kernel_task_inv exec_start_inv init_ap_inv)

inductive sched_reachable :: "system \<Rightarrow> bool" where
  boot: "sched_reachable (boot_system stack now)"
| step: "sched_reachable sys \<Longrightarrow> sched_step sys sys' \<Longrightarrow> sched_reachable sys'"

lemma sched_reachable_inv: "sched_reachable sys \<Longrightarrow> sched_inv {} sys"
  by (induction rule: sched_reachable.induct) (auto intro: boot_system_inv sched_step_inv)

lemma mset_two:
  assumes "j < length xs" "k < length xs" "j \<noteq> k"
  obtains M where "mset xs = add_mset (xs ! j) (add_mset (xs ! k) M)"
proof -
  let ?ys = "take j xs @ drop (Suc j) xs"
  have "mset xs = mset (take j xs @ xs ! j # drop (Suc j) xs)"
    using id_take_nth_drop [OF assms(1)] by simp
  then have xs: "mset xs = add_mset (xs ! j) (mset ?ys)" by simp
  have "xs ! k \<in> set ?ys"
  proof (cases "k < j")
    case True
    then show ?thesis using assms(1) by (auto simp: in_set_conv_nth intro!: exI [of _ k])
  next
    case False
    then have "xs ! k = drop (Suc j) xs ! (k - Suc j)" "k - Suc j < length (drop (Suc j) xs)"
      using assms by simp_all
    then show ?thesis by (metis UnCI nth_mem set_append)
  qed
  then obtain M where "mset ?ys = add_mset (xs ! k) M"
    using multi_member_split [of "xs ! k" "mset ?ys"] by auto
  then show thesis using that xs by simp
qed

lemma currents_differ:
  assumes inv: "sched_inv {} sys" and jk: "j < length (s_cpus sys)" "k < length (s_cpus sys)" "j \<noteq> k"
  shows "current_task_id j sys \<noteq> current_task_id k sys"
proof
  let ?c = "s_cpus sys ! j" and ?d = "s_cpus sys ! k"
  assume eq: "current_task_id j sys = current_task_id k sys"
  have idle: "c_idle ?c \<noteq> c_idle ?d"
    using inv jk nth_eq_iff_index_eq [of "map c_idle (s_cpus sys)" j k] by (simp add: sched_inv_def)
  have ids: "c_idle ?c \<in> idle_ids sys" "c_idle ?d \<in> idle_ids sys" using jk by (simp_all add: idle_ids_def)
  obtain M where "mset (s_cpus sys) = add_mset ?c (add_mset ?d M)"
    by (rule mset_two [OF jk])
  then have p: "places sys = cpu_places ?c + (cpu_places ?d + ((\<Sum>c \<in># M. cpu_places c) + mset (queued (s_queue sys))))"
    by (simp add: places_def)
  have in_places: "c_current ?c \<noteq> c_idle ?c \<Longrightarrow> c_current ?c \<in># cpu_places ?c"
    "c_current ?d \<noteq> c_idle ?d \<Longrightarrow> c_current ?d \<in># cpu_places ?d" by (simp_all add: cpu_places_def)
  have "unique (places sys)" using inv by (simp add: sched_inv_def)
  note apart = unique_disjoint [OF this [unfolded p], of "c_current ?c"]
  show False
    using eq idle ids in_places apart sched_inv_place [OF inv, of "c_current ?c"] p
    by (cases "c_current ?c = c_idle ?c"; cases "c_current ?d = c_idle ?d") (auto simp: current_task_id_def)
qed


definition example_stack :: kernel_stack where
  "example_stack = \<lparr>ks_base = 0xfe000000, ks_bytes = replicate 64 0\<rparr>"

text \<open>Two processors (idle tasks 0 and 1) and the kernel tasks 2 and 3, both queued.\<close>

definition two_processors :: system where
  "two_processors = init_ap example_stack 0x5000 0 (boot_system example_stack 0)"

definition two_tasks :: "system option" where
  "two_tasks =
     (case create_kernel_task 0 0xc0101000 None example_stack 0x6000 0 two_processors of
        None \<Rightarrow> None
      | Some (i, sys) \<Rightarrow>
          map_option snd (create_kernel_task 0 0xc0102000 None example_stack 0x7000 0 sys))"

lemma two_tasks_reachable: "two_tasks = Some sys \<Longrightarrow> sched_reachable sys"
proof -
  assume "two_tasks = Some sys"
  then obtain i sys1 j where c: "create_kernel_task 0 0xc0101000 None example_stack 0x6000 0 two_processors = Some (i, sys1)"
      "create_kernel_task 0 0xc0102000 None example_stack 0x7000 0 sys1 = Some (j, sys)"
    by (auto simp: two_tasks_def split: option.splits)
  have r2: "sched_reachable two_processors" unfolding two_processors_def
    by (rule sched_reachable.step [OF sched_reachable.boot]) (rule sched_step.processor, simp add: boot_system_def NO_TASK_def)
  have n2: "s_next_id two_processors = 2"
    by (simp add: two_processors_def init_ap_def create_idle_task_def get_next_task_id_def insert_task_def boot_system_def)
  have r3: "sched_reachable sys1"
    by (rule sched_reachable.step [OF r2 sched_step.create_kernel [OF _ c(1)]]) (simp add: n2 NO_TASK_def)
  have n3: "s_next_id sys1 = 3"
    using c(1) n2 by (auto simp: create_kernel_task_def create_task_def get_next_task_id_def insert_task_def Let_def split: option.splits)
  show ?thesis
    by (rule sched_reachable.step [OF r3 sched_step.create_kernel [OF _ c(2)]]) (simp add: n3 NO_TASK_def)
qed

text \<open>The two tasks running side by side.\<close>

definition side_by_side :: "system option" where
  "side_by_side =
     (case two_tasks of
        None \<Rightarrow> None
      | Some sys \<Rightarrow> (case sched_switch 0 sys of None \<Rightarrow> None | Some sys1 \<Rightarrow> sched_switch 1 sys1))"

lemma side_by_side_runs:
  "case side_by_side of None \<Rightarrow> False
   | Some sys \<Rightarrow> length (s_cpus sys) = 2 \<and> current_task_id 0 sys = 2 \<and> current_task_id 1 sys = 3"
  by code_simp

lemma side_by_side_reachable: "side_by_side = Some sys \<Longrightarrow> sched_reachable sys"
proof -
  assume "side_by_side = Some sys"
  then obtain sys0 sys1 where s: "two_tasks = Some sys0" "sched_switch 0 sys0 = Some sys1" "sched_switch 1 sys1 = Some sys"
    by (auto simp: side_by_side_def split: option.splits)
  have "case two_tasks of None \<Rightarrow> False | Some sys \<Rightarrow> length (s_cpus sys) = 2 \<and>
      (case sched_switch 0 sys of None \<Rightarrow> False | Some sys1 \<Rightarrow> length (s_cpus sys1) = 2)"
    by code_simp
  then have "0 < length (s_cpus sys0)" "1 < length (s_cpus sys1)" using s(2) unfolding s(1) by simp_all
  note step = sched_step.yield [OF this(1) s(2)] sched_step.yield [OF this(2) s(3)]
  show ?thesis
    by (rule sched_reachable.step [OF sched_reachable.step [OF two_tasks_reachable [OF s(1)] step(1)] step(2)])
qed


section \<open>Fairness\<close>

lemma select_task_advances:
  assumes "select_task sys idle (q @ WI_Task i # rest) = Some (j, q')" "resumable sys i"
  shows "j = i \<and> q' = rest \<or> (\<exists>p. q' = p @ WI_Task i # rest \<and> length p < length q)"
  using assms
proof (induction q)
  case (Cons w q)
  then show ?case
    by (cases w) (auto split: if_splits)
qed simp

lemma switch_to_current:
  "switch_to k i sys = Some sys' \<Longrightarrow> k < length (s_cpus sys) \<Longrightarrow> current_task_id k sys' = i \<and> s_queue sys' = s_queue sys"
  by (auto simp: switch_to_def Let_def current_task_id_def split: option.splits run_state.splits)



section \<open>Futexes\<close>

definition state_of :: "task_id \<Rightarrow> system \<Rightarrow> run_state option" where
  "state_of i sys = map_option t_state (get_task i sys)"

lemma wake_waiter_blocked:
  assumes "state_of i sys = Some (Blocked a Futex)"
  shows "s_queue (wake_waiter i sys) = s_queue sys @ [WI_Task i]" "s_futexes (wake_waiter i sys) = s_futexes sys"
    "state_of j (wake_waiter i sys) = (if j = i then Some Running else state_of j sys)"
  using assms by (auto simp: state_of_def wake_waiter_def task_futex_wake_def reenqueue_task_def put_task_def get_task_def)

lemma wake_loop_blocked:
  assumes "distinct waiters" "\<forall>i \<in> set waiters. \<exists>a. state_of i sys = Some (Blocked a Futex)"
  shows "fst (wake_loop n waiters sys) = drop n waiters"
    "s_queue (snd (wake_loop n waiters sys)) = s_queue sys @ map WI_Task (take n waiters)"
    "s_futexes (snd (wake_loop n waiters sys)) = s_futexes sys"
    "state_of j (snd (wake_loop n waiters sys)) = (if j \<in> set (take n waiters) then Some Running else state_of j sys)"
proof -
  have "fst (wake_loop n waiters sys) = drop n waiters \<and>
    s_queue (snd (wake_loop n waiters sys)) = s_queue sys @ map WI_Task (take n waiters) \<and>
    s_futexes (snd (wake_loop n waiters sys)) = s_futexes sys \<and>
    (\<forall>j. state_of j (snd (wake_loop n waiters sys)) = (if j \<in> set (take n waiters) then Some Running else state_of j sys))"
    using assms
  proof (induction n waiters sys rule: wake_loop.induct)
    case (3 n i waiters sys)
    obtain a where a: "state_of i sys = Some (Blocked a Futex)" using 3 by auto
    have "distinct waiters" "\<forall>j \<in> set waiters. \<exists>a. state_of j (wake_waiter i sys) = Some (Blocked a Futex)"
      using 3 wake_waiter_blocked(3) [OF a] by auto
    from "3.IH" [OF this] show ?case by (auto simp: wake_waiter_blocked [OF a])
  qed simp_all
  then show "fst (wake_loop n waiters sys) = drop n waiters"
    "s_queue (snd (wake_loop n waiters sys)) = s_queue sys @ map WI_Task (take n waiters)"
    "s_futexes (snd (wake_loop n waiters sys)) = s_futexes sys"
    "state_of j (snd (wake_loop n waiters sys)) = (if j \<in> set (take n waiters) then Some Running else state_of j sys)"
    by blast+
qed

text \<open>
  (C22) When every task registered at a futex is blocked on one, waking \<open>n\<close> of them resumes exactly the \<open>n\<close>
  that have waited longest, puts them at the end of the work queue in the order they arrived, leaves
  the others blocked and registered, and drops the entry of the futex when nobody is left.
\<close>

theorem futex_wakes_longest_waiting:
  assumes "bt_get p (s_futexes sys) = Some waiters" "distinct waiters"
    "\<forall>i \<in> set waiters. \<exists>a. state_of i sys = Some (Blocked a Futex)" "0 < n"
  shows "s_queue (futex_wake_inner p n sys) = s_queue sys @ map WI_Task (take (unat n) waiters) \<and>
    (\<forall>j. state_of j (futex_wake_inner p n sys) =
      (if j \<in> set (take (unat n) waiters) then Some Running else state_of j sys)) \<and>
    bt_get p (s_futexes (futex_wake_inner p n sys)) =
      (if length waiters \<le> unat n then None else Some (drop (unat n) waiters))"
proof -
  let ?r = "wake_loop (unat n) waiters sys"
  note w = wake_loop_blocked [OF assms(2,3), where n = "unat n"]
  have st: "state_of j (s\<lparr>s_futexes := f\<rparr>) = state_of j s" for j f and s :: system by (simp add: state_of_def)
  have "futex_wake_inner p n sys =
      (if drop (unat n) waiters = [] then (snd ?r)\<lparr>s_futexes := bt_remove p (s_futexes (snd ?r))\<rparr>
       else (snd ?r)\<lparr>s_futexes := bt_insert p (drop (unat n) waiters) (s_futexes (snd ?r))\<rparr>)"
    using assms(1,4) w(1) by (simp add: futex_wake_inner_def Let_def case_prod_beta)
  then show ?thesis using w(2-4) by (simp add: st)
qed

theorem futex_wakes_longest_waiting_witness:
  "let sys = (boot_system example_stack 0)\<lparr>s_tasks :=
        [(4, (task_new 4 0 example_stack 0)\<lparr>t_state := Blocked None Futex\<rparr>),
         (5, (task_new 5 0 example_stack 0)\<lparr>t_state := Blocked None Futex\<rparr>)], s_futexes := [(0x9000, [5, 4])]\<rparr>
   in s_queue (futex_wake_inner 0x9000 1 sys) = [WI_Task 5] \<and>
      bt_get 0x9000 (s_futexes (futex_wake_inner 0x9000 1 sys)) = Some [4]"
proof -
  let ?sys = "(boot_system example_stack 0)\<lparr>s_tasks :=
        [(4, (task_new 4 0 example_stack 0)\<lparr>t_state := Blocked None Futex\<rparr>),
         (5, (task_new 5 0 example_stack 0)\<lparr>t_state := Blocked None Futex\<rparr>)], s_futexes := [(0x9000, [5, 4])]\<rparr>"
  have "bt_get 0x9000 (s_futexes ?sys) = Some [5, 4]" by (simp add: bt_get_def)
  from futex_wakes_longest_waiting [OF this, of 1] show ?thesis
    by (simp add: state_of_def get_task_def bt_get_def boot_system_def Let_def)
qed


text \<open>
  (C40) Without the exclusion between blocking and switching the scheduler runs one task on two processors: a
  task registers as waiting and blocks, a task on the other processor wakes it before the first processor
  has switched away from it, and the other processor then picks it from the queue.
\<close>

theorem woken_task_runs_on_two_processors:
  "\<exists>sys s1 s2. sched_reachable sys \<and> futex_wait_inner 0 1 1 (Some 0x9000) None sys = Some s1 \<and>
     sched_switch 1 (futex_wake_inner 0x9000 1 s1) = Some s2 \<and> current_task_id 0 s2 = 2 \<and> current_task_id 1 s2 = 2"
proof -
  have "case side_by_side of None \<Rightarrow> False
     | Some sys \<Rightarrow> (case futex_wait_inner 0 1 1 (Some 0x9000) None sys of None \<Rightarrow> False
     | Some s1 \<Rightarrow> (case sched_switch 1 (futex_wake_inner 0x9000 1 s1) of None \<Rightarrow> False
     | Some s2 \<Rightarrow> current_task_id 0 s2 = 2 \<and> current_task_id 1 s2 = 2))"
    by code_simp
  then obtain sys s1 s2 where r: "side_by_side = Some sys" and s: "futex_wait_inner 0 1 1 (Some 0x9000) None sys = Some s1"
      "sched_switch 1 (futex_wake_inner 0x9000 1 s1) = Some s2" "current_task_id 0 s2 = 2" "current_task_id 1 s2 = 2"
    by (auto split: option.splits)
  show ?thesis using side_by_side_reachable [OF r] s by blast
qed

end
