(* ===== verification/Lba_Hash.thy ===== *)
theory Lba_Hash
  imports Idos_Prelude
begin

text \<open>
  The hash index of the sector cache of the FAT driver (\<^verbatim>\<open>hash_lookup\<close>, \<^verbatim>\<open>hash_insert\<close> and \<^verbatim>\<open>hash_remove\<close>
  of \<^verbatim>\<open>components/drivers/fatdriver/src/disk.rs\<close>): open addressing with linear probing; removal closes the
  gap by inserting the rest of the run again.

  The table holds slot numbers; \<open>key\<close> is the sector number (LBA) of a slot, which the code reads from the
  cache entries. The loop that closes a gap has no bound in the source; \<open>None\<close> means it did not end
  after one turn around the table, which is shown not to happen.
\<close>

section \<open>Operations\<close>

type_synonym hash_table = "u16 list"

definition HASH_TABLE_SIZE :: nat where "HASH_TABLE_SIZE = 256"
definition HASH_EMPTY :: u16 where "HASH_EMPTY = 0xFFFF"

definition hash_lba :: "u32 \<Rightarrow> nat" where
  "hash_lba lba = unat (drop_bit 16 (lba * 2654435761)) mod HASH_TABLE_SIZE"

definition next_cell :: "nat \<Rightarrow> nat" where
  "next_cell idx = (idx + 1) mod HASH_TABLE_SIZE"

fun lookup_loop :: "(nat \<Rightarrow> u32) \<Rightarrow> u32 \<Rightarrow> hash_table \<Rightarrow> nat \<Rightarrow> nat \<Rightarrow> nat option" where
  "lookup_loop key lba tbl 0 idx = None"
| "lookup_loop key lba tbl (Suc n) idx =
     (let slot = tbl ! idx
      in if slot = HASH_EMPTY then None
         else if key (unat slot) = lba then Some (unat slot)
         else lookup_loop key lba tbl n (next_cell idx))"

definition hash_lookup :: "(nat \<Rightarrow> u32) \<Rightarrow> hash_table \<Rightarrow> u32 \<Rightarrow> nat option" where
  "hash_lookup key tbl lba = lookup_loop key lba tbl HASH_TABLE_SIZE (hash_lba lba)"

fun insert_loop :: "hash_table \<Rightarrow> nat \<Rightarrow> nat \<Rightarrow> nat \<Rightarrow> hash_table" where
  "insert_loop tbl slot 0 idx = tbl"
| "insert_loop tbl slot (Suc n) idx =
     (if tbl ! idx = HASH_EMPTY then tbl[idx := of_nat slot] else insert_loop tbl slot n (next_cell idx))"

definition hash_insert :: "hash_table \<Rightarrow> u32 \<Rightarrow> nat \<Rightarrow> hash_table" where
  "hash_insert tbl lba slot = insert_loop tbl slot HASH_TABLE_SIZE (hash_lba lba)"

fun rehash_loop :: "(nat \<Rightarrow> u32) \<Rightarrow> hash_table \<Rightarrow> nat \<Rightarrow> nat \<Rightarrow> hash_table option" where
  "rehash_loop key tbl 0 nxt = None"
| "rehash_loop key tbl (Suc n) nxt =
     (if tbl ! nxt = HASH_EMPTY then Some tbl
      else let rehash_slot = tbl ! nxt; rehash_lba = key (unat rehash_slot)
           in rehash_loop key (hash_insert (tbl[nxt := HASH_EMPTY]) rehash_lba (unat rehash_slot)) n (next_cell nxt))"

fun remove_loop :: "(nat \<Rightarrow> u32) \<Rightarrow> u32 \<Rightarrow> hash_table \<Rightarrow> nat \<Rightarrow> nat \<Rightarrow> hash_table option" where
  "remove_loop key lba tbl 0 idx = Some tbl"
| "remove_loop key lba tbl (Suc n) idx =
     (let slot = tbl ! idx
      in if slot = HASH_EMPTY then Some tbl
         else if key (unat slot) = lba
              then rehash_loop key (tbl[idx := HASH_EMPTY]) HASH_TABLE_SIZE (next_cell idx)
              else remove_loop key lba tbl n (next_cell idx))"

definition hash_remove :: "(nat \<Rightarrow> u32) \<Rightarrow> hash_table \<Rightarrow> u32 \<Rightarrow> hash_table option" where
  "hash_remove key tbl lba = remove_loop key lba tbl HASH_TABLE_SIZE (hash_lba lba)"

section \<open>Cutting the circle at an empty cell\<close>

text \<open>
  \<open>coord e i\<close> is the distance of cell \<open>i\<close> from the cell after the empty cell \<open>e\<close>. Probing never passes \<open>e\<close>, so in
  these coordinates every probe runs upwards.
\<close>

definition coord :: "nat \<Rightarrow> nat \<Rightarrow> nat" where
  "coord e i = (if e < i then i - Suc e else i + HASH_TABLE_SIZE - Suc e)"

lemma hash_lba_less [simp]: "hash_lba lba < HASH_TABLE_SIZE"
  by (simp add: hash_lba_def HASH_TABLE_SIZE_def)

lemma next_cell_less [simp]: "next_cell i < HASH_TABLE_SIZE"
  by (simp add: next_cell_def HASH_TABLE_SIZE_def)

lemma next_cell_eq: "i < HASH_TABLE_SIZE \<Longrightarrow> next_cell i = (if Suc i = HASH_TABLE_SIZE then 0 else Suc i)"
  by (simp add: next_cell_def HASH_TABLE_SIZE_def)

lemma coord_less: "e < HASH_TABLE_SIZE \<Longrightarrow> i < HASH_TABLE_SIZE \<Longrightarrow> coord e i < HASH_TABLE_SIZE"
  by (auto simp: coord_def)

lemma coord_inj: "e < HASH_TABLE_SIZE \<Longrightarrow> i < HASH_TABLE_SIZE \<Longrightarrow> j < HASH_TABLE_SIZE \<Longrightarrow>
  coord e i = coord e j \<longleftrightarrow> i = j"
  by (auto simp: coord_def split: if_splits)

lemma coord_self: "coord e e = HASH_TABLE_SIZE - 1"
  by (simp add: coord_def HASH_TABLE_SIZE_def)

lemma coord_below_self:
  "e < HASH_TABLE_SIZE \<Longrightarrow> i < HASH_TABLE_SIZE \<Longrightarrow> i \<noteq> e \<Longrightarrow> coord e i < coord e e"
  by (auto simp: coord_def)

lemma coord_next:
  "e < HASH_TABLE_SIZE \<Longrightarrow> i < HASH_TABLE_SIZE \<Longrightarrow> i \<noteq> e \<Longrightarrow> coord e (next_cell i) = Suc (coord e i)"
  by (auto simp: coord_def next_cell_eq)

lemma funpow_next_less: "h < HASH_TABLE_SIZE \<Longrightarrow> (next_cell ^^ d) h < HASH_TABLE_SIZE"
  by (induction d) simp_all

text \<open>Cell \<open>i\<close> is found by probing from \<open>h\<close>.\<close>

definition probes :: "hash_table \<Rightarrow> nat \<Rightarrow> nat \<Rightarrow> bool" where
  "probes tbl h i \<longleftrightarrow> (\<exists>d < HASH_TABLE_SIZE. (next_cell ^^ d) h = i \<and>
     (\<forall>d' < d. tbl ! ((next_cell ^^ d') h) \<noteq> HASH_EMPTY))"

definition upward :: "nat \<Rightarrow> hash_table \<Rightarrow> nat \<Rightarrow> nat \<Rightarrow> bool" where
  "upward e tbl h i \<longleftrightarrow> coord e h \<le> coord e i \<and>
     (\<forall>j < HASH_TABLE_SIZE. coord e h \<le> coord e j \<and> coord e j < coord e i \<longrightarrow> tbl ! j \<noteq> HASH_EMPTY)"

lemma coord_funpow:
  assumes "e < HASH_TABLE_SIZE" "h < HASH_TABLE_SIZE" "\<forall>d' < d. (next_cell ^^ d') h \<noteq> e"
  shows "coord e ((next_cell ^^ d) h) = coord e h + d"
  using assms(3)
proof (induction d)
  case (Suc d)
  then have "coord e ((next_cell ^^ d) h) = coord e h + d" "(next_cell ^^ d) h \<noteq> e" by simp_all
  then show ?case using coord_next [OF assms(1) funpow_next_less [OF assms(2)]] by simp
qed simp

lemma probes_upward:
  assumes e: "e < HASH_TABLE_SIZE" "tbl ! e = HASH_EMPTY" and h: "h < HASH_TABLE_SIZE" and i: "i < HASH_TABLE_SIZE"
  shows "probes tbl h i \<longleftrightarrow> upward e tbl h i"
proof
  assume "probes tbl h i"
  then obtain d where d: "(next_cell ^^ d) h = i" "\<forall>d' < d. tbl ! ((next_cell ^^ d') h) \<noteq> HASH_EMPTY"
    by (auto simp: probes_def)
  have co: "coord e ((next_cell ^^ d') h) = coord e h + d'" if "d' \<le> d" for d'
    using that d(2) e by (intro coord_funpow h) auto
  have "tbl ! j \<noteq> HASH_EMPTY" if j: "j < HASH_TABLE_SIZE" "coord e h \<le> coord e j" "coord e j < coord e i" for j
  proof -
    define d' where "d' = coord e j - coord e h"
    have "d' < d" using co [of d] d(1) j by (simp add: d'_def)
    moreover have "(next_cell ^^ d') h = j"
      using co [of d'] \<open>d' < d\<close> j coord_inj [OF e(1) funpow_next_less [OF h] j(1), of d'] by (simp add: d'_def)
    ultimately show ?thesis using d(2) by blast
  qed
  then show "upward e tbl h i" using co [of d] d(1) by (auto simp: upward_def)
next
  assume u: "upward e tbl h i"
  define d where "d = coord e i - coord e h"
  have path: "coord e ((next_cell ^^ d') h) = coord e h + d'" if "d' \<le> d" for d'
    using that
  proof (induction d')
    case (Suc d')
    then have c: "coord e ((next_cell ^^ d') h) = coord e h + d'" by simp
    have "coord e h + d' < coord e i" using Suc.prems u by (simp add: d_def upward_def)
    also have "coord e i \<le> coord e e" using coord_below_self [OF e(1) i] by (cases "i = e") auto
    finally have "(next_cell ^^ d') h \<noteq> e" using c by auto
    then show ?case using c coord_next [OF e(1) funpow_next_less [OF h]] by simp
  qed simp
  have "(next_cell ^^ d) h = i"
    using path [of d] u coord_inj [OF e(1) funpow_next_less [OF h] i, of d] by (simp add: d_def upward_def)
  moreover have "tbl ! ((next_cell ^^ d') h) \<noteq> HASH_EMPTY" if "d' < d" for d'
    using that path [of d'] u funpow_next_less [OF h, of d'] by (simp add: d_def upward_def)
  moreover have "d < HASH_TABLE_SIZE" using coord_less [OF e(1) i] by (simp add: d_def)
  ultimately show "probes tbl h i" by (auto simp: probes_def)
qed

section \<open>Well-formed tables\<close>

text \<open>\<open>S\<close> are the slots in the table. Each has one cell, and probing from the hash of its key finds it.\<close>

definition slots_in :: "hash_table \<Rightarrow> nat set" where
  "slots_in tbl = {unat (tbl ! i) | i. i < HASH_TABLE_SIZE \<and> tbl ! i \<noteq> HASH_EMPTY}"

definition one_cell_each :: "hash_table \<Rightarrow> bool" where
  "one_cell_each tbl \<longleftrightarrow> (\<forall>i < HASH_TABLE_SIZE. \<forall>j < HASH_TABLE_SIZE.
     tbl ! i \<noteq> HASH_EMPTY \<and> tbl ! i = tbl ! j \<longrightarrow> i = j)"

definition hash_ok :: "(nat \<Rightarrow> u32) \<Rightarrow> nat set \<Rightarrow> hash_table \<Rightarrow> bool" where
  "hash_ok key S tbl \<longleftrightarrow> length tbl = HASH_TABLE_SIZE \<and> slots_in tbl = S \<and> one_cell_each tbl \<and>
     (\<forall>i < HASH_TABLE_SIZE. tbl ! i \<noteq> HASH_EMPTY \<longrightarrow> probes tbl (hash_lba (key (unat (tbl ! i)))) i)"

lemma of_nat_slot:
  "s < 0xFFFF \<Longrightarrow> (of_nat s :: u16) \<noteq> HASH_EMPTY \<and> unat (of_nat s :: u16) = s"
proof -
  assume "s < 0xFFFF"
  then have "unat (of_nat s :: u16) = s" by (simp add: unat_of_nat_small)
  then show ?thesis using \<open>s < 0xFFFF\<close> by (auto simp: HASH_EMPTY_def)
qed

lemma slot_less: "tbl ! i \<noteq> HASH_EMPTY \<Longrightarrow> unat (tbl ! i) < 0xFFFF"
proof -
  assume "tbl ! i \<noteq> HASH_EMPTY"
  then have "unat (tbl ! i) \<noteq> 0xFFFF" by (simp add: HASH_EMPTY_def word_unat_eq_iff)
  moreover have "unat (tbl ! i) < 2 ^ 16" using unsigned_less [of "tbl ! i"] by simp
  ultimately show ?thesis by simp
qed

lemma empty_cell:
  assumes "hash_ok key S tbl" "card S < HASH_TABLE_SIZE"
  obtains e where "e < HASH_TABLE_SIZE" "tbl ! e = HASH_EMPTY"
proof -
  have "\<exists>e < HASH_TABLE_SIZE. tbl ! e = HASH_EMPTY"
  proof (rule ccontr)
    assume "\<not> ?thesis"
    then have all: "\<forall>i < HASH_TABLE_SIZE. tbl ! i \<noteq> HASH_EMPTY" by blast
    have "inj_on (\<lambda>i. unat (tbl ! i)) {..<HASH_TABLE_SIZE}"
      using assms(1) all by (auto simp: hash_ok_def one_cell_each_def inj_on_def word_unat_eq_iff)
    moreover have "S = (\<lambda>i. unat (tbl ! i)) ` {..<HASH_TABLE_SIZE}"
      using assms(1) all by (auto simp: hash_ok_def slots_in_def)
    ultimately have "card S = HASH_TABLE_SIZE" by (simp add: card_image)
    with assms(2) show False by simp
  qed
  then show thesis using that by blast
qed

lemma probes_fill: "probes tbl h i \<Longrightarrow> x \<noteq> HASH_EMPTY \<Longrightarrow> length tbl = HASH_TABLE_SIZE \<Longrightarrow> probes (tbl[q := x]) h i"
  unfolding probes_def by (metis nth_list_update_eq nth_list_update_neq list_update_beyond not_less)

section \<open>Insertion\<close>

lemma insert_loop_first_empty:
  assumes "e < HASH_TABLE_SIZE" "tbl ! e = HASH_EMPTY" "i < HASH_TABLE_SIZE" "HASH_TABLE_SIZE - coord e i \<le> n"
  shows "\<exists>q < HASH_TABLE_SIZE. insert_loop tbl slot n i = tbl[q := of_nat slot] \<and> tbl ! q = HASH_EMPTY \<and> upward e tbl i q"
  using assms(3,4)
proof (induction n arbitrary: i)
  case 0
  then show ?case using coord_less [OF assms(1), of i] by simp
next
  case (Suc n)
  show ?case
  proof (cases "tbl ! i = HASH_EMPTY")
    case True
    then show ?thesis using Suc.prems(1) by (intro exI [of _ i]) (auto simp: upward_def)
  next
    case False
    then have "i \<noteq> e" using assms(2) by auto
    then have c: "coord e (next_cell i) = Suc (coord e i)" by (rule coord_next [OF assms(1) Suc.prems(1)])
    then have "HASH_TABLE_SIZE - coord e (next_cell i) \<le> n" using Suc.prems(2) by simp
    from Suc.IH [OF next_cell_less this]
    obtain q where q: "q < HASH_TABLE_SIZE" "insert_loop tbl slot n (next_cell i) = tbl[q := of_nat slot]"
        "tbl ! q = HASH_EMPTY" "upward e tbl (next_cell i) q"
      by blast
    have "upward e tbl i q"
      unfolding upward_def
    proof (intro conjI allI impI)
      show "coord e i \<le> coord e q" using q(4) c by (simp add: upward_def)
      fix j assume j: "j < HASH_TABLE_SIZE" "coord e i \<le> coord e j \<and> coord e j < coord e q"
      show "tbl ! j \<noteq> HASH_EMPTY"
        using q(4) c j False coord_inj [OF assms(1) Suc.prems(1) j(1)]
        by (cases "j = i") (auto simp: upward_def)
    qed
    then show ?thesis using q False by auto
  qed
qed

lemma hash_insert_first_empty:
  assumes "e < HASH_TABLE_SIZE" "tbl ! e = HASH_EMPTY"
  obtains q where "q < HASH_TABLE_SIZE" "hash_insert tbl lba slot = tbl[q := of_nat slot]" "tbl ! q = HASH_EMPTY"
    "upward e tbl (hash_lba lba) q"
  using insert_loop_first_empty [OF assms hash_lba_less, of lba HASH_TABLE_SIZE slot] by (auto simp: hash_insert_def)

lemma slots_in_update:
  assumes "length tbl = HASH_TABLE_SIZE" "q < HASH_TABLE_SIZE" "tbl ! q = HASH_EMPTY" "slot < 0xFFFF"
  shows "slots_in (tbl[q := of_nat slot]) = insert slot (slots_in tbl)"
  using assms of_nat_slot [OF assms(4)]
  by (auto simp: slots_in_def nth_list_update split: if_splits intro: exI [of _ q])

lemma hash_insert_ok:
  assumes ok: "hash_ok key S tbl" and room: "card S < HASH_TABLE_SIZE" and slot: "slot < 0xFFFF" "slot \<notin> S"
    and key': "key' slot = lba" "\<And>s. s \<in> S \<Longrightarrow> key' s = key s"
  shows "hash_ok key' (insert slot S) (hash_insert tbl lba slot)"
proof -
  have len: "length tbl = HASH_TABLE_SIZE" and S: "slots_in tbl = S" using ok by (simp_all add: hash_ok_def)
  obtain e where e: "e < HASH_TABLE_SIZE" "tbl ! e = HASH_EMPTY" by (rule empty_cell [OF ok room])
  obtain q where q: "q < HASH_TABLE_SIZE" "hash_insert tbl lba slot = tbl[q := of_nat slot]" "tbl ! q = HASH_EMPTY"
      "upward e tbl (hash_lba lba) q"
    by (rule hash_insert_first_empty [OF e])
  note s = of_nat_slot [OF slot(1)]
  have new: "tbl ! i \<noteq> of_nat slot" if "i < HASH_TABLE_SIZE" "tbl ! i \<noteq> HASH_EMPTY" for i
  proof
    assume "tbl ! i = of_nat slot"
    then have "unat (tbl ! i) = slot" using s by simp
    moreover have "unat (tbl ! i) \<in> S" using that S by (auto simp: slots_in_def)
    ultimately show False using slot(2) by simp
  qed
  have "one_cell_each (tbl[q := of_nat slot])"
    unfolding one_cell_each_def
  proof (intro allI impI)
    fix i j assume ij: "i < HASH_TABLE_SIZE" "j < HASH_TABLE_SIZE"
      "tbl[q := of_nat slot] ! i \<noteq> HASH_EMPTY \<and> tbl[q := of_nat slot] ! i = tbl[q := of_nat slot] ! j"
    show "i = j"
      using ij ok new [of i] new [of j] len q(1) s
      by (cases "i = q"; cases "j = q") (auto simp: hash_ok_def one_cell_each_def)
  qed
  moreover have "probes (tbl[q := of_nat slot]) (hash_lba (key' (unat (tbl[q := of_nat slot] ! i)))) i"
    if i: "i < HASH_TABLE_SIZE" "tbl[q := of_nat slot] ! i \<noteq> HASH_EMPTY" for i
  proof (cases "i = q")
    case True
    have "probes tbl (hash_lba lba) q" using probes_upward [OF e hash_lba_less q(1)] q(4) by simp
    then show ?thesis using probes_fill s len True q(1) key'(1) by simp
  next
    case False
    then have "unat (tbl ! i) \<in> S" "probes tbl (hash_lba (key (unat (tbl ! i)))) i"
      using i ok by (auto simp: hash_ok_def slots_in_def)
    then show ?thesis using probes_fill s len False key'(2) by simp
  qed
  ultimately show ?thesis
    using slots_in_update [OF len q(1,3) slot(1)] len S by (simp add: hash_ok_def q(2))
qed

section \<open>Lookup\<close>

lemma lookup_loop_miss:
  assumes "\<forall>i < HASH_TABLE_SIZE. tbl ! i \<noteq> HASH_EMPTY \<longrightarrow> key (unat (tbl ! i)) \<noteq> lba" "i < HASH_TABLE_SIZE"
  shows "lookup_loop key lba tbl n i = None"
  using assms(2) by (induction n arbitrary: i) (auto simp: assms(1) Let_def)

lemma lookup_loop_hit:
  assumes i: "i = (next_cell ^^ d) h" "tbl ! i \<noteq> HASH_EMPTY" "key (unat (tbl ! i)) = lba" and h: "h < HASH_TABLE_SIZE"
    and path: "\<forall>d' < d. tbl ! ((next_cell ^^ d') h) \<noteq> HASH_EMPTY"
    and other: "\<forall>j < HASH_TABLE_SIZE. tbl ! j \<noteq> HASH_EMPTY \<and> key (unat (tbl ! j)) = lba \<longrightarrow> j = i"
    and d': "d' \<le> d" "d < d' + n"
  shows "lookup_loop key lba tbl n ((next_cell ^^ d') h) = Some (unat (tbl ! i))"
  using d'
proof (induction n arbitrary: d')
  case (Suc n)
  show ?case
  proof (cases "d' = d")
    case True
    then show ?thesis using i by (simp add: Let_def)
  next
    case False
    then have "tbl ! ((next_cell ^^ d') h) \<noteq> HASH_EMPTY" using path Suc.prems by simp
    moreover have "key (unat (tbl ! ((next_cell ^^ d') h))) = lba \<Longrightarrow> (next_cell ^^ d') h = i"
      using other funpow_next_less [OF h] calculation by blast
    ultimately show ?thesis
      using Suc.IH [of "Suc d'"] Suc.prems False i(3) by (auto simp: Let_def)
  qed
qed simp

lemma hash_lookup_ok:
  assumes ok: "hash_ok key S tbl" and inj: "inj_on key S"
  shows "hash_lookup key tbl lba = Some s \<longleftrightarrow> s \<in> S \<and> key s = lba"
proof -
  have hit: "hash_lookup key tbl (key s) = Some s" if s: "s \<in> S" for s
  proof -
    obtain i where i: "i < HASH_TABLE_SIZE" "tbl ! i \<noteq> HASH_EMPTY" "unat (tbl ! i) = s"
      using s ok by (auto simp: hash_ok_def slots_in_def)
    have "probes tbl (hash_lba (key s)) i" using i ok by (auto simp: hash_ok_def)
    then obtain d where d: "d < HASH_TABLE_SIZE" "(next_cell ^^ d) (hash_lba (key s)) = i"
        "\<forall>d' < d. tbl ! ((next_cell ^^ d') (hash_lba (key s))) \<noteq> HASH_EMPTY"
      by (auto simp: probes_def)
    have "j = i" if "j < HASH_TABLE_SIZE" "tbl ! j \<noteq> HASH_EMPTY" "key (unat (tbl ! j)) = key s" for j
    proof -
      have "unat (tbl ! j) \<in> S" using that ok by (auto simp: hash_ok_def slots_in_def)
      then have "unat (tbl ! j) = s" using inj that(3) s by (auto simp: inj_on_def)
      then have "tbl ! j = tbl ! i" using i(3) by (simp add: word_unat_eq_iff)
      then show ?thesis using ok that(1,2) i(1) by (auto simp: hash_ok_def one_cell_each_def)
    qed
    then show ?thesis
      using lookup_loop_hit [OF d(2) [symmetric] i(2) _ hash_lba_less d(3), of key "key s" 0 HASH_TABLE_SIZE] i(3) d(1)
      by (auto simp: hash_lookup_def)
  qed
  show ?thesis
  proof
    assume found: "hash_lookup key tbl lba = Some s"
    have "\<exists>i < HASH_TABLE_SIZE. tbl ! i \<noteq> HASH_EMPTY \<and> key (unat (tbl ! i)) = lba"
      using lookup_loop_miss [of tbl key lba "hash_lba lba" HASH_TABLE_SIZE] found by (auto simp: hash_lookup_def)
    then obtain s' where "s' \<in> S" "key s' = lba" using ok by (auto simp: hash_ok_def slots_in_def)
    then show "s \<in> S \<and> key s = lba" using hit [of s'] found by simp
  next
    assume "s \<in> S \<and> key s = lba"
    then show "hash_lookup key tbl lba = Some s" using hit by blast
  qed
qed

section \<open>Removal\<close>

text \<open>
  State of the loop that closes the gap: \<open>e\<close> is the empty cell that ends the run, cells from coordinate \<open>p\<close> up
  to \<open>e\<close> are still to be inserted again, the cells below are in order.
\<close>

definition gap_inv :: "(nat \<Rightarrow> u32) \<Rightarrow> nat set \<Rightarrow> nat \<Rightarrow> nat \<Rightarrow> hash_table \<Rightarrow> bool" where
  "gap_inv key S e p tbl \<longleftrightarrow> length tbl = HASH_TABLE_SIZE \<and> slots_in tbl = S \<and> one_cell_each tbl \<and>
     tbl ! e = HASH_EMPTY \<and>
     (\<forall>i < HASH_TABLE_SIZE. p \<le> coord e i \<and> i \<noteq> e \<longrightarrow> tbl ! i \<noteq> HASH_EMPTY) \<and>
     (\<forall>i < HASH_TABLE_SIZE. tbl ! i \<noteq> HASH_EMPTY \<longrightarrow> coord e (hash_lba (key (unat (tbl ! i)))) \<le> coord e i) \<and>
     (\<forall>i < HASH_TABLE_SIZE. tbl ! i \<noteq> HASH_EMPTY \<and> coord e i < p \<longrightarrow>
        upward e tbl (hash_lba (key (unat (tbl ! i)))) i)"

lemma slots_in_move:
  assumes len: "length tbl = HASH_TABLE_SIZE" and one: "one_cell_each tbl"
    and nq: "n < HASH_TABLE_SIZE" "q < HASH_TABLE_SIZE" "tbl ! n \<noteq> HASH_EMPTY" "q = n \<or> tbl ! q = HASH_EMPTY"
  defines "tbl' \<equiv> tbl[n := HASH_EMPTY, q := tbl ! n]"
  shows "slots_in tbl' = slots_in tbl" "one_cell_each tbl'"
proof -
  have at: "tbl' ! i = (if i = q then tbl ! n else if i = n then HASH_EMPTY else tbl ! i)" if "i < HASH_TABLE_SIZE" for i
    using that nq len by (simp add: tbl'_def nth_list_update)
  have fwd: "unat (tbl ! i) \<in> slots_in tbl'" if "i < HASH_TABLE_SIZE" "tbl ! i \<noteq> HASH_EMPTY" for i
  proof (cases "i = n")
    case True
    then show ?thesis using at [OF nq(2)] nq(2,3) unfolding slots_in_def by force
  next
    case False
    then have "i \<noteq> q" using nq(4) that(2) by auto
    then show ?thesis using at [OF that(1)] that False unfolding slots_in_def by force
  qed
  have bwd: "unat (tbl' ! i) \<in> slots_in tbl" if "i < HASH_TABLE_SIZE" "tbl' ! i \<noteq> HASH_EMPTY" for i
    using that at [OF that(1)] nq(1) by (cases "i = q") (auto simp: slots_in_def split: if_splits)
  show "slots_in tbl' = slots_in tbl" using fwd bwd by (auto simp: slots_in_def [of tbl] slots_in_def [of tbl'])
  show "one_cell_each tbl'"
    unfolding one_cell_each_def
  proof (intro allI impI)
    fix i j assume ij: "i < HASH_TABLE_SIZE" "j < HASH_TABLE_SIZE" "tbl' ! i \<noteq> HASH_EMPTY \<and> tbl' ! i = tbl' ! j"
    define orig where "orig k = (if k = q then n else k)" for k
    have o: "tbl' ! k = tbl ! orig k \<and> orig k < HASH_TABLE_SIZE \<and> (k = q \<or> k \<noteq> n)"
      if "k < HASH_TABLE_SIZE" "tbl' ! k \<noteq> HASH_EMPTY" for k
      using at [OF that(1)] that nq(1) by (simp add: orig_def split: if_splits)
    have "orig i = orig j"
      using one o [of i] o [of j] ij unfolding one_cell_each_def by metis
    then show "i = j"
      using o [of i] o [of j] ij by (simp add: orig_def split: if_splits)
  qed
qed

lemma gap_step:
  assumes inv: "gap_inv key S e p tbl" and e: "e < HASH_TABLE_SIZE" and n: "n < HASH_TABLE_SIZE" "coord e n = p" "n \<noteq> e"
  defines "tbl' \<equiv> hash_insert (tbl[n := HASH_EMPTY]) (key (unat (tbl ! n))) (unat (tbl ! n))"
  shows "gap_inv key S e (Suc p) tbl'"
proof -
  let ?t1 = "tbl[n := HASH_EMPTY]" and ?h = "hash_lba (key (unat (tbl ! n)))"
  have len: "length tbl = HASH_TABLE_SIZE" and one: "one_cell_each tbl" and S: "slots_in tbl = S"
    and emp: "tbl ! e = HASH_EMPTY" using inv by (simp_all add: gap_inv_def)
  have full: "tbl ! n \<noteq> HASH_EMPTY" using inv n by (simp add: gap_inv_def)
  have e1: "?t1 ! e = HASH_EMPTY" using emp by (cases "e = n") (simp_all add: len n)
  obtain q where q: "q < HASH_TABLE_SIZE" "tbl' = ?t1[q := of_nat (unat (tbl ! n))]" "?t1 ! q = HASH_EMPTY"
      "upward e ?t1 ?h q"
    unfolding tbl'_def by (rule hash_insert_first_empty [OF e e1])
  have t': "tbl' = tbl[n := HASH_EMPTY, q := tbl ! n]" using q(2) by simp
  have qn: "coord e q \<le> p"
  proof (rule ccontr)
    assume far: "\<not> coord e q \<le> p"
    have "coord e ?h \<le> coord e n" using inv n(1) full by (simp add: gap_inv_def)
    moreover have "\<forall>j < HASH_TABLE_SIZE. coord e ?h \<le> coord e j \<and> coord e j < coord e q \<longrightarrow> ?t1 ! j \<noteq> HASH_EMPTY"
      using q(4) unfolding upward_def by blast
    ultimately have "?t1 ! n \<noteq> HASH_EMPTY" using far n(1,2) by (meson not_le)
    then show False using n len by simp
  qed
  have q_or: "q = n \<or> tbl ! q = HASH_EMPTY" using q(3) by (cases "q = n") simp_all
  note moved = slots_in_move [OF len one n(1) q(1) full q_or, folded t']
  have at: "tbl' ! i = (if i = q then tbl ! n else if i = n then HASH_EMPTY else tbl ! i)" if "i < HASH_TABLE_SIZE" for i
    using that n q(1) len by (simp add: t' nth_list_update)
  have qe: "q \<noteq> e" using qn n coord_below_self [OF e n(1,3)] by auto
  have above: "tbl' ! i = tbl ! i \<and> i \<noteq> q" if "i < HASH_TABLE_SIZE" "p < coord e i" for i
    using at [OF that(1)] that(2) qn n(2) by auto
  have up: "upward e tbl' ?h q"
    using q(4) at by (auto simp: upward_def nth_list_update len n(1) split: if_splits)
  have below: "upward e tbl' (hash_lba (key (unat (tbl ! i)))) i"
    if i: "i < HASH_TABLE_SIZE" "tbl ! i \<noteq> HASH_EMPTY" "coord e i < p" for i
  proof -
    have u: "upward e tbl (hash_lba (key (unat (tbl ! i)))) i" using inv i by (simp add: gap_inv_def)
    have "tbl' ! j \<noteq> HASH_EMPTY" if "j < HASH_TABLE_SIZE" "tbl ! j \<noteq> HASH_EMPTY" "coord e j < coord e i" for j
      using at [OF that(1)] that i(3) n(2) full by auto
    then show ?thesis using u by (auto simp: upward_def)
  qed
  have low: "upward e tbl' (hash_lba (key (unat (tbl' ! i)))) i"
    if i: "i < HASH_TABLE_SIZE" "tbl' ! i \<noteq> HASH_EMPTY" "coord e i < Suc p" for i
  proof (cases "i = q")
    case True
    then show ?thesis using up at [OF i(1)] by simp
  next
    case False
    then have "i \<noteq> n" "tbl' ! i = tbl ! i" using at [OF i(1)] i(2) by (auto split: if_splits)
    then show ?thesis
      using below [OF i(1)] i coord_inj [OF e i(1) n(1)] n(2) by (auto simp: less_Suc_eq)
  qed
  have order: "coord e (hash_lba (key (unat (tbl' ! i)))) \<le> coord e i"
    if i: "i < HASH_TABLE_SIZE" "tbl' ! i \<noteq> HASH_EMPTY" for i
  proof (cases "coord e i < Suc p")
    case True
    then show ?thesis using low [OF i] by (simp add: upward_def)
  next
    case False
    then show ?thesis using above [OF i(1)] inv i by (auto simp: gap_inv_def)
  qed
  have rest: "tbl' ! i \<noteq> HASH_EMPTY" if "i < HASH_TABLE_SIZE" "Suc p \<le> coord e i" "i \<noteq> e" for i
    using above [OF that(1)] that inv by (auto simp: gap_inv_def)
  have "tbl' ! e = HASH_EMPTY" using at [OF e] qe emp n(3) by simp
  then show ?thesis
    using moved S len low order rest t' by (simp add: gap_inv_def)
qed

lemma rehash_loop_gap:
  assumes "gap_inv key S e (coord e nxt) tbl" "e < HASH_TABLE_SIZE" "nxt < HASH_TABLE_SIZE"
    "HASH_TABLE_SIZE - coord e nxt \<le> n"
  shows "\<exists>tbl'. rehash_loop key tbl n nxt = Some tbl' \<and> gap_inv key S e (coord e e) tbl'"
  using assms(1,3,4)
proof (induction n arbitrary: tbl nxt)
  case 0
  then show ?case using coord_less [OF assms(2), of nxt] by simp
next
  case (Suc n)
  show ?case
  proof (cases "nxt = e")
    case True
    then show ?thesis using Suc.prems(1) by (simp add: gap_inv_def)
  next
    case False
    have full: "tbl ! nxt \<noteq> HASH_EMPTY" using Suc.prems(1,2) False by (simp add: gap_inv_def)
    note c = coord_next [OF assms(2) Suc.prems(2) False]
    have "gap_inv key S e (coord e (next_cell nxt))
        (hash_insert (tbl[nxt := HASH_EMPTY]) (key (unat (tbl ! nxt))) (unat (tbl ! nxt)))"
      using gap_step [OF Suc.prems(1) assms(2) Suc.prems(2) refl False] c by simp
    moreover have "HASH_TABLE_SIZE - coord e (next_cell nxt) \<le> n" using Suc.prems(3) c by simp
    ultimately show ?thesis using Suc.IH [OF _ next_cell_less] full by (simp add: Let_def)
  qed
qed

lemma gap_closed:
  assumes "gap_inv key S e (coord e e) tbl" "e < HASH_TABLE_SIZE"
  shows "hash_ok key S tbl"
proof -
  have "probes tbl (hash_lba (key (unat (tbl ! i)))) i" if i: "i < HASH_TABLE_SIZE" "tbl ! i \<noteq> HASH_EMPTY" for i
  proof -
    have e: "tbl ! e = HASH_EMPTY" using assms(1) by (simp add: gap_inv_def)
    then have "coord e i < coord e e" using coord_below_self [OF assms(2) i(1)] i(2) by auto
    then have "upward e tbl (hash_lba (key (unat (tbl ! i)))) i" using assms(1) i by (simp add: gap_inv_def)
    then show ?thesis using probes_upward [OF assms(2) e hash_lba_less i(1)] by simp
  qed
  then show ?thesis using assms(1) by (simp add: hash_ok_def gap_inv_def)
qed

lemma first_empty_after:
  assumes "\<exists>e < HASH_TABLE_SIZE. tbl ! e = HASH_EMPTY" "i < HASH_TABLE_SIZE" "tbl ! i \<noteq> HASH_EMPTY"
  obtains e where "e < HASH_TABLE_SIZE" "tbl ! e = HASH_EMPTY"
    "\<forall>j < HASH_TABLE_SIZE. coord e i \<le> coord e j \<and> j \<noteq> e \<longrightarrow> tbl ! j \<noteq> HASH_EMPTY"
proof -
  define e where "e = arg_min (coord i) (\<lambda>e. e < HASH_TABLE_SIZE \<and> tbl ! e = HASH_EMPTY)"
  have e: "e < HASH_TABLE_SIZE \<and> tbl ! e = HASH_EMPTY" and
    least: "\<And>j. j < HASH_TABLE_SIZE \<and> tbl ! j = HASH_EMPTY \<Longrightarrow> coord i e \<le> coord i j"
    using assms(1) arg_min_nat_lemma [of "\<lambda>e. e < HASH_TABLE_SIZE \<and> tbl ! e = HASH_EMPTY" _ "coord i"]
    unfolding e_def by blast+
  have "tbl ! j \<noteq> HASH_EMPTY" if j: "j < HASH_TABLE_SIZE" "coord e i \<le> coord e j" "j \<noteq> e" for j
  proof
    assume "tbl ! j = HASH_EMPTY"
    then have "coord i e \<le> coord i j" "j \<noteq> i" using least j(1) assms(3) by auto
    moreover have "e \<noteq> i" using e assms(3) by auto
    ultimately show False using j e assms(2) by (auto simp: coord_def split: if_splits)
  qed
  then show thesis using that e by blast
qed

lemma gap_start:
  assumes ok: "hash_ok key S tbl" and i: "i < HASH_TABLE_SIZE" "tbl ! i \<noteq> HASH_EMPTY"
    and e: "e < HASH_TABLE_SIZE" "tbl ! e = HASH_EMPTY"
      "\<forall>j < HASH_TABLE_SIZE. coord e i \<le> coord e j \<and> j \<noteq> e \<longrightarrow> tbl ! j \<noteq> HASH_EMPTY"
  shows "gap_inv key (S - {unat (tbl ! i)}) e (Suc (coord e i)) (tbl[i := HASH_EMPTY])"
proof -
  let ?t = "tbl[i := HASH_EMPTY]"
  have len: "length tbl = HASH_TABLE_SIZE" and S: "slots_in tbl = S" and one: "one_cell_each tbl"
    using ok by (simp_all add: hash_ok_def)
  have at: "?t ! j = (if j = i then HASH_EMPTY else tbl ! j)" if "j < HASH_TABLE_SIZE" for j
    using that len by (simp add: nth_list_update)
  have up: "upward e tbl (hash_lba (key (unat (tbl ! j)))) j" if "j < HASH_TABLE_SIZE" "tbl ! j \<noteq> HASH_EMPTY" for j
    using ok that probes_upward [OF e(1,2) hash_lba_less that(1)] by (auto simp: hash_ok_def)
  have slots: "slots_in ?t = S - {unat (tbl ! i)}"
  proof -
    have "unat (tbl ! j) = unat (tbl ! i) \<longleftrightarrow> j = i" if "j < HASH_TABLE_SIZE" "tbl ! j \<noteq> HASH_EMPTY" for j
      using one that i unfolding one_cell_each_def by (metis word_unat_eq_iff)
    then have others: "\<And>j. j < HASH_TABLE_SIZE \<Longrightarrow> ?t ! j \<noteq> HASH_EMPTY \<longleftrightarrow> tbl ! j \<noteq> HASH_EMPTY \<and> unat (tbl ! j) \<noteq> unat (tbl ! i)"
      using at i by auto
    have same: "\<And>j. j < HASH_TABLE_SIZE \<Longrightarrow> ?t ! j \<noteq> HASH_EMPTY \<Longrightarrow> ?t ! j = tbl ! j" using at by (auto split: if_splits)
    have "x \<in> slots_in ?t \<longleftrightarrow> x \<in> slots_in tbl \<and> x \<noteq> unat (tbl ! i)" for x
      unfolding slots_in_def mem_Collect_eq using others same by metis
    then show ?thesis using S by blast
  qed
  have uniq: "one_cell_each ?t"
    unfolding one_cell_each_def
  proof (intro allI impI)
    fix k l assume kl: "k < HASH_TABLE_SIZE" "l < HASH_TABLE_SIZE" "?t ! k \<noteq> HASH_EMPTY \<and> ?t ! k = ?t ! l"
    then have "tbl ! k \<noteq> HASH_EMPTY" "tbl ! k = tbl ! l" using at by (auto split: if_splits)
    then show "k = l" using one kl(1,2) unfolding one_cell_each_def by blast
  qed
  have low: "upward e ?t (hash_lba (key (unat (?t ! j)))) j"
    if j: "j < HASH_TABLE_SIZE" "?t ! j \<noteq> HASH_EMPTY" "coord e j < Suc (coord e i)" for j
  proof -
    have ji: "j \<noteq> i" "tbl ! j \<noteq> HASH_EMPTY" "?t ! j = tbl ! j" using at [OF j(1)] j(2) by (auto split: if_splits)
    then have "coord e j < coord e i" using j(3) coord_inj [OF e(1) j(1) i(1)] by (auto simp: less_Suc_eq)
    then show ?thesis using up [OF j(1) ji(2)] at ji(3) by (auto simp: upward_def)
  qed
  have order: "coord e (hash_lba (key (unat (?t ! j)))) \<le> coord e j" if "j < HASH_TABLE_SIZE" "?t ! j \<noteq> HASH_EMPTY" for j
    using up [OF that(1)] at [OF that(1)] that(2) by (auto simp: upward_def split: if_splits)
  have "?t ! j \<noteq> HASH_EMPTY" if "j < HASH_TABLE_SIZE" "Suc (coord e i) \<le> coord e j" "j \<noteq> e" for j
    using e(3) that at [OF that(1)] by auto
  then show ?thesis
    using len slots uniq low order at [OF e(1)] e(2) by (simp add: gap_inv_def)
qed

lemma remove_loop_hit:
  assumes i: "i = (next_cell ^^ d) h" "tbl ! i \<noteq> HASH_EMPTY" "key (unat (tbl ! i)) = lba" and h: "h < HASH_TABLE_SIZE"
    and path: "\<forall>d' < d. tbl ! ((next_cell ^^ d') h) \<noteq> HASH_EMPTY"
    and other: "\<forall>j < HASH_TABLE_SIZE. tbl ! j \<noteq> HASH_EMPTY \<and> key (unat (tbl ! j)) = lba \<longrightarrow> j = i"
    and d': "d' \<le> d" "d < d' + n"
  shows "remove_loop key lba tbl n ((next_cell ^^ d') h) =
    rehash_loop key (tbl[i := HASH_EMPTY]) HASH_TABLE_SIZE (next_cell i)"
  using d'
proof (induction n arbitrary: d')
  case (Suc n)
  show ?case
  proof (cases "d' = d")
    case True
    then show ?thesis using i by (simp add: Let_def)
  next
    case False
    then have "tbl ! ((next_cell ^^ d') h) \<noteq> HASH_EMPTY" using path Suc.prems by simp
    moreover have "key (unat (tbl ! ((next_cell ^^ d') h))) = lba \<Longrightarrow> (next_cell ^^ d') h = i"
      using other funpow_next_less [OF h] calculation by blast
    ultimately show ?thesis
      using Suc.IH [of "Suc d'"] Suc.prems False i(3) by (auto simp: Let_def)
  qed
qed simp

text \<open>The cell of a slot: where it is, how probing reaches it, and that no other cell has its key.\<close>

lemma slot_cell:
  assumes ok: "hash_ok key S tbl" and inj: "inj_on key S" and s: "s \<in> S"
  obtains i d where "i < HASH_TABLE_SIZE" "tbl ! i \<noteq> HASH_EMPTY" "unat (tbl ! i) = s" "d < HASH_TABLE_SIZE"
    "i = (next_cell ^^ d) (hash_lba (key s))" "\<forall>d' < d. tbl ! ((next_cell ^^ d') (hash_lba (key s))) \<noteq> HASH_EMPTY"
    "\<forall>j < HASH_TABLE_SIZE. tbl ! j \<noteq> HASH_EMPTY \<and> key (unat (tbl ! j)) = key s \<longrightarrow> j = i"
proof -
  obtain i where i: "i < HASH_TABLE_SIZE" "tbl ! i \<noteq> HASH_EMPTY" "unat (tbl ! i) = s"
    using s ok by (auto simp: hash_ok_def slots_in_def)
  have "probes tbl (hash_lba (key s)) i" using i ok by (auto simp: hash_ok_def)
  then obtain d where d: "d < HASH_TABLE_SIZE" "(next_cell ^^ d) (hash_lba (key s)) = i"
      "\<forall>d' < d. tbl ! ((next_cell ^^ d') (hash_lba (key s))) \<noteq> HASH_EMPTY"
    by (auto simp: probes_def)
  have "j = i" if "j < HASH_TABLE_SIZE" "tbl ! j \<noteq> HASH_EMPTY" "key (unat (tbl ! j)) = key s" for j
  proof -
    have "unat (tbl ! j) \<in> S" using that ok by (auto simp: hash_ok_def slots_in_def)
    then have "unat (tbl ! j) = s" using inj that(3) s by (auto simp: inj_on_def)
    then have "tbl ! j = tbl ! i" using i(3) by (simp add: word_unat_eq_iff)
    then show ?thesis using ok that(1,2) i(1) by (auto simp: hash_ok_def one_cell_each_def)
  qed
  then show thesis using that [OF i d(1) d(2) [symmetric] d(3)] by blast
qed

lemma hash_remove_ok:
  assumes ok: "hash_ok key S tbl" and inj: "inj_on key S" and s: "s \<in> S" and room: "card S < HASH_TABLE_SIZE"
  shows "\<exists>tbl'. hash_remove key tbl (key s) = Some tbl' \<and> hash_ok key (S - {s}) tbl'"
proof -
  obtain i d where i: "i < HASH_TABLE_SIZE" "tbl ! i \<noteq> HASH_EMPTY" "unat (tbl ! i) = s" "d < HASH_TABLE_SIZE"
      "i = (next_cell ^^ d) (hash_lba (key s))" "\<forall>d' < d. tbl ! ((next_cell ^^ d') (hash_lba (key s))) \<noteq> HASH_EMPTY"
      "\<forall>j < HASH_TABLE_SIZE. tbl ! j \<noteq> HASH_EMPTY \<and> key (unat (tbl ! j)) = key s \<longrightarrow> j = i"
    by (rule slot_cell [OF ok inj s])
  have "\<exists>e < HASH_TABLE_SIZE. tbl ! e = HASH_EMPTY" using empty_cell [OF ok room] by blast
  then obtain e where e: "e < HASH_TABLE_SIZE" "tbl ! e = HASH_EMPTY"
      "\<forall>j < HASH_TABLE_SIZE. coord e i \<le> coord e j \<and> j \<noteq> e \<longrightarrow> tbl ! j \<noteq> HASH_EMPTY"
    using i(1,2) by (rule first_empty_after)
  have "i \<noteq> e" using i(2) e(2) by auto
  then have "gap_inv key (S - {s}) e (coord e (next_cell i)) (tbl[i := HASH_EMPTY])"
    using gap_start [OF ok i(1,2) e] i(3) coord_next [OF e(1) i(1)] by simp
  from rehash_loop_gap [OF this e(1) next_cell_less, of HASH_TABLE_SIZE]
  obtain tbl' where tbl': "rehash_loop key (tbl[i := HASH_EMPTY]) HASH_TABLE_SIZE (next_cell i) = Some tbl'"
      "gap_inv key (S - {s}) e (coord e e) tbl'" by auto
  have "hash_remove key tbl (key s) = Some tbl'"
    using remove_loop_hit [OF i(5,2) _ hash_lba_less i(6,7), of 0 HASH_TABLE_SIZE] i(3,4) tbl'(1)
    by (simp add: hash_remove_def)
  then show ?thesis using gap_closed [OF tbl'(2) e(1)] by blast
qed

end
