(* ===== verification/Fat_Disk.thy ===== *)
theory Fat_Disk
  imports Lba_Hash "HOL-Library.Monad_Syntax"
begin

text \<open>
  The sector cache of the FAT driver (\<^verbatim>\<open>DiskAccess\<close> of \<^verbatim>\<open>components/drivers/fatdriver/src/disk.rs\<close>): cache slots
  of 512 bytes in one mapped buffer, a staging area behind them for the sectors read ahead, an index from
  sector numbers to slots (theory \<open>Lba_Hash\<close>), and eviction of the least recently used slot, which is written back
  when it is dirty.

  The device is the byte array that a \<^verbatim>\<open>DiskIO\<close> whose transfers succeed reads and writes. The mapped buffer is a
  function from offsets to bytes together with its size. \<open>None\<close> is a panic (a slice out of bounds, the
  \<^verbatim>\<open>unwrap\<close> of a lookup) or a loop that does not end.

  The driver sees the disk through its cache: \<open>disk_view\<close> is the content a reader observes. The lemmas show
  that reads return it and leave it alone, that writes change exactly the bytes written, and that a flush
  makes the device equal to it, whatever has been read ahead or evicted in between.
\<close>

section \<open>State\<close>

definition READAHEAD_SECTORS :: nat where "READAHEAD_SECTORS = 16"
definition STAGING_SIZE :: nat where "STAGING_SIZE = READAHEAD_SECTORS * 512"

record cache_entry =
  ce_lba :: u32
  ce_last_access :: u32
  ce_dirty :: bool

record disk_access =
  da_disk_io :: "nat \<Rightarrow> u8"
  da_buffer :: "nat \<Rightarrow> u8"
  da_buffer_size :: nat
  da_cache_entries :: "cache_entry list"
  da_hash_table :: hash_table
  da_global_age :: u32

definition get_bytes :: "(nat \<Rightarrow> u8) \<Rightarrow> nat \<Rightarrow> nat \<Rightarrow> u8 list" where
  "get_bytes m start n = map m [start..<start + n]"

definition put_bytes :: "nat \<Rightarrow> u8 list \<Rightarrow> (nat \<Rightarrow> u8) \<Rightarrow> nat \<Rightarrow> u8" where
  "put_bytes start xs m = (\<lambda>x. if start \<le> x \<and> x < start + length xs then xs ! (x - start) else m x)"

definition disk_access_new :: "(nat \<Rightarrow> u8) \<Rightarrow> nat \<Rightarrow> disk_access" where
  "disk_access_new disk_io buffer_size =
     \<lparr>da_disk_io = disk_io, da_buffer = (\<lambda>_. 0),
      da_buffer_size = (buffer_size + STAGING_SIZE + 0xFFF) div 0x1000 * 0x1000,
      da_cache_entries = [], da_hash_table = replicate HASH_TABLE_SIZE HASH_EMPTY, da_global_age = 0\<rparr>"

definition get_max_cache_entries :: "disk_access \<Rightarrow> nat" where
  "get_max_cache_entries d = (da_buffer_size d - STAGING_SIZE) div 512"

text \<open>The sector number of a slot, as the index reads it. Slots in the index are slots of the cache (\<open>disk_inv\<close>).\<close>

definition slot_lba :: "disk_access \<Rightarrow> nat \<Rightarrow> u32" where
  "slot_lba d slot = ce_lba (da_cache_entries d ! slot)"

definition da_lookup :: "disk_access \<Rightarrow> u32 \<Rightarrow> nat option" where
  "da_lookup d lba = hash_lookup (slot_lba d) (da_hash_table d) lba"

definition get_buffer_sector :: "disk_access \<Rightarrow> nat \<Rightarrow> u8 list option" where
  "get_buffer_sector d index =
     (let start = index * 512
      in if start + 512 \<le> da_buffer_size d then Some (get_bytes (da_buffer d) start 512) else None)"

section \<open>Allocating a slot\<close>

fun oldest_loop :: "cache_entry list \<Rightarrow> nat \<Rightarrow> nat \<Rightarrow> u32 \<Rightarrow> nat" where
  "oldest_loop [] i oldest_idx oldest_access = oldest_idx"
| "oldest_loop (e # es) i oldest_idx oldest_access =
     (if ce_last_access e < oldest_access then oldest_loop es (Suc i) i (ce_last_access e)
      else oldest_loop es (Suc i) oldest_idx oldest_access)"

text \<open>Writing one slot back: the block shared by eviction and \<^verbatim>\<open>flush_all\<close>.\<close>

definition write_back :: "disk_access \<Rightarrow> nat \<Rightarrow> disk_access option" where
  "write_back d index =
     (if ce_dirty (da_cache_entries d ! index)
      then do {
        flush_buf \<leftarrow> get_buffer_sector d index;
        Some (d\<lparr>da_disk_io := put_bytes (unat (slot_lba d index * 512)) flush_buf (da_disk_io d)\<rparr>)
      }
      else Some d)"

definition allocate_slot :: "disk_access \<Rightarrow> u32 \<Rightarrow> (disk_access \<times> nat) option" where
  "allocate_slot d lba =
     (let max_entries = get_max_cache_entries d; entries = da_cache_entries d;
          fresh = \<lparr>ce_lba = lba, ce_last_access = da_global_age d, ce_dirty = False\<rparr>
      in if length entries < max_entries
         then let index = length entries
              in Some (d\<lparr>da_cache_entries := entries @ [fresh],
                        da_hash_table := hash_insert (da_hash_table d) lba index\<rparr>, index)
         else let oldest_idx = oldest_loop entries 0 0 0xFFFFFFFF
              in if length entries \<le> oldest_idx then None
                 else do {
                   d \<leftarrow> write_back d oldest_idx;
                   tbl \<leftarrow> hash_remove (slot_lba d) (da_hash_table d) (slot_lba d oldest_idx);
                   Some (d\<lparr>da_hash_table := hash_insert tbl lba oldest_idx,
                           da_cache_entries := entries[oldest_idx := fresh]\<rparr>, oldest_idx)
                 })"

section \<open>Reading ahead\<close>

fun count_uncached :: "disk_access \<Rightarrow> u32 \<Rightarrow> nat \<Rightarrow> nat \<Rightarrow> nat" where
  "count_uncached d start_lba 0 i = 0"
| "count_uncached d start_lba (Suc n) i =
     (if da_lookup d (start_lba + of_nat i) \<noteq> None then 0 else Suc (count_uncached d start_lba n (Suc i)))"

fun allocate_slots :: "disk_access \<Rightarrow> u32 \<Rightarrow> nat \<Rightarrow> nat \<Rightarrow> (disk_access \<times> nat list) option" where
  "allocate_slots d start_lba 0 i = Some (d, [])"
| "allocate_slots d start_lba (Suc n) i = do {
     (d, slot) \<leftarrow> allocate_slot d (start_lba + of_nat i);
     (d, slots) \<leftarrow> allocate_slots d start_lba n (Suc i);
     Some (d, slot # slots)
   }"

fun distribute :: "nat \<Rightarrow> nat list \<Rightarrow> (nat \<Rightarrow> u8) \<Rightarrow> nat \<Rightarrow> u8" where
  "distribute src [] buf = buf"
| "distribute src (slot # slots) buf =
     distribute (src + 512) slots (put_bytes (slot * 512) (get_bytes buf src 512) buf)"

definition readahead :: "disk_access \<Rightarrow> u32 \<Rightarrow> disk_access option" where
  "readahead d start_lba =
     (let num = count_uncached d start_lba READAHEAD_SECTORS 0
      in if num = 0 then Some d
         else do {
           (d, slots) \<leftarrow> allocate_slots d start_lba num 0;
           let staging_offset = get_max_cache_entries d * 512;
           let buf = put_bytes staging_offset
                       (get_bytes (da_disk_io d) (unat (start_lba * 512)) (num * 512)) (da_buffer d);
           Some (d\<lparr>da_buffer := distribute staging_offset slots buf\<rparr>)
         })"

definition cache_sector :: "disk_access \<Rightarrow> u32 \<Rightarrow> (disk_access \<times> nat) option" where
  "cache_sector d lba =
     (let d = d\<lparr>da_global_age := da_global_age d + 1\<rparr>
      in case da_lookup d lba of
           Some slot \<Rightarrow>
             Some (d\<lparr>da_cache_entries := (da_cache_entries d)
                      [slot := (da_cache_entries d ! slot)\<lparr>ce_last_access := da_global_age d\<rparr>]\<rparr>, slot)
         | None \<Rightarrow> do {
             d \<leftarrow> readahead d lba;
             slot \<leftarrow> da_lookup d lba;
             Some (d, slot)
           })"

section \<open>Reading and writing bytes\<close>

text \<open>\<^verbatim>\<open>slice[start..start + k].copy_from_slice(xs)\<close> on a caller's buffer.\<close>

definition copy_into :: "u8 list \<Rightarrow> nat \<Rightarrow> u8 list \<Rightarrow> u8 list option" where
  "copy_into buffer start xs =
     (if start + length xs \<le> length buffer
      then Some (take start buffer @ xs @ drop (start + length xs) buffer) else None)"

fun read_loop :: "nat \<Rightarrow> u32 \<Rightarrow> u32 \<Rightarrow> u32 \<Rightarrow> u32 \<Rightarrow> u8 list \<Rightarrow> disk_access \<Rightarrow> (disk_access \<times> u8 list \<times> u32) option" where
  "read_loop 0 sector sector_offset to_read bytes_read buffer d = Some (d, buffer, bytes_read)"
| "read_loop (Suc n) sector sector_offset to_read bytes_read buffer d = do {
     (d, index) \<leftarrow> cache_sector d sector;
     let to_read_from_sector = min to_read (512 - sector_offset);
     let src_start = index * 512 + unat sector_offset;
     let k = unat to_read_from_sector;
     buffer \<leftarrow> (if src_start + k \<le> da_buffer_size d
                then copy_into buffer (unat bytes_read) (get_bytes (da_buffer d) src_start k) else None);
     read_loop n (sector + 1) 0 (to_read - to_read_from_sector) (bytes_read + to_read_from_sector) buffer d
   }"

definition read_bytes_from_disk :: "disk_access \<Rightarrow> u32 \<Rightarrow> u8 list \<Rightarrow> (disk_access \<times> u8 list \<times> u32) option" where
  "read_bytes_from_disk d offset buffer =
     (let first_sector = offset div 512;
          last_byte = offset + of_nat (length buffer);
          last_sector = (last_byte + 511) div 512
      in read_loop (unat last_sector - unat first_sector) first_sector (offset mod 512)
           (of_nat (length buffer)) 0 buffer d)"

fun write_loop :: "nat \<Rightarrow> u32 \<Rightarrow> u32 \<Rightarrow> nat \<Rightarrow> u8 list \<Rightarrow> disk_access \<Rightarrow> disk_access option" where
  "write_loop 0 sector sector_offset written data d = Some d"
| "write_loop (Suc n) sector sector_offset written data d = do {
     (d, index) \<leftarrow> cache_sector d sector;
     let to_write = min (length data - written) (unat (512 - sector_offset));
     let dst_start = index * 512 + unat sector_offset;
     let d = d\<lparr>da_cache_entries := (da_cache_entries d)[index := (da_cache_entries d ! index)\<lparr>ce_dirty := True\<rparr>]\<rparr>;
     (if dst_start + to_write \<le> da_buffer_size d
      then write_loop n (sector + 1) 0 (written + to_write) data
             (d\<lparr>da_buffer := put_bytes dst_start (take to_write (drop written data)) (da_buffer d)\<rparr>)
      else None)
   }"

definition write_bytes_to_disk :: "disk_access \<Rightarrow> u32 \<Rightarrow> u8 list \<Rightarrow> disk_access option" where
  "write_bytes_to_disk d offset data =
     (let first_sector = offset div 512;
          last_byte = offset + of_nat (length data);
          last_sector = (last_byte + 511) div 512
      in write_loop (unat last_sector - unat first_sector) first_sector (offset mod 512) 0 data d)"

fun flush_loop :: "nat list \<Rightarrow> disk_access \<Rightarrow> disk_access option" where
  "flush_loop [] d = Some d"
| "flush_loop (index # rest) d = do {
     d \<leftarrow> write_back d index;
     flush_loop rest (d\<lparr>da_cache_entries := (da_cache_entries d)[index := (da_cache_entries d ! index)\<lparr>ce_dirty := False\<rparr>]\<rparr>)
   }"

definition flush_all :: "disk_access \<Rightarrow> disk_access option" where
  "flush_all d = flush_loop [0..<length (da_cache_entries d)] d"

section \<open>What a reader observes\<close>

text \<open>
  \<open>H\<close> are the slots that are allocated and not filled yet; they exist only inside \<open>readahead\<close>.
\<close>

definition holds :: "nat set \<Rightarrow> disk_access \<Rightarrow> nat \<Rightarrow> nat \<Rightarrow> bool" where
  "holds H d x s \<longleftrightarrow> s < length (da_cache_entries d) \<and> s \<notin> H \<and> unat (slot_lba d s) = x div 512"

definition disk_view :: "nat set \<Rightarrow> disk_access \<Rightarrow> nat \<Rightarrow> u8" where
  "disk_view H d x =
     (case find (holds H d x) [0..<length (da_cache_entries d)] of
        Some s \<Rightarrow> da_buffer d (s * 512 + x mod 512)
      | None \<Rightarrow> da_disk_io d x)"

definition slot_ok :: "nat set \<Rightarrow> disk_access \<Rightarrow> nat \<Rightarrow> bool" where
  "slot_ok H d s \<longleftrightarrow>
     (if s \<in> H then \<not> ce_dirty (da_cache_entries d ! s) \<and> ce_last_access (da_cache_entries d ! s) = da_global_age d
      else if ce_dirty (da_cache_entries d ! s) then unat (slot_lba d s) < 0x800000
      else \<forall>j < 512. da_buffer d (s * 512 + j) = da_disk_io d (unat (slot_lba d s) * 512 + j))"

definition disk_inv :: "nat set \<Rightarrow> disk_access \<Rightarrow> bool" where
  "disk_inv H d \<longleftrightarrow>
     hash_ok (slot_lba d) {..<length (da_cache_entries d)} (da_hash_table d) \<and>
     inj_on (slot_lba d) {..<length (da_cache_entries d)} \<and>
     READAHEAD_SECTORS \<le> get_max_cache_entries d \<and> get_max_cache_entries d < HASH_TABLE_SIZE \<and>
     length (da_cache_entries d) \<le> get_max_cache_entries d \<and>
     H \<subseteq> {..<length (da_cache_entries d)} \<and>
     (\<forall>s < length (da_cache_entries d). slot_ok H d s)"

text \<open>Every slot outside \<open>H\<close> was last used before the current access.\<close>

definition older :: "nat set \<Rightarrow> disk_access \<Rightarrow> bool" where
  "older H d \<longleftrightarrow> (\<forall>s < length (da_cache_entries d). s \<notin> H \<longrightarrow>
     ce_last_access (da_cache_entries d ! s) < da_global_age d)"

definition disk_ok :: "disk_access \<Rightarrow> bool" where
  "disk_ok d \<longleftrightarrow> disk_inv {} d \<and>
     (\<forall>s < length (da_cache_entries d). ce_last_access (da_cache_entries d ! s) \<le> da_global_age d)"

lemma view_unique:
  "inj_on (slot_lba d) {..<length (da_cache_entries d)} \<Longrightarrow> holds H d x s \<Longrightarrow> holds H d x t \<Longrightarrow> s = t"
  unfolding holds_def inj_on_def by (metis lessThan_iff word_unat_eq_iff)

lemma view_cached:
  assumes "inj_on (slot_lba d) {..<length (da_cache_entries d)}" "holds H d x s"
  shows "disk_view H d x = da_buffer d (s * 512 + x mod 512)"
proof (cases "find (holds H d x) [0..<length (da_cache_entries d)]")
  case None
  then show ?thesis using assms(2) by (auto simp: find_None_iff holds_def)
next
  case (Some t)
  then have "holds H d x t" by (auto simp: find_Some_iff)
  then show ?thesis using Some view_unique [OF assms(1) _ assms(2)] by (simp add: disk_view_def)
qed

lemma view_uncached: "(\<And>s. \<not> holds H d x s) \<Longrightarrow> disk_view H d x = da_disk_io d x"
  by (simp add: disk_view_def find_None_iff split: option.splits) (metis find_Some_iff)

lemma disk_invD:
  assumes "disk_inv H d"
  shows "hash_ok (slot_lba d) {..<length (da_cache_entries d)} (da_hash_table d)"
    "inj_on (slot_lba d) {..<length (da_cache_entries d)}"
    "16 \<le> get_max_cache_entries d" "get_max_cache_entries d < HASH_TABLE_SIZE"
    "length (da_cache_entries d) \<le> get_max_cache_entries d" "H \<subseteq> {..<length (da_cache_entries d)}"
    "\<And>s. s < length (da_cache_entries d) \<Longrightarrow> slot_ok H d s"
  using assms by (auto simp: disk_inv_def READAHEAD_SECTORS_def)

lemma lookup_Some:
  "disk_inv H d \<Longrightarrow> da_lookup d lba = Some s \<longleftrightarrow> s < length (da_cache_entries d) \<and> slot_lba d s = lba"
  using hash_lookup_ok [OF disk_invD(1,2)] by (simp add: da_lookup_def)

lemma lookup_None:
  assumes "disk_inv H d"
  shows "da_lookup d lba = None \<longleftrightarrow> lba \<notin> slot_lba d ` {..<length (da_cache_entries d)}"
proof -
  have "da_lookup d lba = None \<longleftrightarrow> (\<forall>s. da_lookup d lba \<noteq> Some s)" by simp
  then show ?thesis using lookup_Some [OF assms] by auto
qed

lemma slot_in_buffer: "s < get_max_cache_entries d \<Longrightarrow> s * 512 + 512 \<le> da_buffer_size d"
  unfolding get_max_cache_entries_def by linarith

text \<open>A clean slot mirrors the device, so a reader sees the device there.\<close>

lemma view_clean_slot:
  assumes inv: "disk_inv H d" and s: "s < length (da_cache_entries d)" "\<not> ce_dirty (da_cache_entries d ! s)"
    and x: "x div 512 = unat (slot_lba d s)"
  shows "disk_view H d x = da_disk_io d x"
proof (cases "s \<in> H")
  case True
  have "\<not> holds H d x t" for t
    using disk_invD(2) [OF inv] s(1) x True unfolding holds_def inj_on_def
    by (metis lessThan_iff word_unat_eq_iff)
  then show ?thesis by (rule view_uncached)
next
  case False
  then have "holds H d x s" using s(1) x by (simp add: holds_def)
  moreover have "da_buffer d (s * 512 + x mod 512) = da_disk_io d (unat (slot_lba d s) * 512 + x mod 512)"
    using disk_invD(7) [OF inv s(1)] s(2) False by (simp add: slot_ok_def)
  moreover have "unat (slot_lba d s) * 512 + x mod 512 = x" unfolding x [symmetric] by simp
  ultimately show ?thesis using view_cached [OF disk_invD(2) [OF inv]] by simp
qed

section \<open>Eviction and allocation keep the view\<close>

lemma sector_range: "lba * 512 \<le> x \<and> x < lba * 512 + 512 \<longleftrightarrow> x div 512 = (lba :: nat)"
  by linarith

lemma unat_sector_offset: "unat (lba :: u32) < 0x800000 \<Longrightarrow> unat (lba * 512) = unat lba * 512"
  by (simp add: unat_word_ariths)

lemma length_get_bytes [simp]: "length (get_bytes m start n) = n"
  by (simp add: get_bytes_def)

lemma nth_get_bytes [simp]: "i < n \<Longrightarrow> get_bytes m start n ! i = m (start + i)"
  by (simp add: get_bytes_def)

lemma disk_update:
  assumes inv: "disk_inv H d" and upd: "\<And>x. disk' x = da_disk_io d x \<or> disk' x = disk_view H d x"
  shows "disk_inv H (d\<lparr>da_disk_io := disk'\<rparr>)" "disk_view H (d\<lparr>da_disk_io := disk'\<rparr>) = disk_view H d"
proof -
  let ?d = "d\<lparr>da_disk_io := disk'\<rparr>"
  have lba: "slot_lba ?d = slot_lba d" by (simp add: slot_lba_def fun_eq_iff)
  have holds: "holds H ?d = holds H d" by (simp add: holds_def lba fun_eq_iff)
  have "slot_ok H ?d s" if s: "s < length (da_cache_entries d)" for s
  proof -
    have "disk' (unat (slot_lba d s) * 512 + j) = da_disk_io d (unat (slot_lba d s) * 512 + j)"
      if j: "j < 512" "\<not> ce_dirty (da_cache_entries d ! s)" for j
      using upd [of "unat (slot_lba d s) * 512 + j"] view_clean_slot [OF inv s j(2), of "unat (slot_lba d s) * 512 + j"] j(1)
      by auto
    then show ?thesis using disk_invD(7) [OF inv s] by (auto simp: slot_ok_def lba split: if_splits)
  qed
  then show "disk_inv H ?d"
    using inv by (simp add: disk_inv_def lba get_max_cache_entries_def)
  have "disk_view H ?d x = disk_view H d x" for x
  proof (cases "\<exists>s. holds H d x s")
    case True
    then obtain s where s: "holds H d x s" by blast
    then have "disk_view H ?d x = da_buffer ?d (s * 512 + x mod 512)"
      using disk_invD(2) [OF inv] by (intro view_cached) (simp_all add: holds lba)
    then show ?thesis using view_cached [OF disk_invD(2) [OF inv] s] by simp
  next
    case False
    then show ?thesis using upd [of x] by (simp add: view_uncached holds)
  qed
  then show "disk_view H ?d = disk_view H d" by blast
qed

lemma write_back_ok:
  assumes inv: "disk_inv H d" and s: "s < length (da_cache_entries d)"
  shows "\<exists>disk'. write_back d s = Some (d\<lparr>da_disk_io := disk'\<rparr>) \<and>
    (\<forall>x. disk' x = (if x div 512 = unat (slot_lba d s) then disk_view H d x else da_disk_io d x))"
proof (cases "ce_dirty (da_cache_entries d ! s)")
  case False
  then have "write_back d s = Some (d\<lparr>da_disk_io := da_disk_io d\<rparr>)" by (simp add: write_back_def)
  then show ?thesis using view_clean_slot [OF inv s False] by (intro exI [of _ "da_disk_io d"]) simp
next
  case True
  let ?disk = "put_bytes (unat (slot_lba d s * 512)) (get_bytes (da_buffer d) (s * 512) 512) (da_disk_io d)"
  have notH: "s \<notin> H" and small: "unat (slot_lba d s) < 0x800000"
    using disk_invD(7) [OF inv s] True by (auto simp: slot_ok_def split: if_splits)
  have "s * 512 + 512 \<le> da_buffer_size d" using disk_invD(5) [OF inv] s by (intro slot_in_buffer) simp
  then have wb: "write_back d s = Some (d\<lparr>da_disk_io := ?disk\<rparr>)"
    using True by (simp add: write_back_def get_buffer_sector_def)
  have "?disk x = (if x div 512 = unat (slot_lba d s) then disk_view H d x else da_disk_io d x)" for x
  proof (cases "x div 512 = unat (slot_lba d s)")
    case True
    have "holds H d x s" using True s notH by (simp add: holds_def)
    from view_cached [OF disk_invD(2) [OF inv] this]
    have "disk_view H d x = da_buffer d (s * 512 + x mod 512)" .
    moreover have "x mod 512 = x - unat (slot_lba d s) * 512" unfolding True [symmetric] by (simp add: minus_div_mult_eq_mod)
    ultimately show ?thesis
      using True sector_range [of "unat (slot_lba d s)" x] unat_sector_offset [OF small] by (simp add: put_bytes_def)
  next
    case False
    then have "\<not> (unat (slot_lba d s) * 512 \<le> x \<and> x < unat (slot_lba d s) * 512 + 512)" unfolding sector_range .
    then show ?thesis using False unat_sector_offset [OF small] by (auto simp: put_bytes_def)
  qed
  then show ?thesis using wb by (intro exI [of _ ?disk]) simp
qed

text \<open>
  Putting a fresh entry into slot \<open>s\<close>, either a new slot or one whose sector the device already shows as a
  reader sees it.
\<close>

lemma claim_slot:
  assumes inv: "disk_inv H d"
    and d': "d' = d\<lparr>da_cache_entries := es, da_hash_table := tbl\<rparr>"
    and s: "s < length es" "es ! s = \<lparr>ce_lba = lba, ce_last_access = da_global_age d, ce_dirty = False\<rparr>"
    and es: "length (da_cache_entries d) \<le> length es" "length es \<le> Suc (length (da_cache_entries d))"
      "length es \<le> get_max_cache_entries d"
      "\<And>t. t < length es \<Longrightarrow> t \<noteq> s \<Longrightarrow> t < length (da_cache_entries d) \<and> es ! t = da_cache_entries d ! t"
    and new: "lba \<notin> slot_lba d ` {..<length (da_cache_entries d)}"
    and tbl: "hash_ok (slot_lba d') {..<length es} tbl"
    and flushed: "\<And>x. s < length (da_cache_entries d) \<Longrightarrow> x div 512 = unat (slot_lba d s) \<Longrightarrow>
      disk_view H d x = da_disk_io d x"
  shows "disk_inv (insert s H) d'" "disk_view (insert s H) d' = disk_view H d"
proof -
  have ents: "da_cache_entries d' = es" and buf: "da_buffer d' = da_buffer d" "da_disk_io d' = da_disk_io d"
      "da_global_age d' = da_global_age d" "get_max_cache_entries d' = get_max_cache_entries d" "da_hash_table d' = tbl"
    by (simp_all add: d' get_max_cache_entries_def)
  have lba_s: "slot_lba d' s = lba" by (simp add: slot_lba_def ents s(2))
  have lba_t: "slot_lba d' t = slot_lba d t" if "t < length es" "t \<noteq> s" for t
    using es(4) [OF that] by (simp add: slot_lba_def ents)
  have inj: "inj_on (slot_lba d') {..<length es}"
  proof (rule inj_onI)
    fix t u assume tu: "t \<in> {..<length es}" "u \<in> {..<length es}" "slot_lba d' t = slot_lba d' u"
    have out: "slot_lba d v \<noteq> lba" if "v < length es" "v \<noteq> s" for v
      using new es(4) [OF that] by auto
    show "t = u"
      using tu lba_s lba_t out es(4) disk_invD(2) [OF inv] unfolding inj_on_def by (metis lessThan_iff)
  qed
  have ok: "slot_ok (insert s H) d' t" if t: "t < length es" for t
  proof (cases "t = s")
    case True
    then show ?thesis by (simp add: slot_ok_def ents s(2) buf)
  next
    case False
    then show ?thesis
      using disk_invD(7) [OF inv, of t] es(4) [OF t False] lba_t [OF t False] False
      by (auto simp: slot_ok_def ents buf split: if_splits)
  qed
  have sub: "insert s H \<subseteq> {..<length es}" using disk_invD(6) [OF inv] s(1) es(1) by auto
  show "disk_inv (insert s H) d'"
    unfolding disk_inv_def ents buf READAHEAD_SECTORS_def
    using tbl inj ok sub es(3) disk_invD(3,4) [OF inv] by blast
  have holds_eq: "holds (insert s H) d' x t \<longleftrightarrow> holds H d x t \<and> t \<noteq> s" for x t
    using lba_t [of t] es(1) es(4) [of t] by (auto simp: holds_def ents)
  have "disk_view (insert s H) d' x = disk_view H d x" for x
  proof (cases "\<exists>t. holds H d x t \<and> t \<noteq> s")
    case True
    then obtain t where t: "holds H d x t" "t \<noteq> s" by blast
    have "disk_view (insert s H) d' x = da_buffer d' (t * 512 + x mod 512)"
      using inj t holds_eq by (intro view_cached) (simp_all add: ents)
    then show ?thesis using view_cached [OF disk_invD(2) [OF inv] t(1)] buf by simp
  next
    case False
    then have "disk_view (insert s H) d' x = da_disk_io d x" using holds_eq buf by (metis view_uncached)
    moreover have "disk_view H d x = da_disk_io d x"
    proof (cases "holds H d x s")
      case True
      then show ?thesis using flushed [of x] by (simp add: holds_def)
    next
      case no: False
      then show ?thesis using False view_uncached by metis
    qed
    ultimately show ?thesis by simp
  qed
  then show "disk_view (insert s H) d' = disk_view H d" by blast
qed

lemma claim_older:
  assumes "older H d" "da_global_age d' = da_global_age d"
    "\<And>t. t < length (da_cache_entries d') \<Longrightarrow> t \<noteq> s \<Longrightarrow>
      t < length (da_cache_entries d) \<and> da_cache_entries d' ! t = da_cache_entries d ! t"
  shows "older (insert s H) d'"
  unfolding older_def assms(2) using assms(1,3) unfolding older_def by (metis insertCI)

lemma oldest_loop_least:
  assumes "es = drop i entries" "oi < length entries" "ce_last_access (entries ! oi) \<le> oa"
    "\<forall>t < i. t < length entries \<longrightarrow> oa \<le> ce_last_access (entries ! t)"
  shows "oldest_loop es i oi oa < length entries \<and>
    (\<forall>t < length entries. ce_last_access (entries ! oldest_loop es i oi oa) \<le> ce_last_access (entries ! t))"
  using assms
proof (induction es i oi oa rule: oldest_loop.induct)
  case (1 i oi oa)
  then show ?case by (auto intro: order_trans)
next
  case (2 e es i oi oa)
  have i: "i < length entries" "e = entries ! i" "es = drop (Suc i) entries"
    using "2.prems"(1) by (metis drop_eq_Nil leI list.distinct(1), metis nth_via_drop, metis drop_Suc tl_drop list.sel(3))
  show ?case
  proof (cases "ce_last_access e < oa")
    case True
    have "\<forall>t < Suc i. t < length entries \<longrightarrow> ce_last_access e \<le> ce_last_access (entries ! t)"
      using "2.prems"(4) True i(2) by (auto simp: less_Suc_eq)
    then show ?thesis using "2.IH"(1) [OF True i(3,1)] True i(2) by simp
  next
    case False
    have "\<forall>t < Suc i. t < length entries \<longrightarrow> oa \<le> ce_last_access (entries ! t)"
      using "2.prems"(4) False i(2) by (auto simp: less_Suc_eq)
    then show ?thesis using "2.IH"(2) [OF False i(3) "2.prems"(2,3)] False by simp
  qed
qed

lemma oldest_least:
  assumes "0 < length entries"
  shows "oldest_loop entries 0 0 0xFFFFFFFF < length entries"
    "t < length entries \<Longrightarrow> ce_last_access (entries ! oldest_loop entries 0 0 0xFFFFFFFF) \<le> ce_last_access (entries ! t)"
proof -
  have "w \<le> 0xFFFFFFFF" for w :: u32
    unfolding word_le_nat_alt using unat_less_max32 [of w] by (simp del: unat_less_max32)
  then show "oldest_loop entries 0 0 0xFFFFFFFF < length entries"
      "t < length entries \<Longrightarrow> ce_last_access (entries ! oldest_loop entries 0 0 0xFFFFFFFF) \<le> ce_last_access (entries ! t)"
    using oldest_loop_least [of entries 0 entries 0 "0xFFFFFFFF"] assms by simp_all
qed

lemma oldest_not_held:
  assumes inv: "disk_inv H d" and old: "older H d" and H: "card H < 16"
    and full: "get_max_cache_entries d \<le> length (da_cache_entries d)"
  shows "oldest_loop (da_cache_entries d) 0 0 0xFFFFFFFF < length (da_cache_entries d)"
    "oldest_loop (da_cache_entries d) 0 0 0xFFFFFFFF \<notin> H"
proof -
  let ?es = "da_cache_entries d"
  let ?r = "oldest_loop ?es 0 0 0xFFFFFFFF"
  have "0 < length ?es" using full disk_invD(3) [OF inv] by linarith
  from oldest_least [OF this]
  have r: "?r < length ?es" "\<forall>t < length ?es. ce_last_access (?es ! ?r) \<le> ce_last_access (?es ! t)" by blast+
  have "finite H" using disk_invD(6) [OF inv] finite_subset by blast
  have "\<not> {..<length ?es} \<subseteq> H"
    using card_mono [OF \<open>finite H\<close>, of "{..<length ?es}"] H full disk_invD(3) [OF inv] by auto
  then obtain t where t: "t < length ?es" "t \<notin> H" by auto
  then have less: "ce_last_access (?es ! ?r) < da_global_age d"
    using r(2) old by (auto simp: older_def intro: order_le_less_trans)
  show "?r < length ?es" by (rule r(1))
  show "?r \<notin> H"
    using disk_invD(7) [OF inv r(1)] less by (auto simp: slot_ok_def)
qed

definition slot_taken :: "nat set \<Rightarrow> disk_access \<Rightarrow> u32 \<Rightarrow> disk_access \<Rightarrow> nat \<Rightarrow> bool" where
  "slot_taken H d lba d' s \<longleftrightarrow> s \<notin> H \<and> s < length (da_cache_entries d') \<and> slot_lba d' s = lba \<and>
     disk_inv (insert s H) d' \<and> older (insert s H) d' \<and> disk_view (insert s H) d' = disk_view H d \<and>
     da_global_age d' = da_global_age d \<and> da_buffer_size d' = da_buffer_size d \<and>
     (\<forall>t \<in> H. slot_lba d' t = slot_lba d t) \<and>
     slot_lba d' ` {..<length (da_cache_entries d')} \<subseteq> insert lba (slot_lba d ` {..<length (da_cache_entries d)})"

lemma allocate_new_slot:
  assumes inv: "disk_inv H d" and old: "older H d"
    and new: "lba \<notin> slot_lba d ` {..<length (da_cache_entries d)}"
    and room: "length (da_cache_entries d) < get_max_cache_entries d"
  shows "\<exists>d' s. allocate_slot d lba = Some (d', s) \<and> slot_taken H d lba d' s"
proof -
  let ?n = "length (da_cache_entries d)"
  let ?fresh = "\<lparr>ce_lba = lba, ce_last_access = da_global_age d, ce_dirty = False\<rparr>"
  let ?es = "da_cache_entries d @ [?fresh]"
  let ?tbl = "hash_insert (da_hash_table d) lba ?n"
  let ?d = "d\<lparr>da_cache_entries := ?es, da_hash_table := ?tbl\<rparr>"
  have alloc: "allocate_slot d lba = Some (?d, ?n)" using room by (simp add: allocate_slot_def Let_def)
  have lbas: "slot_lba ?d t = (if t = ?n then lba else slot_lba d t)" if "t \<le> ?n" for t
    using that by (auto simp: slot_lba_def nth_append)
  have n: "?n < HASH_TABLE_SIZE" using room disk_invD(4) [OF inv] by linarith
  have "hash_ok (slot_lba ?d) (insert ?n {..<?n}) ?tbl"
    using n lbas by (intro hash_insert_ok [OF disk_invD(1) [OF inv]]) (simp_all add: HASH_TABLE_SIZE_def)
  then have tbl: "hash_ok (slot_lba ?d) {..<length ?es} ?tbl" by (simp add: lessThan_Suc)
  have notH: "?n \<notin> H" using disk_invD(6) [OF inv] by auto
  have other: "\<And>t. t < length ?es \<Longrightarrow> t \<noteq> ?n \<Longrightarrow> t < ?n \<and> ?es ! t = da_cache_entries d ! t"
    by (simp add: nth_append)
  have claim: "disk_inv (insert ?n H) ?d" "disk_view (insert ?n H) ?d = disk_view H d"
    using claim_slot [OF inv refl _ _ _ _ _ other new tbl] room by simp_all
  have "older (insert ?n H) ?d" using other by (intro claim_older [OF old]) simp_all
  have "slot_taken H d lba ?d ?n"
    unfolding slot_taken_def using claim \<open>older (insert ?n H) ?d\<close> notH lbas disk_invD(6) [OF inv]
    by (auto simp: less_Suc_eq_le)
  then show ?thesis using alloc by blast
qed

lemma evict_slot:
  assumes inv: "disk_inv H d" and full: "\<not> length (da_cache_entries d) < get_max_cache_entries d"
    and new: "lba \<notin> slot_lba d ` {..<length (da_cache_entries d)}"
    and s: "s = oldest_loop (da_cache_entries d) 0 0 0xFFFFFFFF" "s < length (da_cache_entries d)"
  shows "\<exists>d'. allocate_slot d lba = Some (d', s) \<and> disk_inv (insert s H) d' \<and>
    disk_view (insert s H) d' = disk_view H d \<and> da_global_age d' = da_global_age d \<and> da_buffer_size d' = da_buffer_size d \<and>
    da_cache_entries d' = (da_cache_entries d)[s := \<lparr>ce_lba = lba, ce_last_access = da_global_age d, ce_dirty = False\<rparr>]"
proof -
  let ?n = "length (da_cache_entries d)"
  let ?fresh = "\<lparr>ce_lba = lba, ce_last_access = da_global_age d, ce_dirty = False\<rparr>"
  obtain disk' where wb: "write_back d s = Some (d\<lparr>da_disk_io := disk'\<rparr>)" and
    disk': "\<And>x. disk' x = (if x div 512 = unat (slot_lba d s) then disk_view H d x else da_disk_io d x)"
    using write_back_ok [OF inv s(2)] by blast
  let ?d1 = "d\<lparr>da_disk_io := disk'\<rparr>"
  have d1: "disk_inv H ?d1" "disk_view H ?d1 = disk_view H d" using disk' by (intro disk_update [OF inv]; simp)+
  have lba1: "slot_lba ?d1 = slot_lba d" by (simp add: slot_lba_def fun_eq_iff)
  have n: "?n < HASH_TABLE_SIZE" using disk_invD(4,5) [OF inv] by linarith
  obtain tbl where tbl: "hash_remove (slot_lba d) (da_hash_table d) (slot_lba d s) = Some tbl"
      "hash_ok (slot_lba d) ({..<?n} - {s}) tbl"
    using hash_remove_ok [OF disk_invD(1,2) [OF inv], of s] s(2) n by auto
  let ?d2 = "?d1\<lparr>da_cache_entries := (da_cache_entries d)[s := ?fresh], da_hash_table := hash_insert tbl lba s\<rparr>"
  have alloc: "allocate_slot d lba = Some (?d2, s)"
    using full s(2) wb tbl(1) lba1 by (simp add: allocate_slot_def Let_def s(1) [symmetric])
  have lbas: "slot_lba ?d2 t = (if t = s then lba else slot_lba d t)" if "t < ?n" for t
    using that by (auto simp: slot_lba_def nth_list_update)
  have "hash_ok (slot_lba ?d2) (insert s ({..<?n} - {s})) (hash_insert tbl lba s)"
    using n s(2) lbas by (intro hash_insert_ok [OF tbl(2)]) (simp_all add: HASH_TABLE_SIZE_def)
  then have tbl2: "hash_ok (slot_lba ?d2) {..<length ((da_cache_entries d)[s := ?fresh])} (hash_insert tbl lba s)"
    using s(2) by (simp add: insert_absorb)
  have new1: "lba \<notin> slot_lba ?d1 ` {..<length (da_cache_entries ?d1)}" using new by (simp add: lba1)
  have flushed: "disk_view H ?d1 x = da_disk_io ?d1 x" if "x div 512 = unat (slot_lba ?d1 s)" for x
    using that disk' [of x] by (simp add: d1(2) lba1)
  have "disk_inv (insert s H) ?d2" "disk_view (insert s H) ?d2 = disk_view H ?d1"
    using claim_slot [OF d1(1) refl _ _ _ _ _ _ new1 tbl2 flushed] s(2) disk_invD(5) [OF d1(1)]
    by (simp_all add: get_max_cache_entries_def)
  then show ?thesis using alloc d1(2) by (intro exI [of _ ?d2]) simp
qed

lemma allocate_evicted_slot:
  assumes inv: "disk_inv H d" and old: "older H d" and H: "card H < 16"
    and new: "lba \<notin> slot_lba d ` {..<length (da_cache_entries d)}"
    and full: "\<not> length (da_cache_entries d) < get_max_cache_entries d"
  shows "\<exists>d' s. allocate_slot d lba = Some (d', s) \<and> slot_taken H d lba d' s"
proof -
  define s where "s = oldest_loop (da_cache_entries d) 0 0 0xFFFFFFFF"
  have s: "s < length (da_cache_entries d)" "s \<notin> H" using oldest_not_held [OF inv old H] full by (simp_all add: s_def)
  obtain d' where d': "allocate_slot d lba = Some (d', s)" "disk_inv (insert s H) d'"
      "disk_view (insert s H) d' = disk_view H d" "da_global_age d' = da_global_age d" "da_buffer_size d' = da_buffer_size d"
      "da_cache_entries d' = (da_cache_entries d)[s := \<lparr>ce_lba = lba, ce_last_access = da_global_age d, ce_dirty = False\<rparr>]"
    using evict_slot [OF inv full new s_def s(1)] by blast
  have lbas: "slot_lba d' t = (if t = s then lba else slot_lba d t)" if "t < length (da_cache_entries d)" for t
    using that by (auto simp: slot_lba_def d'(6) nth_list_update)
  have "older (insert s H) d'" using old d'(4,6) by (intro claim_older) auto
  then have "slot_taken H d lba d' s"
    unfolding slot_taken_def using d' s lbas disk_invD(6) [OF inv] by (auto simp: subset_iff)
  then show ?thesis using d'(1) by blast
qed

lemma allocate_slot_ok:
  assumes "disk_inv H d" "older H d" "card H < 16" "lba \<notin> slot_lba d ` {..<length (da_cache_entries d)}"
  shows "\<exists>d' s. allocate_slot d lba = Some (d', s) \<and> slot_taken H d lba d' s"
  using assms allocate_new_slot allocate_evicted_slot by blast

section \<open>Reading ahead keeps the view\<close>

definition slots_taken :: "nat set \<Rightarrow> disk_access \<Rightarrow> u32 \<Rightarrow> nat \<Rightarrow> disk_access \<Rightarrow> nat list \<Rightarrow> bool" where
  "slots_taken H d start i d' slots \<longleftrightarrow>
     disk_inv (H \<union> set slots) d' \<and> older (H \<union> set slots) d' \<and>
     disk_view (H \<union> set slots) d' = disk_view H d \<and>
     da_global_age d' = da_global_age d \<and> da_buffer_size d' = da_buffer_size d \<and>
     (\<forall>t \<in> H. slot_lba d' t = slot_lba d t) \<and>
     (\<forall>k < length slots. slot_lba d' (slots ! k) = start + of_nat (i + k))"

lemma of_nat_small_inj:
  assumes "j < 4294967296" "k < 4294967296" shows "(of_nat j :: u32) = of_nat k \<longleftrightarrow> j = k"
proof
  assume "(of_nat j :: u32) = of_nat k"
  then have "unat (of_nat j :: u32) = unat (of_nat k :: u32)" by simp
  then show "j = k" using assms by (simp add: unat_of_nat_small)
qed simp

lemma allocate_slots_ok:
  assumes "disk_inv H d" "older H d" "card H + n \<le> 16" "i + n \<le> 16"
    "\<forall>k < n. start + of_nat (i + k) \<notin> slot_lba d ` {..<length (da_cache_entries d)}"
  shows "\<exists>d' slots. allocate_slots d start n i = Some (d', slots) \<and> length slots = n \<and> slots_taken H d start i d' slots"
  using assms
proof (induction n arbitrary: H d i)
  case 0
  then show ?case by (simp add: slots_taken_def)
next
  case (Suc n)
  have new: "start + of_nat i \<notin> slot_lba d ` {..<length (da_cache_entries d)}" using Suc.prems(5) by force
  obtain d1 s where alloc: "allocate_slot d (start + of_nat i) = Some (d1, s)" and
    taken: "slot_taken H d (start + of_nat i) d1 s"
    using allocate_slot_ok [OF Suc.prems(1,2) _ new] Suc.prems(3) by auto
  have fin: "finite H" using disk_invD(6) [OF Suc.prems(1)] finite_subset by blast
  have room: "card (insert s H) + n \<le> 16" "Suc i + n \<le> 16"
    using Suc.prems(3,4) taken fin by (simp_all add: slot_taken_def)
  have "start + of_nat (Suc i + k) \<notin> slot_lba d1 ` {..<length (da_cache_entries d1)}" if k: "k < n" for k
  proof -
    have "start + of_nat (Suc i + k) \<noteq> start + of_nat i"
      using of_nat_small_inj [of "Suc i + k" i] room(2) k by (simp del: of_nat_add of_nat_Suc)
    moreover have "start + of_nat (Suc i + k) \<notin> slot_lba d ` {..<length (da_cache_entries d)}"
      using Suc.prems(5) [rule_format, of "Suc k"] k by (simp add: add_ac)
    ultimately show ?thesis using taken unfolding slot_taken_def by blast
  qed
  then obtain d2 slots where rest: "allocate_slots d1 start n (Suc i) = Some (d2, slots)" "length slots = n"
      "slots_taken (insert s H) d1 start (Suc i) d2 slots"
    using Suc.IH [of "insert s H" d1 "Suc i"] room taken by (auto simp: slot_taken_def)
  have "slot_lba d2 ((s # slots) ! k) = start + of_nat (i + k)" if "k < Suc n" for k
  proof (cases k)
    case 0
    then show ?thesis using rest(3) taken by (simp add: slots_taken_def slot_taken_def)
  next
    case (Suc k')
    then show ?thesis using rest(2,3) that by (simp add: slots_taken_def)
  qed
  then have "slots_taken H d start i d2 (s # slots)"
    using rest(2,3) taken by (simp add: slots_taken_def slot_taken_def)
  then show ?case using alloc rest by (intro exI conjI) simp_all
qed

lemma count_uncached_ok:
  assumes "disk_inv H d"
  shows "count_uncached d start n i \<le> n"
    "k < count_uncached d start n i \<Longrightarrow> start + of_nat (i + k) \<notin> slot_lba d ` {..<length (da_cache_entries d)}"
proof -
  show "count_uncached d start n i \<le> n" by (induction n arbitrary: i) auto
  show "start + of_nat (i + k) \<notin> slot_lba d ` {..<length (da_cache_entries d)}" if "k < count_uncached d start n i"
    using that
  proof (induction n arbitrary: i k)
    case (Suc n)
    then have none: "da_lookup d (start + of_nat i) = None" by (simp split: if_splits)
    show ?case
    proof (cases k)
      case 0
      then show ?thesis using none lookup_None [OF assms] by simp
    next
      case (Suc k')
      then show ?thesis using Suc.IH [of k' "Suc i"] Suc.prems none by (simp add: add_ac)
    qed
  qed simp
qed

lemma distribute_other: "x div 512 \<notin> set slots \<Longrightarrow> distribute src slots buf x = buf x"
proof (induction src slots buf rule: distribute.induct)
  case (2 src slot slots buf)
  then have "\<not> (slot * 512 \<le> x \<and> x < slot * 512 + 512)" using sector_range [of slot x] by auto
  then show ?case using 2 by (auto simp: put_bytes_def)
qed simp

lemma distribute_slot:
  assumes "distinct slots" "\<forall>s \<in> set slots. s < m" "m * 512 \<le> src" "k < length slots" "j < 512"
  shows "distribute src slots buf (slots ! k * 512 + j) = buf (src + k * 512 + j)"
  using assms
proof (induction src slots buf arbitrary: k rule: distribute.induct)
  case (2 src slot slots buf)
  show ?case
  proof (cases k)
    case 0
    have "(slot * 512 + j) div 512 = slot" using "2.prems"(5) by simp
    then show ?thesis using 0 "2.prems"(1,5) by (simp add: distribute_other put_bytes_def)
  next
    case (Suc k')
    have "slot * 512 + 512 \<le> m * 512" using "2.prems"(2) by auto
    then have "put_bytes (slot * 512) (get_bytes buf src 512) buf (src + 512 + k' * 512 + j) = buf (src + 512 + k' * 512 + j)"
      using "2.prems"(3) by (simp add: put_bytes_def)
    then show ?thesis using Suc "2.IH" [of k'] "2.prems" by (simp add: add_ac)
  qed
qed simp

lemma slots_distinct:
  assumes "\<forall>k < length slots. f (slots ! k) = start + (of_nat k :: u32)" "length slots \<le> 16"
  shows "distinct slots"
proof -
  have "slots ! j \<noteq> slots ! k" if jk: "j < length slots" "k < length slots" "j \<noteq> k" for j k
  proof
    assume "slots ! j = slots ! k"
    then have "start + (of_nat j :: u32) = start + of_nat k" using assms(1) jk(1,2) by metis
    then show False using of_nat_small_inj [of j k] jk assms(2) by simp
  qed
  then show ?thesis by (simp add: distinct_conv_nth)
qed

lemma unat_sector_plus: "unat (start :: u32) < 0x800000 \<Longrightarrow> k < 16 \<Longrightarrow> unat (start + of_nat k) = unat start + k"
  by (subst unat_add_small) (simp_all add: unat_of_nat_small)

lemma filled_bytes:
  assumes inv: "disk_inv (set slots) d" and lbas: "\<forall>k < length slots. slot_lba d (slots ! k) = start + of_nat k"
    and small: "unat start < 0x800000" "length slots \<le> 16"
    and m: "m = get_max_cache_entries d * 512"
    and buf: "buf = put_bytes m (get_bytes (da_disk_io d) (unat (start * 512)) (length slots * 512)) (da_buffer d)"
    and t: "t < length (da_cache_entries d)" "j < 512"
  shows "distribute m slots buf (t * 512 + j) =
    (if t \<in> set slots then da_disk_io d (unat (slot_lba d t) * 512 + j) else da_buffer d (t * 512 + j))"
proof (cases "t \<in> set slots")
  case True
  then obtain k where k: "k < length slots" "slots ! k = t" by (auto simp: in_set_conv_nth)
  have below: "\<forall>s \<in> set slots. s < get_max_cache_entries d" using disk_invD(5,6) [OF inv] by fastforce
  have "distribute m slots buf (t * 512 + j) = buf (m + k * 512 + j)"
    using distribute_slot [OF slots_distinct [OF lbas small(2)] below _ k(1) t(2), of m] k(2) m by simp
  also have "\<dots> = da_disk_io d (unat start * 512 + (k * 512 + j))"
    using k(1) t(2) unat_sector_offset [OF small(1)] by (simp add: buf put_bytes_def add.assoc)
  also have "unat start * 512 + (k * 512 + j) = unat (slot_lba d t) * 512 + j"
    using lbas k small unat_sector_plus [OF small(1), of k] by auto
  finally show ?thesis using True by simp
next
  case False
  have "t * 512 + 512 \<le> m" using t(1) disk_invD(5) [OF inv] by (auto simp: m)
  then have "buf (t * 512 + j) = da_buffer d (t * 512 + j)" using t(2) by (simp add: buf put_bytes_def)
  then show ?thesis using False t(2) by (simp add: distribute_other)
qed

lemma fill_slots:
  assumes inv: "disk_inv (set slots) d"
    and bytes: "\<And>t j. t < length (da_cache_entries d) \<Longrightarrow> j < 512 \<Longrightarrow> buf (t * 512 + j) =
      (if t \<in> set slots then da_disk_io d (unat (slot_lba d t) * 512 + j) else da_buffer d (t * 512 + j))"
  shows "disk_inv {} (d\<lparr>da_buffer := buf\<rparr>)" "disk_view {} (d\<lparr>da_buffer := buf\<rparr>) = disk_view (set slots) d"
proof -
  let ?d = "d\<lparr>da_buffer := buf\<rparr>"
  have lba: "slot_lba ?d = slot_lba d" by (simp add: slot_lba_def fun_eq_iff)
  have ok: "slot_ok {} ?d t" if t: "t < length (da_cache_entries d)" for t
    using disk_invD(7) [OF inv t] bytes [OF t] by (auto simp: slot_ok_def lba split: if_splits)
  have inv': "disk_inv {} ?d"
    using inv ok by (simp add: disk_inv_def lba get_max_cache_entries_def)
  have "disk_view {} ?d x = disk_view (set slots) d x" for x
  proof (cases "\<exists>t < length (da_cache_entries d). unat (slot_lba d t) = x div 512")
    case True
    then obtain t where t: "t < length (da_cache_entries d)" "unat (slot_lba d t) = x div 512" by blast
    have "holds {} ?d x t" using t by (simp add: holds_def lba)
    then have new: "disk_view {} ?d x = buf (t * 512 + x mod 512)"
      using view_cached [OF disk_invD(2) [OF inv']] by simp
    show ?thesis
    proof (cases "t \<in> set slots")
      case True
      then have "\<not> ce_dirty (da_cache_entries d ! t)" using disk_invD(7) [OF inv t(1)] by (simp add: slot_ok_def)
      then show ?thesis
        using new bytes [OF t(1), of "x mod 512"] True t view_clean_slot [OF inv t(1), of x] by simp
    next
      case False
      then have "holds (set slots) d x t" using t by (simp add: holds_def)
      then show ?thesis using new bytes [OF t(1), of "x mod 512"] False view_cached [OF disk_invD(2) [OF inv]] by simp
    qed
  next
    case False
    then have "\<not> holds {} ?d x t" "\<not> holds (set slots) d x t" for t by (auto simp: holds_def lba)
    then show ?thesis by (simp add: view_uncached)
  qed
  then show "disk_inv {} ?d" "disk_view {} ?d = disk_view (set slots) d" using inv' by blast+
qed

lemma readahead_ok:
  assumes inv: "disk_inv {} d" and old: "older {} d" and start: "da_lookup d start = None" "unat start < 0x800000"
  shows "\<exists>d'. readahead d start = Some d' \<and> disk_ok d' \<and> disk_view {} d' = disk_view {} d \<and>
    start \<in> slot_lba d' ` {..<length (da_cache_entries d')} \<and>
    da_global_age d' = da_global_age d \<and> da_buffer_size d' = da_buffer_size d"
proof -
  define num where "num = count_uncached d start READAHEAD_SECTORS 0"
  have num: "num \<noteq> 0" "num \<le> 16"
    using start(1) count_uncached_ok(1) [OF inv, of start READAHEAD_SECTORS 0]
    by (simp_all add: num_def READAHEAD_SECTORS_def numeral_eq_Suc)
  have "\<forall>k < num. start + of_nat (0 + k) \<notin> slot_lba d ` {..<length (da_cache_entries d)}"
    using count_uncached_ok(2) [OF inv, of _ start READAHEAD_SECTORS 0] unfolding num_def by blast
  then obtain d1 slots where alloc: "allocate_slots d start num 0 = Some (d1, slots)" "length slots = num"
      "slots_taken {} d start 0 d1 slots"
    using allocate_slots_ok [OF inv old, of num 0 start] num(2) by auto
  have d1: "disk_inv (set slots) d1" "older (set slots) d1" "disk_view (set slots) d1 = disk_view {} d"
      "da_global_age d1 = da_global_age d" "da_buffer_size d1 = da_buffer_size d"
      "\<forall>k < length slots. slot_lba d1 (slots ! k) = start + of_nat k"
    using alloc(3) by (simp_all add: slots_taken_def)
  define m where "m = get_max_cache_entries d1 * 512"
  define buf where "buf = put_bytes m (get_bytes (da_disk_io d1) (unat (start * 512)) (length slots * 512)) (da_buffer d1)"
  let ?d = "d1\<lparr>da_buffer := distribute m slots buf\<rparr>"
  have ra: "readahead d start = Some ?d"
    using num(1) alloc(1,2) by (simp add: readahead_def num_def [symmetric] m_def buf_def Let_def)
  note bytes = filled_bytes [OF d1(1) d1(6) start(2) _ m_def buf_def]
  have fill: "disk_inv {} ?d" "disk_view {} ?d = disk_view (set slots) d1"
    using fill_slots [OF d1(1) bytes] num(2) alloc(2) by simp_all
  have "ce_last_access (da_cache_entries d1 ! s) \<le> da_global_age d1" if s: "s < length (da_cache_entries d1)" for s
    using disk_invD(7) [OF d1(1) s] d1(2) s by (cases "s \<in> set slots") (auto simp: slot_ok_def older_def)
  then have "disk_ok ?d" using fill(1) by (simp add: disk_ok_def)
  moreover have "start \<in> slot_lba ?d ` {..<length (da_cache_entries ?d)}"
  proof
    have pos: "0 < length slots" using num(1) alloc(2) by simp
    show "start = slot_lba ?d (slots ! 0)" using d1(6) pos by (simp add: slot_lba_def)
    have "slots ! 0 \<in> set slots" using pos by simp
    then show "slots ! 0 \<in> {..<length (da_cache_entries ?d)}" using disk_invD(6) [OF d1(1)] by auto
  qed
  ultimately show ?thesis using ra fill(2) d1(3-5) by simp
qed

lemma touch_slot:
  assumes inv: "disk_inv {} d" and s: "s < length (da_cache_entries d)"
    and d': "d' = d\<lparr>da_cache_entries := (da_cache_entries d)[s := (da_cache_entries d ! s)\<lparr>ce_last_access := a\<rparr>]\<rparr>"
  shows "disk_inv {} d'" "disk_view {} d' = disk_view {} d" "slot_lba d' = slot_lba d"
proof -
  have lba: "slot_lba d' = slot_lba d" using s by (auto simp: slot_lba_def d' fun_eq_iff nth_list_update)
  have dirty: "ce_dirty (da_cache_entries d' ! t) = ce_dirty (da_cache_entries d ! t)" for t
    using s by (auto simp: d' nth_list_update)
  have same: "length (da_cache_entries d') = length (da_cache_entries d)" "da_buffer d' = da_buffer d"
      "da_disk_io d' = da_disk_io d" "da_hash_table d' = da_hash_table d"
      "get_max_cache_entries d' = get_max_cache_entries d"
    by (simp_all add: d' get_max_cache_entries_def)
  have ok: "slot_ok {} d' t = slot_ok {} d t" for t by (simp add: slot_ok_def lba dirty same)
  show "disk_inv {} d'" using inv by (simp add: disk_inv_def lba same ok)
  have "holds {} d' = holds {} d" by (simp add: holds_def lba same fun_eq_iff)
  then show "disk_view {} d' = disk_view {} d"
    by (intro ext) (simp add: disk_view_def same split: option.split)
  show "slot_lba d' = slot_lba d" by (rule lba)
qed

text \<open>What \<open>cache_sector\<close> leaves, and \<open>k\<close> accesses later.\<close>

definition same_view :: "nat \<Rightarrow> disk_access \<Rightarrow> disk_access \<Rightarrow> bool" where
  "same_view k d d' \<longleftrightarrow> disk_ok d' \<and> disk_view {} d' = disk_view {} d \<and>
     unat (da_global_age d') = unat (da_global_age d) + k \<and> da_buffer_size d' = da_buffer_size d"

lemma cache_sector_ok:
  assumes ok: "disk_ok d" and lba: "unat lba < 0x800000" and age: "unat (da_global_age d) + 1 < 2 ^ 32"
  shows "\<exists>d' s. cache_sector d lba = Some (d', s) \<and> same_view 1 d d' \<and>
    s < length (da_cache_entries d') \<and> slot_lba d' s = lba"
proof -
  let ?d = "d\<lparr>da_global_age := da_global_age d + 1\<rparr>"
  have age': "unat (da_global_age d + 1) = unat (da_global_age d) + 1"
    using age by (subst unat_add_small) simp_all
  have lba0: "slot_lba ?d = slot_lba d" by (simp add: slot_lba_def fun_eq_iff)
  have view0: "disk_view {} ?d = disk_view {} d" by (intro ext) (simp add: disk_view_def holds_def [abs_def] lba0 split: option.split)
  have inv0: "disk_inv {} ?d"
    using ok by (simp add: disk_ok_def disk_inv_def lba0 slot_ok_def get_max_cache_entries_def)
  have old0: "older {} ?d"
    using ok age' by (auto simp: disk_ok_def older_def word_less_nat_alt word_le_nat_alt less_Suc_eq_le)
  show ?thesis
  proof (cases "da_lookup ?d lba")
    case None
    from readahead_ok [OF inv0 old0 None lba]
    obtain d' where d': "readahead ?d lba = Some d'" "disk_ok d'" "disk_view {} d' = disk_view {} ?d"
        "lba \<in> slot_lba d' ` {..<length (da_cache_entries d')}"
        "da_global_age d' = da_global_age ?d" "da_buffer_size d' = da_buffer_size ?d" by blast
    then obtain s where s: "s < length (da_cache_entries d')" "slot_lba d' s = lba" by auto
    then have "da_lookup d' lba = Some s" using lookup_Some d'(2) by (auto simp: disk_ok_def)
    then have "cache_sector d lba = Some (d', s)" using None d'(1) by (simp add: cache_sector_def Let_def)
    then show ?thesis using d' s view0 age' by (simp add: same_view_def)
  next
    case (Some s)
    then have s: "s < length (da_cache_entries ?d)" "slot_lba ?d s = lba" using lookup_Some [OF inv0] by simp_all
    let ?e = "?d\<lparr>da_cache_entries := (da_cache_entries ?d)[s := (da_cache_entries ?d ! s)\<lparr>ce_last_access := da_global_age ?d\<rparr>]\<rparr>"
    note touch = touch_slot [OF inv0 s(1) refl, of "da_global_age ?d"]
    have "cache_sector d lba = Some (?e, s)" using Some by (simp add: cache_sector_def Let_def)
    moreover have "disk_ok ?e"
      using touch(1) old0 s(1) unfolding disk_ok_def older_def by (auto simp: nth_list_update intro: less_imp_le)
    moreover have "disk_view {} ?e = disk_view {} d" using touch(2) view0 by simp
    moreover have "slot_lba ?e s = lba" using touch(3) s(2) by simp
    ultimately show ?thesis using s(1) age' unfolding same_view_def by simp
  qed
qed

section \<open>Reads, writes and flushes\<close>

lemma get_bytes_append: "get_bytes m p i @ get_bytes m (p + i) j = get_bytes m p (i + j)"
  using upt_add_eq_append [of p "p + i" j] by (simp add: get_bytes_def add.assoc)

lemma slot_bytes:
  assumes "disk_ok d" "s < length (da_cache_entries d)" "o' + k \<le> 512"
  shows "get_bytes (da_buffer d) (s * 512 + o') k = get_bytes (disk_view {} d) (unat (slot_lba d s) * 512 + o') k"
proof (rule nth_equalityI)
  fix i assume i: "i < length (get_bytes (da_buffer d) (s * 512 + o') k)"
  let ?x = "unat (slot_lba d s) * 512 + (o' + i)"
  have "?x div 512 = unat (slot_lba d s)" "?x mod 512 = o' + i" using i assms(3) by simp_all
  then have "disk_view {} d ?x = da_buffer d (s * 512 + (o' + i))"
    using assms(1,2) view_cached [of d "{}" ?x s] disk_invD(2) [of "{}" d] by (simp add: holds_def disk_ok_def)
  then show "get_bytes (da_buffer d) (s * 512 + o') k ! i = get_bytes (disk_view {} d) (unat (slot_lba d s) * 512 + o') k ! i"
    using i by (simp add: add.assoc)
qed simp

lemma slot_in_range:
  assumes "disk_ok d" "s < length (da_cache_entries d)" "o' + k \<le> 512"
  shows "s * 512 + o' + k \<le> da_buffer_size d"
  using slot_in_buffer [of s d] assms disk_invD(5) [of "{}" d] by (simp add: disk_ok_def)

lemma same_view_trans: "same_view i d d1 \<Longrightarrow> same_view j d1 d2 \<Longrightarrow> same_view (i + j) d d2"
  by (simp add: same_view_def)

lemma unat_to_sector_end: "unat (so :: u32) < 512 \<Longrightarrow> unat (512 - so) = 512 - unat so"
  by (simp add: unat_sub word_le_nat_alt)

lemma unat_min: "unat (min a b :: u32) = min (unat a) (unat b)"
  by (simp add: min_def word_le_nat_alt)

lemma sector_step:
  assumes "Suc n = (so + tr + 511) div (512 :: nat)" "so < 512"
  shows "n = (tr - min tr (512 - so) + 511) div 512"
  using assms by (cases "tr \<le> 512 - so") (auto simp: min_def)

lemma read_loop_ok:
  assumes "disk_ok d" "n = (unat so + unat tr + 511) div 512" "unat so < 512"
    "unat br + unat tr = length buffer" "unat sector + n \<le> 0x800000" "unat (da_global_age d) + n < 2 ^ 32"
    "length buffer < 2 ^ 32"
  shows "\<exists>d'. read_loop n sector so tr br buffer d =
      Some (d', take (unat br) buffer @ get_bytes (disk_view {} d) (unat sector * 512 + unat so) (unat tr), br + tr) \<and>
    same_view n d d'"
  using assms
proof (induction n arbitrary: sector so tr br buffer d)
  case 0
  then have "unat tr = 0" by linarith
  then have "tr = 0" by (simp add: unat_eq_0)
  then show ?case using 0 by (simp add: same_view_def get_bytes_def)
next
  case (Suc n)
  obtain d1 s where c: "cache_sector d sector = Some (d1, s)" "same_view 1 d d1"
      "s < length (da_cache_entries d1)" "slot_lba d1 s = sector"
    using cache_sector_ok [OF Suc.prems(1), of sector] Suc.prems(5,6) by auto
  have ok1: "disk_ok d1" "disk_view {} d1 = disk_view {} d" "unat (da_global_age d1) = unat (da_global_age d) + 1"
    using c(2) by (simp_all add: same_view_def)
  define k where "k = min tr (512 - so)"
  have uk: "unat k = min (unat tr) (512 - unat so)" using Suc.prems(3) by (simp add: k_def unat_min unat_to_sector_end)
  have fits: "unat so + unat k \<le> 512" using uk Suc.prems(3) by simp
  note chunk = slot_bytes [OF ok1(1) c(3) fits]
  define buf where "buf = take (unat br) buffer @ get_bytes (da_buffer d1) (s * 512 + unat so) (unat k) @
    drop (unat br + unat k) buffer"
  have copy: "copy_into buffer (unat br) (get_bytes (da_buffer d1) (s * 512 + unat so) (unat k)) = Some buf"
    using Suc.prems(4) uk by (simp add: copy_into_def buf_def)
  have u: "unat (tr - k) = unat tr - unat k" "unat (br + k) = unat br + unat k" "unat (sector + 1) = unat sector + 1"
    using uk Suc.prems(4,5,7) by (simp_all add: unat_sub word_le_nat_alt unat_add_small)
  have n: "n = (unat (0 :: u32) + unat (tr - k) + 511) div 512"
    using sector_step [OF Suc.prems(2,3)] u(1) uk by simp
  have len: "unat (br + k) + unat (tr - k) = length buf" "length buf < 2 ^ 32"
    using Suc.prems(4,7) u uk by (simp_all add: buf_def)
  obtain d2 where d2: "read_loop n (sector + 1) 0 (tr - k) (br + k) buf d1 =
      Some (d2, take (unat (br + k)) buf @ get_bytes (disk_view {} d1) (unat (sector + 1) * 512 + unat (0 :: u32))
        (unat (tr - k)), br + k + (tr - k))" "same_view n d1 d2"
    using Suc.IH [OF ok1(1) n _ len(1), of "sector + 1"] Suc.prems(5,6) u(3) ok1(3) len(2) by auto
  have "take (unat (br + k)) buf @ get_bytes (disk_view {} d1) (unat (sector + 1) * 512) (unat (tr - k)) =
      take (unat br) buffer @ get_bytes (disk_view {} d) (unat sector * 512 + unat so) (unat tr)"
  proof (cases "unat tr \<le> 512 - unat so")
    case True
    then have "unat k = unat tr" using uk by simp
    then show ?thesis using u chunk c(4) ok1(2) Suc.prems(4) by (simp add: buf_def get_bytes_def)
  next
    case False
    then have k': "unat k = 512 - unat so" using uk by simp
    have "get_bytes (disk_view {} d) (unat sector * 512 + unat so) (unat k) @
        get_bytes (disk_view {} d) (unat sector * 512 + unat so + unat k) (unat tr - unat k) =
        get_bytes (disk_view {} d) (unat sector * 512 + unat so) (unat tr)"
      using False k' by (simp add: get_bytes_append)
    moreover have "unat sector * 512 + unat so + unat k = unat (sector + 1) * 512" using k' Suc.prems(3) u(3) by simp
    ultimately show ?thesis using u(1,2) chunk c(4) ok1(2) Suc.prems(4) False k' by (simp add: buf_def)
  qed
  then have "read_loop (Suc n) sector so tr br buffer d =
      Some (d2, take (unat br) buffer @ get_bytes (disk_view {} d) (unat sector * 512 + unat so) (unat tr), br + tr)"
    using c(1) d2(1) copy slot_in_range [OF ok1(1) c(3) fits] by (simp add: Let_def k_def [symmetric])
  then show ?case using same_view_trans [OF c(2) d2(2)] by auto
qed

definition sectors :: "u32 \<Rightarrow> nat \<Rightarrow> nat" where
  "sectors offset len = (unat offset mod 512 + len + 511) div 512"

lemma sector_bounds:
  assumes "unat offset + len + 511 < 2 ^ 32"
  shows "unat ((offset + of_nat len + 511) div 512) - unat (offset div 512) = sectors offset len"
    "unat (offset div 512) + sectors offset len \<le> 0x800000"
    "unat (offset div 512) * 512 + unat (offset mod 512) = unat offset"
    "unat (offset mod 512) = unat offset mod 512" "unat (of_nat len :: u32) = len"
proof -
  have len: "unat (of_nat len :: u32) = len" using assms by (intro unat_of_nat_small) simp
  have "unat (offset + of_nat len) = unat offset + len" using assms len by (subst unat_add_small) simp_all
  then have sum: "unat (offset + of_nat len + 511) = unat offset + len + 511" using assms by (subst unat_add_small) simp_all
  have "unat offset + len + 511 = (unat offset mod 512 + len + 511) + 512 * (unat offset div 512)" by simp
  then have total: "(unat offset + len + 511) div 512 = unat offset div 512 + sectors offset len"
    unfolding sectors_def by (simp only: div_mult_self2)
  show "unat ((offset + of_nat len + 511) div 512) - unat (offset div 512) = sectors offset len"
    by (simp add: unat_div sum total)
  have "(unat offset + len + 511) div 512 \<le> 0x800000" using assms by simp
  then show "unat (offset div 512) + sectors offset len \<le> 0x800000" by (simp add: unat_div total)
  show "unat (offset div 512) * 512 + unat (offset mod 512) = unat offset" by (simp add: unat_div unat_mod)
  show "unat (offset mod 512) = unat offset mod 512" by (simp add: unat_mod)
qed (use assms in \<open>intro unat_of_nat_small, simp\<close>)

lemma read_bytes_ok:
  assumes "disk_ok d" "unat offset + length buffer + 511 < 2 ^ 32"
    "unat (da_global_age d) + sectors offset (length buffer) < 2 ^ 32"
  shows "\<exists>d'. read_bytes_from_disk d offset buffer =
      Some (d', get_bytes (disk_view {} d) (unat offset) (length buffer), of_nat (length buffer)) \<and>
    same_view (sectors offset (length buffer)) d d'"
proof -
  note b = sector_bounds [OF assms(2)]
  show ?thesis
    using read_loop_ok [OF assms(1), of "sectors offset (length buffer)" "offset mod 512" "of_nat (length buffer)" 0
        buffer "offset div 512"] b assms(2,3)
    by (simp add: read_bytes_from_disk_def Let_def sectors_def)
qed

lemma put_bytes_Nil [simp]: "put_bytes p [] m = m"
  by (auto simp: put_bytes_def fun_eq_iff)

lemma put_bytes_append: "put_bytes (p + length xs) ys (put_bytes p xs m) = put_bytes p (xs @ ys) m"
  by (auto simp: put_bytes_def fun_eq_iff nth_append)

lemma write_slot:
  assumes ok: "disk_ok d" and s: "s < length (da_cache_entries d)" "unat (slot_lba d s) < 0x800000"
    and xs: "o' + length xs \<le> 512"
    and d': "d' = d\<lparr>da_cache_entries := (da_cache_entries d)[s := (da_cache_entries d ! s)\<lparr>ce_dirty := True\<rparr>],
      da_buffer := put_bytes (s * 512 + o') xs (da_buffer d)\<rparr>"
  shows "disk_ok d'" "disk_view {} d' = put_bytes (unat (slot_lba d s) * 512 + o') xs (disk_view {} d)"
proof -
  have inv: "disk_inv {} d" using ok by (simp add: disk_ok_def)
  have ent: "da_cache_entries d' ! t = (if t = s then (da_cache_entries d ! s)\<lparr>ce_dirty := True\<rparr> else da_cache_entries d ! t)" for t
    using s(1) by (simp add: d' nth_list_update)
  have lba: "slot_lba d' = slot_lba d" by (simp add: slot_lba_def ent fun_eq_iff)
  have same: "length (da_cache_entries d') = length (da_cache_entries d)" "da_disk_io d' = da_disk_io d"
      "da_hash_table d' = da_hash_table d" "get_max_cache_entries d' = get_max_cache_entries d"
      "da_global_age d' = da_global_age d"
    by (simp_all add: d' get_max_cache_entries_def)
  have buf: "da_buffer d' (t * 512 + j) =
      (if t = s then put_bytes o' xs (\<lambda>j. da_buffer d (s * 512 + j)) j else da_buffer d (t * 512 + j))" if "j < 512" for t j
  proof (cases "t = s")
    case True
    then show ?thesis by (simp add: d' put_bytes_def)
  next
    case False
    then have "t * 512 + 512 \<le> s * 512 \<or> s * 512 + 512 \<le> t * 512" by linarith
    then show ?thesis using False that xs by (auto simp: d' put_bytes_def)
  qed
  have "slot_ok {} d' t" if "t < length (da_cache_entries d)" for t
    using disk_invD(7) [OF inv that] s(2) buf by (auto simp: slot_ok_def lba ent same split: if_splits)
  then have inv': "disk_inv {} d'" using inv by (simp add: disk_inv_def lba same)
  then show "disk_ok d'" using ok by (simp add: disk_ok_def same ent)
  have holds: "holds {} d' = holds {} d" by (simp add: holds_def [abs_def] lba same)
  let ?p = "unat (slot_lba d s) * 512"
  have "disk_view {} d' x = put_bytes (?p + o') xs (disk_view {} d) x" for x
  proof (cases "\<exists>t. holds {} d x t")
    case True
    then obtain t where t: "holds {} d x t" by blast
    have v: "disk_view {} d' x = da_buffer d' (t * 512 + x mod 512)" "disk_view {} d x = da_buffer d (t * 512 + x mod 512)"
      using view_cached disk_invD(2) [OF inv] disk_invD(2) [OF inv'] t holds by metis+
    show ?thesis
    proof (cases "t = s")
      case True
      then have "x = ?p + x mod 512" using t by (simp add: holds_def)
      then obtain j where "x = ?p + j" "j < 512" by (metis mod_less_divisor zero_less_numeral)
      then show ?thesis using v buf [of "x mod 512" t] True by (auto simp: put_bytes_def)
    next
      case False
      then have "x div 512 \<noteq> unat (slot_lba d s)"
        using view_unique [OF disk_invD(2) [OF inv] t] s(1) by (auto simp: holds_def)
      then have "\<not> (?p \<le> x \<and> x < ?p + 512)" unfolding sector_range .
      then show ?thesis using v buf [of "x mod 512" t] False xs by (auto simp: put_bytes_def)
    qed
  next
    case False
    then have "x div 512 \<noteq> unat (slot_lba d s)" using s(1) by (auto simp: holds_def)
    then have "\<not> (?p \<le> x \<and> x < ?p + 512)" unfolding sector_range .
    then show ?thesis using False xs by (auto simp: put_bytes_def view_uncached holds same)
  qed
  then show "disk_view {} d' = put_bytes (?p + o') xs (disk_view {} d)" by blast
qed

definition written :: "nat \<Rightarrow> nat \<Rightarrow> u8 list \<Rightarrow> disk_access \<Rightarrow> disk_access \<Rightarrow> bool" where
  "written k p xs d d' \<longleftrightarrow> disk_ok d' \<and> disk_view {} d' = put_bytes p xs (disk_view {} d) \<and>
     unat (da_global_age d') = unat (da_global_age d) + k \<and> da_buffer_size d' = da_buffer_size d"

lemma write_loop_ok:
  assumes "disk_ok d" "n = (unat so + (length data - w) + 511) div 512" "unat so < 512" "w \<le> length data"
    "unat sector + n \<le> 0x800000" "unat (da_global_age d) + n < 2 ^ 32"
  shows "\<exists>d'. write_loop n sector so w data d = Some d' \<and>
    written n (unat sector * 512 + unat so) (drop w data) d d'"
  using assms
proof (induction n arbitrary: sector so w d)
  case 0
  then have "drop w data = []" by simp
  then show ?case using 0 by (simp add: written_def)
next
  case (Suc n)
  obtain d1 s where c: "cache_sector d sector = Some (d1, s)" "same_view 1 d d1"
      "s < length (da_cache_entries d1)" "slot_lba d1 s = sector"
    using cache_sector_ok [OF Suc.prems(1), of sector] Suc.prems(5,6) by auto
  have ok1: "disk_ok d1" "disk_view {} d1 = disk_view {} d" "unat (da_global_age d1) = unat (da_global_age d) + 1"
      "da_buffer_size d1 = da_buffer_size d"
    using c(2) by (simp_all add: same_view_def)
  define k where "k = min (length data - w) (unat (512 - so))"
  have k: "k = min (length data - w) (512 - unat so)" using Suc.prems(3) by (simp add: k_def unat_to_sector_end)
  define xs where "xs = take k (drop w data)"
  have xs: "length xs = k" "unat so + length xs \<le> 512" "unat so + k \<le> 512" using k Suc.prems(3) by (simp_all add: xs_def)
  define d2 where "d2 = d1\<lparr>da_cache_entries := (da_cache_entries d1)[s := (da_cache_entries d1 ! s)\<lparr>ce_dirty := True\<rparr>],
      da_buffer := put_bytes (s * 512 + unat so) xs (da_buffer d1)\<rparr>"
  have small: "unat (slot_lba d1 s) < 0x800000" using c(4) Suc.prems(5) by simp
  note d2 = write_slot [OF ok1(1) c(3) small xs(2) d2_def]
  have u: "unat (sector + 1) = unat sector + 1" using Suc.prems(5) by (simp add: unat_add_small)
  have n: "n = (unat (0 :: u32) + (length data - (w + k)) + 511) div 512"
    using sector_step [OF Suc.prems(2,3)] k by simp
  have side: "unat (0 :: u32) < 512" "w + k \<le> length data" "unat (sector + 1) + n \<le> 0x800000"
      "unat (da_global_age d2) + n < 2 ^ 32"
    using k u Suc.prems(4,5,6) ok1(3) by (simp_all add: d2_def)
  obtain d3 where d3: "write_loop n (sector + 1) 0 (w + k) data d2 = Some d3"
      "written n (unat (sector + 1) * 512 + unat (0 :: u32)) (drop (w + k) data) d2 d3"
    using Suc.IH [OF d2(1) n side] by blast
  have "put_bytes (unat (sector + 1) * 512) (drop (w + k) data)
      (put_bytes (unat sector * 512 + unat so) xs (disk_view {} d)) =
      put_bytes (unat sector * 512 + unat so) (drop w data) (disk_view {} d)"
  proof (cases "drop (w + k) data = []")
    case True
    then have "xs = drop w data" by (simp add: xs_def)
    then show ?thesis using True by simp
  next
    case False
    then have "unat (sector + 1) * 512 = unat sector * 512 + unat so + length xs"
      using k u xs Suc.prems(3) by simp
    moreover have "xs @ drop (w + k) data = drop w data" by (simp add: xs_def add.commute flip: drop_drop)
    ultimately show ?thesis by (simp add: put_bytes_append)
  qed
  then have "written (Suc n) (unat sector * 512 + unat so) (drop w data) d d3"
    using d3(2) d2(2) c(4) ok1 by (simp add: written_def d2_def)
  moreover have "write_loop (Suc n) sector so w data d = Some d3"
    using c(1) d3(1) slot_in_range [OF ok1(1) c(3) xs(3)] by (simp add: Let_def k_def [symmetric] xs_def [symmetric] d2_def)
  ultimately show ?case by blast
qed

lemma write_bytes_ok:
  assumes "disk_ok d" "unat offset + length data + 511 < 2 ^ 32"
    "unat (da_global_age d) + sectors offset (length data) < 2 ^ 32"
  shows "\<exists>d'. write_bytes_to_disk d offset data = Some d' \<and>
    written (sectors offset (length data)) (unat offset) data d d'"
proof -
  note b = sector_bounds [OF assms(2)]
  show ?thesis
    using write_loop_ok [OF assms(1), of "sectors offset (length data)" "offset mod 512" data 0 "offset div 512"] b assms(3)
    by (simp add: write_bytes_to_disk_def Let_def sectors_def)
qed

lemma flush_loop_ok:
  assumes "disk_ok d" "set idxs \<subseteq> {..<length (da_cache_entries d)}"
  shows "\<exists>d'. flush_loop idxs d = Some d' \<and> same_view 0 d d' \<and>
    length (da_cache_entries d') = length (da_cache_entries d) \<and>
    (\<forall>t < length (da_cache_entries d). ce_dirty (da_cache_entries d' ! t) \<longrightarrow> ce_dirty (da_cache_entries d ! t) \<and> t \<notin> set idxs)"
  using assms
proof (induction idxs arbitrary: d)
  case Nil
  then show ?case by (simp add: same_view_def)
next
  case (Cons s idxs)
  have inv: "disk_inv {} d" and s: "s < length (da_cache_entries d)" using Cons.prems by (auto simp: disk_ok_def)
  obtain disk' where wb: "write_back d s = Some (d\<lparr>da_disk_io := disk'\<rparr>)" and
    disk': "\<And>x. disk' x = (if x div 512 = unat (slot_lba d s) then disk_view {} d x else da_disk_io d x)"
    using write_back_ok [OF inv s] by blast
  let ?d1 = "d\<lparr>da_disk_io := disk'\<rparr>"
  have d1: "disk_inv {} ?d1" "disk_view {} ?d1 = disk_view {} d" using disk' by (intro disk_update [OF inv]; simp)+
  define d2 where "d2 = ?d1\<lparr>da_cache_entries := (da_cache_entries d)[s := (da_cache_entries d ! s)\<lparr>ce_dirty := False\<rparr>]\<rparr>"
  have ent: "da_cache_entries d2 ! t = (if t = s then (da_cache_entries d ! s)\<lparr>ce_dirty := False\<rparr> else da_cache_entries d ! t)" for t
    using s by (simp add: d2_def nth_list_update)
  have same: "length (da_cache_entries d2) = length (da_cache_entries d)" "da_disk_io d2 = disk'" "da_buffer d2 = da_buffer d"
      "da_hash_table d2 = da_hash_table d" "get_max_cache_entries d2 = get_max_cache_entries d"
      "da_global_age d2 = da_global_age d" "da_buffer_size d2 = da_buffer_size d"
    by (simp_all add: d2_def get_max_cache_entries_def)
  have lba: "slot_lba d2 = slot_lba d" "slot_lba ?d1 = slot_lba d" by (simp_all add: slot_lba_def ent fun_eq_iff)
  have "da_buffer d (s * 512 + j) = disk' (unat (slot_lba d s) * 512 + j)" if "j < 512" for j
    using view_cached [OF disk_invD(2) [OF inv], of "{}" "unat (slot_lba d s) * 512 + j" s] s that disk'
    by (simp add: holds_def)
  then have "slot_ok {} d2 t" if "t < length (da_cache_entries d)" for t
    using disk_invD(7) [OF d1(1), of t] that by (auto simp: slot_ok_def ent same lba split: if_splits)
  then have inv2: "disk_inv {} d2" using inv by (simp add: disk_inv_def lba same)
  then have ok2: "disk_ok d2" using Cons.prems(1) by (simp add: disk_ok_def same ent)
  have "holds {} d2 = holds {} ?d1" by (simp add: holds_def [abs_def] lba same)
  then have view2: "disk_view {} d2 = disk_view {} d"
    unfolding d1(2) [symmetric] by (intro ext) (simp add: disk_view_def same split: option.split)
  obtain d3 where d3: "flush_loop idxs d2 = Some d3" "same_view 0 d2 d3"
      "length (da_cache_entries d3) = length (da_cache_entries d2)"
      "\<forall>t < length (da_cache_entries d2). ce_dirty (da_cache_entries d3 ! t) \<longrightarrow> ce_dirty (da_cache_entries d2 ! t) \<and> t \<notin> set idxs"
    using Cons.IH [OF ok2] Cons.prems(2) same(1) by auto
  have "flush_loop (s # idxs) d = Some d3" using wb d3(1) by (simp add: d2_def)
  moreover have "same_view 0 d d3" using d3(2) view2 by (simp add: same_view_def same)
  moreover have "\<forall>t < length (da_cache_entries d). ce_dirty (da_cache_entries d3 ! t) \<longrightarrow>
      ce_dirty (da_cache_entries d ! t) \<and> t \<notin> set (s # idxs)"
    using d3(4) by (auto simp: same ent split: if_splits)
  ultimately show ?case using d3(3) same(1) by auto
qed

lemma flush_all_ok:
  assumes "disk_ok d"
  shows "\<exists>d'. flush_all d = Some d' \<and> same_view 0 d d' \<and> da_disk_io d' = disk_view {} d"
proof -
  obtain d' where d': "flush_all d = Some d'" "same_view 0 d d'"
      "length (da_cache_entries d') = length (da_cache_entries d)"
      "\<forall>t < length (da_cache_entries d'). \<not> ce_dirty (da_cache_entries d' ! t)"
    using flush_loop_ok [OF assms, of "[0..<length (da_cache_entries d)]"] by (auto simp: flush_all_def atLeast0LessThan)
  have inv: "disk_inv {} d'" using d'(2) by (simp add: same_view_def disk_ok_def)
  have "disk_view {} d' x = da_disk_io d' x" for x
  proof (cases "\<exists>s. holds {} d' x s")
    case True
    then show ?thesis using view_clean_slot [OF inv] d'(4) by (auto simp: holds_def)
  next
    case False
    then show ?thesis by (simp add: view_uncached)
  qed
  then show ?thesis using d'(1,2) by (auto simp: same_view_def)
qed

lemma hash_ok_empty: "hash_ok key {} (replicate HASH_TABLE_SIZE HASH_EMPTY)"
  by (auto simp: hash_ok_def slots_in_def one_cell_each_def)

lemma disk_access_new_ok:
  assumes "0x2000 \<le> sz" "sz \<le> 0x1F000"
  shows "disk_ok (disk_access_new disk sz)" "disk_view {} (disk_access_new disk sz) = disk"
proof -
  let ?d = "disk_access_new disk sz"
  have "get_max_cache_entries ?d = ((sz + 0x2FFF) div 0x1000 * 0x1000 - 0x2000) div 512"
    by (simp add: disk_access_new_def get_max_cache_entries_def STAGING_SIZE_def READAHEAD_SECTORS_def add.commute)
  moreover have "4 \<le> (sz + 0x2FFF) div 0x1000" "(sz + 0x2FFF) div 0x1000 \<le> 33" using assms by linarith+
  ultimately have "16 \<le> get_max_cache_entries ?d" "get_max_cache_entries ?d < 256" by linarith+
  then show "disk_ok ?d"
    using hash_ok_empty by (simp add: disk_ok_def disk_inv_def disk_access_new_def READAHEAD_SECTORS_def HASH_TABLE_SIZE_def)
  show "disk_view {} ?d = disk" by (intro ext) (simp add: disk_view_def disk_access_new_def)
qed

section \<open>The interface of the cache\<close>

text \<open>
  What the rest of the driver relies on: a byte array behind reads and writes. \<open>ok k\<close> holds when the disk is well
  formed and \<open>k\<close> more sectors can be accessed before the counter of accesses wraps.
\<close>

locale byte_disk =
  fixes rd :: "'d \<Rightarrow> u32 \<Rightarrow> u8 list \<Rightarrow> ('d \<times> u8 list \<times> u32) option"
    and wr :: "'d \<Rightarrow> u32 \<Rightarrow> u8 list \<Rightarrow> 'd option"
    and ok :: "nat \<Rightarrow> 'd \<Rightarrow> bool"
    and view :: "'d \<Rightarrow> nat \<Rightarrow> u8"
  assumes rd_view: "ok (sectors off (length buf) + k) d \<Longrightarrow> unat off + length buf + 511 < 2 ^ 32 \<Longrightarrow>
      \<exists>d'. rd d off buf = Some (d', get_bytes (view d) (unat off) (length buf), of_nat (length buf)) \<and>
        ok k d' \<and> view d' = view d"
    and wr_view: "ok (sectors off (length xs) + k) d \<Longrightarrow> unat off + length xs + 511 < 2 ^ 32 \<Longrightarrow>
      \<exists>d'. wr d off xs = Some d' \<and> ok k d' \<and> view d' = put_bytes (unat off) xs (view d)"
    and ok_mono: "ok k d \<Longrightarrow> j \<le> k \<Longrightarrow> ok j d"
begin

lemma get_put_same: "get_bytes (put_bytes p xs m) p (length xs) = xs"
  by (rule nth_equalityI) (simp_all add: put_bytes_def)

lemma read_back:
  assumes "ok (2 * sectors off (length xs) + k) d" "unat off + length xs + 511 < 2 ^ 32" "length buf = length xs"
  shows "\<exists>d' d''. wr d off xs = Some d' \<and> rd d' off buf = Some (d'', xs, of_nat (length xs)) \<and> ok k d''"
proof -
  obtain d' where d': "wr d off xs = Some d'" "ok (sectors off (length xs) + k) d'"
      "view d' = put_bytes (unat off) xs (view d)"
    using wr_view [of off xs "sectors off (length xs) + k" d] assms(1,2) by (auto simp: mult_2 add.assoc)
  then obtain d'' where "rd d' off buf = Some (d'', get_bytes (view d') (unat off) (length buf), of_nat (length buf))" "ok k d''"
    using rd_view [of off buf k d'] assms(2,3) by auto
  then show ?thesis using d' assms(3) get_put_same by auto
qed

text \<open>A read, a change of the bytes read and a write of as many bytes, as the driver updates its tables.\<close>

lemma read_modify_write:
  assumes "ok (2 * sectors off n + k) d" "unat off + n + 511 < 2 ^ 32"
    "length buf = n" "\<And>bs. length bs = n \<Longrightarrow> length (f bs) = n"
  shows "\<exists>d' d''. rd d off buf = Some (d', get_bytes (view d) (unat off) n, of_nat n) \<and>
    wr d' off (f (get_bytes (view d) (unat off) n)) = Some d'' \<and> ok k d'' \<and>
    view d'' = put_bytes (unat off) (f (get_bytes (view d) (unat off) n)) (view d)"
proof -
  obtain d' where d': "rd d off buf = Some (d', get_bytes (view d) (unat off) n, of_nat n)"
      "ok (sectors off n + k) d'" "view d' = view d"
    using rd_view [of off buf "sectors off n + k" d] assms(1-3) by (auto simp: mult_2 add.assoc)
  then show ?thesis
    using wr_view [of off "f (get_bytes (view d) (unat off) n)" k d'] assms(2,4) by auto
qed

end

definition disk_ready :: "nat \<Rightarrow> disk_access \<Rightarrow> bool" where
  "disk_ready k d \<longleftrightarrow> disk_ok d \<and> unat (da_global_age d) + k < 2 ^ 32"

interpretation cached: byte_disk read_bytes_from_disk write_bytes_to_disk disk_ready "disk_view {}"
proof
  fix off :: u32 and buf :: "u8 list" and k d
  assume "disk_ready (sectors off (length buf) + k) d" "unat off + length buf + 511 < 2 ^ 32"
  then show "\<exists>d'. read_bytes_from_disk d off buf =
      Some (d', get_bytes (disk_view {} d) (unat off) (length buf), of_nat (length buf)) \<and>
      disk_ready k d' \<and> disk_view {} d' = disk_view {} d"
    using read_bytes_ok [of d off buf] by (auto simp: disk_ready_def same_view_def)
next
  fix off :: u32 and xs :: "u8 list" and k d
  assume "disk_ready (sectors off (length xs) + k) d" "unat off + length xs + 511 < 2 ^ 32"
  then show "\<exists>d'. write_bytes_to_disk d off xs = Some d' \<and> disk_ready k d' \<and>
      disk_view {} d' = put_bytes (unat off) xs (disk_view {} d)"
    using write_bytes_ok [of d off xs] by (auto simp: disk_ready_def written_def)
next
  fix k d j
  show "disk_ready k d \<Longrightarrow> j \<le> k \<Longrightarrow> disk_ready j d" by (simp add: disk_ready_def)
qed

section \<open>The cached disk is a byte array\<close>

datatype disk_op = Disk_Read u32 nat | Disk_Write u32 "u8 list" | Disk_Flush

fun op_sectors :: "disk_op \<Rightarrow> nat" where
  "op_sectors (Disk_Read off n) = sectors off n"
| "op_sectors (Disk_Write off xs) = sectors off (length xs)"
| "op_sectors Disk_Flush = 0"

fun op_in_range :: "disk_op \<Rightarrow> bool" where
  "op_in_range (Disk_Read off n) \<longleftrightarrow> unat off + n + 511 < 2 ^ 32"
| "op_in_range (Disk_Write off xs) \<longleftrightarrow> unat off + length xs + 511 < 2 ^ 32"
| "op_in_range Disk_Flush \<longleftrightarrow> True"

text \<open>A sequence of operations on the cache, with the bytes each of them read, and on an array of bytes.\<close>

fun disk_run :: "disk_op list \<Rightarrow> disk_access \<Rightarrow> (u8 list list \<times> disk_access) option" where
  "disk_run [] d = Some ([], d)"
| "disk_run (Disk_Read off n # ops) d = do {
     (d, bs, _) \<leftarrow> read_bytes_from_disk d off (replicate n 0);
     (out, d) \<leftarrow> disk_run ops d;
     Some (bs # out, d)
   }"
| "disk_run (Disk_Write off xs # ops) d = do {
     d \<leftarrow> write_bytes_to_disk d off xs;
     (out, d) \<leftarrow> disk_run ops d;
     Some ([] # out, d)
   }"
| "disk_run (Disk_Flush # ops) d = do {
     d \<leftarrow> flush_all d;
     (out, d) \<leftarrow> disk_run ops d;
     Some ([] # out, d)
   }"

fun array_run :: "disk_op list \<Rightarrow> (nat \<Rightarrow> u8) \<Rightarrow> u8 list list \<times> (nat \<Rightarrow> u8)" where
  "array_run [] m = ([], m)"
| "array_run (Disk_Read off n # ops) m = (let (out, m') = array_run ops m in (get_bytes m (unat off) n # out, m'))"
| "array_run (Disk_Write off xs # ops) m = (let (out, m') = array_run ops (put_bytes (unat off) xs m) in ([] # out, m'))"
| "array_run (Disk_Flush # ops) m = (let (out, m') = array_run ops m in ([] # out, m'))"

lemma flush_ready:
  "disk_ready k d \<Longrightarrow> \<exists>d'. flush_all d = Some d' \<and> disk_ready k d' \<and> disk_view {} d' = disk_view {} d"
  using flush_all_ok [of d] by (auto simp: disk_ready_def same_view_def)

lemma disk_run_view:
  assumes "disk_ready (sum_list (map op_sectors ops)) d" "list_all op_in_range ops"
  shows "\<exists>d'. disk_run ops d = Some (fst (array_run ops (disk_view {} d)), d') \<and> disk_ok d' \<and>
    disk_view {} d' = snd (array_run ops (disk_view {} d))"
  using assms
proof (induction ops arbitrary: d)
  case Nil
  then show ?case by (simp add: disk_ready_def)
next
  case (Cons op ops)
  show ?case
  proof (cases op)
    case (Disk_Read off n)
    obtain d' where "read_bytes_from_disk d off (replicate n 0) = Some (d', get_bytes (disk_view {} d) (unat off) n, of_nat n)"
        "disk_ready (sum_list (map op_sectors ops)) d'" "disk_view {} d' = disk_view {} d"
      using cached.rd_view [of off "replicate n 0" "sum_list (map op_sectors ops)" d] Cons.prems Disk_Read by auto
    then show ?thesis using Cons.IH [of d'] Cons.prems(2) Disk_Read by (auto split: prod.splits)
  next
    case (Disk_Write off xs)
    obtain d' where "write_bytes_to_disk d off xs = Some d'" "disk_ready (sum_list (map op_sectors ops)) d'"
        "disk_view {} d' = put_bytes (unat off) xs (disk_view {} d)"
      using cached.wr_view [of off xs "sum_list (map op_sectors ops)" d] Cons.prems Disk_Write by auto
    then show ?thesis using Cons.IH [of d'] Cons.prems(2) Disk_Write by (auto split: prod.splits)
  next
    case Disk_Flush
    obtain d' where "flush_all d = Some d'" "disk_ready (sum_list (map op_sectors ops)) d'" "disk_view {} d' = disk_view {} d"
      using flush_ready [of "sum_list (map op_sectors ops)" d] Cons.prems Disk_Flush by auto
    then show ?thesis using Cons.IH [of d'] Cons.prems(2) Disk_Flush by (auto split: prod.splits)
  qed
qed

text \<open>
  (C1) The cached disk is a byte array. Starting from a new cache of the size the driver uses, any sequence of
  reads, writes and flushes within the 32-bit offsets returns without a panic, each read returns exactly
  the bytes an array of bytes would hold at that moment, and a final flush leaves that array on the device,
  whatever has been read ahead, hit or evicted meanwhile. The sequence accesses fewer than \<open>2 ^ 32\<close> sectors.
\<close>

theorem cached_disk_is_byte_array:
  assumes "list_all op_in_range ops" "sum_list (map op_sectors ops) < 2 ^ 32"
  shows "\<exists>d d'. disk_run ops (disk_access_new disk 65536) = Some (fst (array_run ops disk), d) \<and>
    flush_all d = Some d' \<and> da_disk_io d' = snd (array_run ops disk)"
proof -
  have ready: "disk_ready (sum_list (map op_sectors ops)) (disk_access_new disk 65536)"
    using disk_access_new_ok(1) [of 65536 disk] assms(2) by (simp add: disk_ready_def disk_access_new_def)
  obtain d where d: "disk_run ops (disk_access_new disk 65536) = Some (fst (array_run ops disk), d)" "disk_ok d"
      "disk_view {} d = snd (array_run ops disk)"
    using disk_run_view [OF ready assms(1)] disk_access_new_ok(2) [of 65536 disk] by auto
  then show ?thesis using flush_all_ok [OF d(2)] by auto
qed

theorem cached_disk_is_byte_array_witness:
  "\<exists>d d'. disk_run [Disk_Write 510 [1, 2, 3, 4], Disk_Read 511 3, Disk_Flush] (disk_access_new (\<lambda>_. 7) 65536) =
     Some ([[], [2, 3, 4], []], d) \<and> flush_all d = Some d' \<and> da_disk_io d' 512 = 3 \<and> da_disk_io d' 514 = 7"
proof -
  let ?ops = "[Disk_Write 510 [1, 2, 3, 4], Disk_Read 511 3, Disk_Flush]"
  have run: "fst (array_run ?ops (\<lambda>_. 7)) = [[], [2, 3, 4], []]"
    by (simp add: get_bytes_def put_bytes_def upt_rec)
  have at: "snd (array_run ?ops (\<lambda>_. 7)) 512 = 3" "snd (array_run ?ops (\<lambda>_. 7)) 514 = 7"
    by (simp_all add: put_bytes_def)
  have "\<exists>d d'. disk_run ?ops (disk_access_new (\<lambda>_. 7) 65536) = Some (fst (array_run ?ops (\<lambda>_. 7)), d) \<and>
    flush_all d = Some d' \<and> da_disk_io d' = snd (array_run ?ops (\<lambda>_. 7))"
    by (rule cached_disk_is_byte_array) (simp_all add: sectors_def)
  then show ?thesis using at unfolding run by metis
qed

text \<open>
  A cache of the driver's size whose 128 slots hold the sectors 2 to 129, each used once, after
  \<open>2 ^ 32 - 1\<close> accesses.
\<close>

definition aged_cache :: "disk_access" where
  "aged_cache = (disk_access_new (\<lambda>_. 0) 65536)
     \<lparr>da_cache_entries := map (\<lambda>i. \<lparr>ce_lba = of_nat (i + 2), ce_last_access = 1, ce_dirty = False\<rparr>) [0..<128],
      da_hash_table := fold (\<lambda>i tbl. hash_insert tbl (of_nat (i + 2)) i) [0..<128] (replicate HASH_TABLE_SIZE HASH_EMPTY),
      da_global_age := 0xFFFFFFFF\<rparr>"

lemma aged_cache_entries:
  "length (da_cache_entries aged_cache) = 128"
  "t < 128 \<Longrightarrow> da_cache_entries aged_cache ! t = \<lparr>ce_lba = of_nat (t + 2), ce_last_access = 1, ce_dirty = False\<rparr>"
  by (simp_all add: aged_cache_def)

lemma aged_table_ok:
  assumes "n \<le> 128" "\<And>t. t < 128 \<Longrightarrow> key t = of_nat (t + 2)"
  shows "hash_ok key {..<n} (fold (\<lambda>i tbl. hash_insert tbl (of_nat (i + 2)) i) [0..<n] (replicate HASH_TABLE_SIZE HASH_EMPTY))"
  using assms(1)
proof (induction n)
  case 0
  then show ?case by (simp add: hash_ok_empty)
next
  case (Suc n)
  have "hash_ok key (insert n {..<n}) (hash_insert (fold (\<lambda>i tbl. hash_insert tbl (of_nat (i + 2)) i) [0..<n]
      (replicate HASH_TABLE_SIZE HASH_EMPTY)) (of_nat (n + 2)) n)"
    using Suc.prems assms(2) by (intro hash_insert_ok [OF Suc.IH]) (simp_all add: HASH_TABLE_SIZE_def)
  then show ?case by (simp add: lessThan_Suc)
qed

lemma aged_cache_inv: "disk_inv {} (aged_cache\<lparr>da_global_age := 0\<rparr>)"
proof -
  let ?d = "aged_cache\<lparr>da_global_age := 0\<rparr>"
  have lba: "slot_lba ?d t = of_nat (t + 2)" if "t < 128" for t
    using that by (simp add: slot_lba_def aged_cache_entries)
  have "hash_ok (slot_lba ?d) {..<128} (da_hash_table ?d)"
    using aged_table_ok [of 128 "slot_lba ?d"] lba by (simp add: aged_cache_def)
  moreover have "inj_on (slot_lba ?d) {..<128}"
    by (rule inj_onI) (simp add: lba of_nat_small_inj del: of_nat_add)
  moreover have "slot_ok {} ?d t" if "t < 128" for t
    using that by (simp add: slot_ok_def aged_cache_entries) (simp add: aged_cache_def disk_access_new_def)
  moreover have "get_max_cache_entries ?d = 128"
    by (simp add: get_max_cache_entries_def aged_cache_def disk_access_new_def STAGING_SIZE_def READAHEAD_SECTORS_def)
  ultimately show ?thesis
    by (simp add: disk_inv_def aged_cache_entries READAHEAD_SECTORS_def HASH_TABLE_SIZE_def)
qed

lemma aged_sector_other: "t < 128 \<Longrightarrow> (of_nat (t + 2) :: u32) \<noteq> 0 \<and> (of_nat (t + 2) :: u32) \<noteq> 1"
proof -
  assume t: "t < 128"
  have "(of_nat (t + 2) :: u32) = of_nat 0 \<longleftrightarrow> t + 2 = 0" "(of_nat (t + 2) :: u32) = of_nat 1 \<longleftrightarrow> t + 2 = 1"
    using t by (intro of_nat_small_inj; simp)+
  moreover have "t + 2 \<noteq> 0" "t + 2 \<noteq> 1" by simp_all
  ultimately show ?thesis unfolding semiring_1_class.of_nat_0 of_nat_1 by blast
qed


end
