(* ===== verification/Fat_Table.thy ===== *)
theory Fat_Table
  imports Fat_Disk Byte_Order
begin

text \<open>
  The file allocation table of the FAT driver: the parameter block of the volume
  (\<^verbatim>\<open>components/drivers/fatdriver/src/bpb.rs\<close>) and \<^verbatim>\<open>AllocationTable\<close>
  (\<^verbatim>\<open>components/drivers/fatdriver/src/table.rs\<close>), which packs two 12-bit entries into three bytes and keeps
  several copies of the table on the disk.

  A table is seen as a function from clusters to entries, read off the bytes of one copy; writing an entry
  updates that function at one cluster in every copy. Walking, extending and freeing a chain of clusters is
  stated on these functions. The loop of \<^verbatim>\<open>free_chain\<close> has no bound in the source, so it is a partial
  function: not returning is \<open>None\<close>.
\<close>

section \<open>The parameter block\<close>

record bios_param_block =
  bytes_per_sector :: u16
  sectors_per_cluster :: u8
  reserved_sectors :: u16
  fat_count :: u8
  root_directory_entries :: u16
  total_sectors :: u16
  media_descriptor :: u8
  sectors_per_fat :: u16

definition first_root_directory_sector :: "bios_param_block \<Rightarrow> u32" where
  "first_root_directory_sector bpb =
     (let fat_sectors = ucast (fat_count bpb) * ucast (sectors_per_fat bpb)
      in ucast (reserved_sectors bpb) + fat_sectors)"

definition root_directory_size :: "bios_param_block \<Rightarrow> u32" where
  "root_directory_size bpb = ucast (root_directory_entries bpb) * 32"

text \<open>\<^verbatim>\<open>read_struct_from_disk\<close> into the packed structure of 13 bytes.\<close>

fun bpb_of_bytes :: "u8 list \<Rightarrow> bios_param_block option" where
  "bpb_of_bytes [b0, b1, b2, b3, b4, b5, b6, b7, b8, b9, b10, b11, b12] =
     Some \<lparr>bytes_per_sector = le16 b0 b1, sectors_per_cluster = b2, reserved_sectors = le16 b3 b4, fat_count = b5,
           root_directory_entries = le16 b6 b7, total_sectors = le16 b8 b9, media_descriptor = b10,
           sectors_per_fat = le16 b11 b12\<rparr>"
| "bpb_of_bytes _ = None"

section \<open>The table\<close>

record allocation_table =
  at_table_start :: u32
  at_sectors_per_cluster :: u32
  at_bytes_per_fat :: u32
  at_fat_count :: u32
  at_first_cluster_location :: u32

definition from_bpb :: "bios_param_block \<Rightarrow> allocation_table" where
  "from_bpb bpb =
     \<lparr>at_table_start = ucast (reserved_sectors bpb) * 512,
      at_sectors_per_cluster = ucast (sectors_per_cluster bpb),
      at_bytes_per_fat = ucast (sectors_per_fat bpb) * 512,
      at_fat_count = ucast (fat_count bpb),
      at_first_cluster_location = first_root_directory_sector bpb * 512 + root_directory_size bpb\<rparr>"

definition bytes_per_cluster :: "allocation_table \<Rightarrow> u32" where
  "bytes_per_cluster t = at_sectors_per_cluster t * 512"

definition get_cluster_location :: "allocation_table \<Rightarrow> u32 \<Rightarrow> u32" where
  "get_cluster_location t cluster = at_first_cluster_location t + bytes_per_cluster t * (cluster - 2)"

text \<open>Three bytes as a 24-bit number, and back.\<close>

definition pair_value :: "u8 list \<Rightarrow> u32" where
  "pair_value bs = push_bit 16 (ucast (bs ! 2)) OR push_bit 8 (ucast (bs ! 1)) OR ucast (bs ! 0)"

definition pair_bytes :: "u32 \<Rightarrow> u8 list" where
  "pair_bytes v = [ucast (v AND 0xFF), ucast (drop_bit 8 v AND 0xFF), ucast (drop_bit 16 v AND 0xFF)]"

definition pair_offset :: "u32 \<Rightarrow> u32" where
  "pair_offset cluster = (cluster div 2) * 3"

definition pair_entry :: "u32 \<Rightarrow> u32 \<Rightarrow> u32" where
  "pair_entry cluster v = (if cluster AND 1 = 0 then v AND 0xfff else drop_bit 12 (v AND 0xfff000))"

definition set_pair_entry :: "u32 \<Rightarrow> u32 \<Rightarrow> u32 \<Rightarrow> u32" where
  "set_pair_entry cluster value v =
     (if cluster AND 1 = 0 then (v AND 0xFFF000) OR value else (v AND 0x000FFF) OR push_bit 12 value)"

definition get_next_cluster :: "allocation_table \<Rightarrow> u32 \<Rightarrow> disk_access \<Rightarrow> (disk_access \<times> u32 option) option" where
  "get_next_cluster t cluster disk = do {
     (disk, bytes, _) \<leftarrow> read_bytes_from_disk disk (at_table_start t + pair_offset cluster) [0, 0, 0];
     let next_cluster = pair_entry cluster (pair_value bytes);
     Some (disk, if next_cluster = 0xfff then None else Some next_cluster)
   }"

fun nth_cluster_loop :: "allocation_table \<Rightarrow> nat \<Rightarrow> u32 \<Rightarrow> disk_access \<Rightarrow> (disk_access \<times> u32 option) option" where
  "nth_cluster_loop t 0 current disk = Some (disk, Some current)"
| "nth_cluster_loop t (Suc n) current disk = do {
     (disk, nxt) \<leftarrow> get_next_cluster t current disk;
     (case nxt of None \<Rightarrow> Some (disk, None) | Some c \<Rightarrow> nth_cluster_loop t n c disk)
   }"

definition get_nth_cluster :: "allocation_table \<Rightarrow> u32 \<Rightarrow> u32 \<Rightarrow> disk_access \<Rightarrow> (disk_access \<times> u32 option) option" where
  "get_nth_cluster t first_cluster index disk = nth_cluster_loop t (unat index) first_cluster disk"

fun set_entry_loop :: "allocation_table \<Rightarrow> nat \<Rightarrow> u32 \<Rightarrow> u32 \<Rightarrow> u32 \<Rightarrow> disk_access \<Rightarrow> disk_access option" where
  "set_entry_loop t 0 fat_index cluster value disk = Some disk"
| "set_entry_loop t (Suc n) fat_index cluster value disk = do {
     let fat_start = at_table_start t + fat_index * at_bytes_per_fat t;
     (disk, bytes, _) \<leftarrow> read_bytes_from_disk disk (fat_start + pair_offset cluster) [0, 0, 0];
     disk \<leftarrow> write_bytes_to_disk disk (fat_start + pair_offset cluster)
               (pair_bytes (set_pair_entry cluster value (pair_value bytes)));
     set_entry_loop t n (fat_index + 1) cluster value disk
   }"

definition set_cluster_entry :: "allocation_table \<Rightarrow> u32 \<Rightarrow> u32 \<Rightarrow> disk_access \<Rightarrow> disk_access option" where
  "set_cluster_entry t cluster value disk =
     set_entry_loop t (unat (at_fat_count t)) 0 cluster (value AND 0xFFF) disk"

fun allocate_loop :: "allocation_table \<Rightarrow> nat \<Rightarrow> u32 \<Rightarrow> disk_access \<Rightarrow> (disk_access \<times> u32 option) option" where
  "allocate_loop t 0 cluster disk = Some (disk, None)"
| "allocate_loop t (Suc n) cluster disk = do {
     (disk, bytes, _) \<leftarrow> read_bytes_from_disk disk (at_table_start t + pair_offset cluster) [0, 0, 0];
     let v = pair_value bytes;
     let entry = (if cluster AND 1 = 0 then v AND 0xFFF else drop_bit 12 v AND 0xFFF);
     (if entry = 0 then do { disk \<leftarrow> set_cluster_entry t cluster 0xFFF disk; Some (disk, Some cluster) }
      else allocate_loop t n (cluster + 1) disk)
   }"

definition allocate_cluster :: "allocation_table \<Rightarrow> disk_access \<Rightarrow> (disk_access \<times> u32 option) option" where
  "allocate_cluster t disk = allocate_loop t (4085 - 2) 2 disk"

partial_function (option) free_chain :: "allocation_table \<Rightarrow> u32 \<Rightarrow> disk_access \<Rightarrow> disk_access option" where
  "free_chain t current disk =
     Option.bind (get_next_cluster t current disk) (\<lambda>p.
     Option.bind (set_cluster_entry t current 0 (fst p)) (\<lambda>disk.
       case snd p of Some n \<Rightarrow> free_chain t n disk | None \<Rightarrow> Some disk))"

declare free_chain.simps [code]

section \<open>Two entries in three bytes\<close>

lemma entry_masks:
  "bit (0xfff :: u32) n \<longleftrightarrow> n < 12" "bit (0xfff000 :: u32) n \<longleftrightarrow> 12 \<le> n \<and> n < 24" "bit (0xff :: u32) n \<longleftrightarrow> n < 8"
proof -
  have m: "(0xfff :: u32) = mask 12" "(0xff :: u32) = mask 8" "(0xfff000 :: u32) = push_bit 12 (mask 12)"
    by (simp_all add: mask_eq_exp_minus_1 push_bit_eq_mult)
  show "bit (0xfff :: u32) n \<longleftrightarrow> n < 12" unfolding m(1) by (auto simp: bit_mask_iff)
  show "bit (0xfff000 :: u32) n \<longleftrightarrow> 12 \<le> n \<and> n < 24"
    unfolding m(3) bit_push_bit_iff bit_mask_iff possible_bit_word by auto
  show "bit (0xff :: u32) n \<longleftrightarrow> n < 8" unfolding m(2) by (auto simp: bit_mask_iff)
qed

lemma entry_masks_int:
  "bit (0xfff :: int) n \<longleftrightarrow> n < 12" "bit (0xfff000 :: int) n \<longleftrightarrow> 12 \<le> n \<and> n < 24" "bit (0xff :: int) n \<longleftrightarrow> n < 8"
proof -
  have m: "(0xfff :: int) = mask 12" "(0xff :: int) = mask 8" "(0xfff000 :: int) = push_bit 12 (mask 12)"
    by (simp_all add: mask_eq_exp_minus_1 push_bit_eq_mult)
  show "bit (0xfff :: int) n \<longleftrightarrow> n < 12" unfolding m(1) by (auto simp: bit_mask_iff)
  show "bit (0xfff000 :: int) n \<longleftrightarrow> 12 \<le> n \<and> n < 24"
    unfolding m(3) bit_push_bit_iff bit_mask_iff by auto
  show "bit (0xff :: int) n \<longleftrightarrow> n < 8" unfolding m(2) by (auto simp: bit_mask_iff)
qed

lemmas entry_bits = entry_masks entry_masks_int bit_and_iff bit_or_iff bit_drop_bit_eq bit_push_bit_iff bit_ucast_iff

lemma pair_value_le32: "pair_value bs = le32 (bs ! 0) (bs ! 1) (bs ! 2) 0"
  by (rule bit_word_eqI) (auto simp: pair_value_def le32_def bit_or_iff bit_push_bit_iff bit_ucast_iff)

lemma bit_pair_value: "bit (pair_value (pair_bytes v)) n \<longleftrightarrow> n < 24 \<and> bit v n"
  by (auto simp: pair_value_le32 bit_le32 pair_bytes_def entry_bits numeral_2_eq_2)

lemma pair_value_small: "bit (pair_value bs) n \<Longrightarrow> n < 24"
  by (auto simp: pair_value_le32 bit_le32 split: if_splits)

lemma pair_entry_same:
  assumes "value AND 0xfff = value"
  shows "pair_entry c (pair_value (pair_bytes (set_pair_entry c value v))) = value"
proof -
  have v: "bit value n \<Longrightarrow> n < 12" for n
    using arg_cong [OF assms, of "\<lambda>w. bit w n"] by (simp add: bit_and_iff entry_masks)
  show ?thesis
    by (rule bit_word_eqI)
      (auto simp: pair_entry_def set_pair_entry_def bit_pair_value entry_bits dest: v)
qed

lemma pair_entry_other:
  assumes "value AND 0xfff = value" "(c AND 1 = 0) \<noteq> (c' AND 1 = 0)"
  shows "pair_entry c' (pair_value (pair_bytes (set_pair_entry c value (pair_value bs)))) = pair_entry c' (pair_value bs)"
proof -
  have v: "bit value n \<Longrightarrow> n < 12" for n
    using arg_cong [OF assms(1), of "\<lambda>w. bit w n"] by (simp add: bit_and_iff entry_masks)
  show ?thesis
    using assms(2) pair_value_small by (intro bit_word_eqI)
      (auto simp: pair_entry_def set_pair_entry_def bit_pair_value entry_bits dest: v)
qed

lemma pair_entry_12_bits: "pair_entry c v AND 0xfff = pair_entry c v"
  by (rule bit_word_eqI) (auto simp: pair_entry_def entry_bits)

lemma allocate_entry_eq: "(if c AND 1 = 0 then v AND 0xFFF else drop_bit 12 v AND 0xFFF) = pair_entry c v"
  by (auto simp: pair_entry_def intro!: bit_word_eqI simp: entry_bits)

section \<open>The table as a function\<close>

text \<open>\<open>fat_entry base m\<close> is the table stored at \<open>base\<close> of the bytes \<open>m\<close>.\<close>

definition fat_entry :: "nat \<Rightarrow> (nat \<Rightarrow> u8) \<Rightarrow> u32 \<Rightarrow> u32" where
  "fat_entry base m c = pair_entry c (pair_value (get_bytes m (base + unat (pair_offset c)) 3))"

definition fat_base :: "allocation_table \<Rightarrow> nat \<Rightarrow> nat" where
  "fat_base t k = unat (at_table_start t) + k * unat (at_bytes_per_fat t)"

definition table_ok :: "allocation_table \<Rightarrow> bool" where
  "table_ok t \<longleftrightarrow> 1 \<le> unat (at_fat_count t) \<and> fat_base t (unat (at_fat_count t)) + 514 < 2 ^ 32"

definition in_table :: "allocation_table \<Rightarrow> u32 \<Rightarrow> bool" where
  "in_table t c \<longleftrightarrow> unat c div 2 * 3 + 3 \<le> unat (at_bytes_per_fat t)"

lemma unat_pair_offset: "in_table t c \<Longrightarrow> unat (pair_offset c) = unat c div 2 * 3"
  using unat_less_max32 [of "at_bytes_per_fat t"]
  by (simp add: in_table_def pair_offset_def unat_word_ariths unat_div del: unat_less_max32)

lemma half_eq_parity: "a div 2 = b div 2 \<Longrightarrow> a \<noteq> b \<Longrightarrow> (a mod 2 = 0) \<noteq> (b mod 2 = (0 :: nat))"
  by presburger

lemma same_pair:
  assumes "unat c div 2 = unat c' div 2" "c \<noteq> (c' :: u32)" shows "(c AND 1 = 0) \<noteq> (c' AND 1 = 0)"
proof -
  have par: "w AND 1 = 0 \<longleftrightarrow> unat w mod 2 = 0" for w :: u32
    by (simp add: and_one_eq word_unat_eq_iff unat_mod)
  show ?thesis unfolding par using assms unfolding word_unat_eq_iff by (rule half_eq_parity)
qed

lemma get_put_disjoint: "p + n \<le> q \<or> q + length xs \<le> p \<Longrightarrow> get_bytes (put_bytes q xs m) p n = get_bytes m p n"
  by (rule nth_equalityI) (auto simp: put_bytes_def)

lemma length_pair_bytes [simp]: "length (pair_bytes v) = 3"
  by (simp add: pair_bytes_def)

lemma get_put_pair: "get_bytes (put_bytes p (pair_bytes v) m) p 3 = pair_bytes v"
  using cached.get_put_same [of p "pair_bytes v" m] by simp

lemma fat_entry_update:
  assumes "value AND 0xfff = value" "in_table t c" "in_table t c'"
    and m': "m' = put_bytes (base + unat (pair_offset c))
      (pair_bytes (set_pair_entry c value (pair_value (get_bytes m (base + unat (pair_offset c)) 3)))) m"
  shows "fat_entry base m' c' = (if c' = c then value else fat_entry base m c')"
proof (cases "unat c div 2 = unat c' div 2")
  case True
  then have "pair_offset c' = pair_offset c" using assms(2,3) by (simp add: word_unat_eq_iff unat_pair_offset)
  then show ?thesis
    using pair_entry_same [OF assms(1)] pair_entry_other [OF assms(1) same_pair [OF True]]
    by (auto simp: fat_entry_def m' get_put_pair)
next
  case False
  then have "base + unat (pair_offset c') + 3 \<le> base + unat (pair_offset c) \<or>
      base + unat (pair_offset c) + length (pair_bytes v) \<le> base + unat (pair_offset c')" for v
    using assms(2,3) by (simp add: unat_pair_offset) linarith
  then show ?thesis using False by (auto simp: fat_entry_def m' get_put_disjoint)
qed

section \<open>Reading and writing entries\<close>

text \<open>The entries of copy \<open>j\<close> of the table as a reader of the disk sees them.\<close>

definition fat_of :: "allocation_table \<Rightarrow> nat \<Rightarrow> disk_access \<Rightarrow> u32 \<Rightarrow> u32" where
  "fat_of t j d = fat_entry (fat_base t j) (disk_view {} d)"

definition outside_tables :: "allocation_table \<Rightarrow> nat \<Rightarrow> bool" where
  "outside_tables t x \<longleftrightarrow> x < fat_base t 0 \<or> fat_base t (unat (at_fat_count t)) \<le> x"

lemma sectors_pair: "sectors off 3 \<le> 2"
  by (simp add: sectors_def)

lemma fat_base_mono: "j < k \<Longrightarrow> fat_base t j + unat (at_bytes_per_fat t) \<le> fat_base t k"
proof -
  assume "j < k"
  then have "(j + 1) * unat (at_bytes_per_fat t) \<le> k * unat (at_bytes_per_fat t)" by (intro mult_le_mono1) simp
  then show ?thesis by (simp add: fat_base_def algebra_simps)
qed

lemma fat_base_Suc: "fat_base t (Suc k) = fat_base t k + unat (at_bytes_per_fat t)"
  by (simp add: fat_base_def)

lemma pair_position:
  assumes t: "table_ok t" and c: "in_table t c" and k: "k < unat (at_fat_count t)" "unat i = k"
  shows "unat (at_table_start t + i * at_bytes_per_fat t + pair_offset c) = fat_base t k + unat (pair_offset c)"
    "fat_base t k + unat (pair_offset c) + 3 + 511 < 2 ^ 32"
    "fat_base t k + unat (pair_offset c) + 3 \<le> fat_base t (Suc k)"
proof -
  have off: "unat (pair_offset c) + 3 \<le> unat (at_bytes_per_fat t)"
    using c by (simp add: unat_pair_offset [OF c]) (simp add: in_table_def)
  then show in_copy: "fat_base t k + unat (pair_offset c) + 3 \<le> fat_base t (Suc k)" by (simp add: fat_base_def)
  have "fat_base t k + unat (at_bytes_per_fat t) \<le> fat_base t (unat (at_fat_count t))" by (rule fat_base_mono [OF k(1)])
  then show small: "fat_base t k + unat (pair_offset c) + 3 + 511 < 2 ^ 32" using t off by (simp add: table_ok_def)
  then have prod: "unat (i * at_bytes_per_fat t) = k * unat (at_bytes_per_fat t)"
    using k(2) by (simp add: fat_base_def unat_word_ariths)
  have base: "unat (at_table_start t + i * at_bytes_per_fat t) = fat_base t k"
    using small by (subst unat_add_small) (simp_all add: prod fat_base_def)
  show "unat (at_table_start t + i * at_bytes_per_fat t + pair_offset c) = fat_base t k + unat (pair_offset c)"
    using small by (subst unat_add_small) (simp_all add: base)
qed

lemma read_pair:
  assumes t: "table_ok t" and c: "in_table t c" and d: "disk_ready (2 + b) d"
  shows "\<exists>d'. read_bytes_from_disk d (at_table_start t + pair_offset c) [0, 0, 0] =
      Some (d', get_bytes (disk_view {} d) (fat_base t 0 + unat (pair_offset c)) 3, 3) \<and>
    disk_ready b d' \<and> disk_view {} d' = disk_view {} d"
proof -
  have "0 < unat (at_fat_count t)" using t by (simp add: table_ok_def)
  note pos = pair_position [OF t c this, of 0, simplified]
  have "disk_ready (sectors (at_table_start t + pair_offset c) (length [0, 0, 0 :: u8]) + b) d"
    using sectors_pair [of "at_table_start t + pair_offset c"]
    by (intro cached.ok_mono [OF d]) (simp add: numeral_3_eq_3)
  then show ?thesis using cached.rd_view [of "at_table_start t + pair_offset c" "[0, 0, 0]" b d] pos by (auto simp: numeral_3_eq_3)
qed

lemma get_next_cluster_ok:
  assumes "table_ok t" "in_table t c" "disk_ready (2 + b) d"
  shows "\<exists>d'. get_next_cluster t c d = Some (d', if fat_of t 0 d c = 0xfff then None else Some (fat_of t 0 d c)) \<and>
    disk_ready b d' \<and> disk_view {} d' = disk_view {} d"
  using read_pair [OF assms] by (auto simp: get_next_cluster_def fat_of_def fat_entry_def Let_def)

lemma set_entry_loop_ok:
  assumes t: "table_ok t" and c: "in_table t c" and v: "v AND 0xfff = v"
    and "unat i + n = unat (at_fat_count t)" "disk_ready (4 * n + b) d"
  shows "\<exists>d'. set_entry_loop t n i c v d = Some d' \<and> disk_ready b d' \<and>
    (\<forall>j < unat (at_fat_count t). \<forall>c'. in_table t c' \<longrightarrow>
       fat_of t j d' c' = (if unat i \<le> j \<and> c' = c then v else fat_of t j d c')) \<and>
    (\<forall>x. outside_tables t x \<longrightarrow> disk_view {} d' x = disk_view {} d x)"
  using assms(4,5)
proof (induction n arbitrary: i d)
  case 0
  then show ?case by auto
next
  case (Suc n)
  let ?off = "at_table_start t + i * at_bytes_per_fat t + pair_offset c"
  let ?f = "\<lambda>bs. pair_bytes (set_pair_entry c v (pair_value bs))"
  let ?p = "fat_base t (unat i) + unat (pair_offset c)"
  have i: "unat i < unat (at_fat_count t)" using Suc.prems(1) by simp
  note pos = pair_position [OF t c i refl]
  have "disk_ready (2 * sectors ?off 3 + (4 * n + b)) d"
    using sectors_pair [of ?off] by (intro cached.ok_mono [OF Suc.prems(2)]) simp
  then obtain d1 d2 where d2: "read_bytes_from_disk d ?off [0, 0, 0] = Some (d1, get_bytes (disk_view {} d) ?p 3, 3)"
      "write_bytes_to_disk d1 ?off (?f (get_bytes (disk_view {} d) ?p 3)) = Some d2" "disk_ready (4 * n + b) d2"
      "disk_view {} d2 = put_bytes ?p (?f (get_bytes (disk_view {} d) ?p 3)) (disk_view {} d)"
    using cached.read_modify_write [of ?off 3 "4 * n + b" d "[0, 0, 0]" ?f] pos(2) by (auto simp: pos(1))
  have u: "unat (i + 1) = unat i + 1"
    using i unat_less_max32 [of "at_fat_count t"] by (subst unat_add_small) (simp_all del: unat_less_max32)
  obtain d3 where d3: "set_entry_loop t n (i + 1) c v d2 = Some d3" "disk_ready b d3"
      "\<forall>j < unat (at_fat_count t). \<forall>c'. in_table t c' \<longrightarrow>
        fat_of t j d3 c' = (if unat (i + 1) \<le> j \<and> c' = c then v else fat_of t j d2 c')"
      "\<forall>x. outside_tables t x \<longrightarrow> disk_view {} d3 x = disk_view {} d2 x"
    using Suc.IH [of "i + 1" d2] Suc.prems(1) u d2(3) by auto
  have entry: "fat_of t j d2 c' = (if j = unat i \<and> c' = c then v else fat_of t j d c')"
    if j: "j < unat (at_fat_count t)" and c': "in_table t c'" for j c'
  proof (cases "j = unat i")
    case True
    then show ?thesis using fat_entry_update [OF v c c' d2(4)] by (simp add: fat_of_def)
  next
    case False
    have q: "fat_base t j + unat (pair_offset c') + 3 \<le> fat_base t (Suc j)"
      using c' by (simp add: fat_base_def unat_pair_offset [OF c']) (simp add: in_table_def)
    have "fat_base t (Suc j) \<le> fat_base t (unat i) \<or> fat_base t (Suc (unat i)) \<le> fat_base t j"
      using False fat_base_mono [of j "unat i" t] fat_base_mono [of "unat i" j t]
      unfolding fat_base_Suc by (cases "j < unat i") (simp_all add: not_less_iff_gr_or_eq)
    then have "get_bytes (disk_view {} d2) (fat_base t j + unat (pair_offset c')) 3 =
        get_bytes (disk_view {} d) (fat_base t j + unat (pair_offset c')) 3"
      unfolding d2(4) using q pos(3) by (intro get_put_disjoint) auto
    then show ?thesis using False by (simp add: fat_of_def fat_entry_def)
  qed
  have frame: "disk_view {} d2 x = disk_view {} d x" if "outside_tables t x" for x
  proof -
    have "fat_base t (Suc (unat i)) \<le> fat_base t (unat (at_fat_count t))" "fat_base t 0 \<le> fat_base t (unat i)"
      using fat_base_mono [OF i, of t] by (simp_all add: fat_base_Suc) (simp add: fat_base_def)
    then show ?thesis using that pos(3) by (auto simp: d2(4) put_bytes_def outside_tables_def)
  qed
  have "set_entry_loop t (Suc n) i c v d = Some d3" using d2(1,2) d3(1) by (simp add: Let_def)
  then show ?case using d3(2-4) entry frame u by (auto simp: Suc_le_eq)
qed

text \<open>The entries of the clusters in \<open>S\<close> become \<open>v\<close> in every copy; nothing else changes.\<close>

definition entries_set :: "allocation_table \<Rightarrow> u32 set \<Rightarrow> u32 \<Rightarrow> disk_access \<Rightarrow> disk_access \<Rightarrow> bool" where
  "entries_set t S v d d' \<longleftrightarrow>
     (\<forall>j < unat (at_fat_count t). \<forall>c. in_table t c \<longrightarrow> fat_of t j d' c = (if c \<in> S then v else fat_of t j d c)) \<and>
     (\<forall>x. outside_tables t x \<longrightarrow> disk_view {} d' x = disk_view {} d x)"

lemma entries_set_trans: "entries_set t S v d d1 \<Longrightarrow> entries_set t S' v d1 d2 \<Longrightarrow> entries_set t (S \<union> S') v d d2"
  by (auto simp: entries_set_def)

lemma entries_set_view: "disk_view {} d1 = disk_view {} d \<Longrightarrow> entries_set t S v d1 d' = entries_set t S v d d'"
  by (simp add: entries_set_def fat_of_def)

lemma set_cluster_entry_ok:
  assumes "table_ok t" "in_table t c" "disk_ready (4 * unat (at_fat_count t) + b) d"
  shows "\<exists>d'. set_cluster_entry t c v d = Some d' \<and> disk_ready b d' \<and> entries_set t {c} (v AND 0xFFF) d d'"
proof -
  have "(v AND 0xFFF) AND 0xFFF = v AND 0xFFF" by (simp add: and.assoc)
  from set_entry_loop_ok [OF assms(1,2) this, of 0 "unat (at_fat_count t)" b d] assms(3)
  show ?thesis by (auto simp: set_cluster_entry_def entries_set_def)
qed

section \<open>Walking a chain\<close>

text \<open>\<open>cs\<close> is a chain of the table \<open>f\<close>: each cluster names the next one and the last one is marked.\<close>

fun fat_chain :: "(u32 \<Rightarrow> u32) \<Rightarrow> u32 list \<Rightarrow> bool" where
  "fat_chain f [] \<longleftrightarrow> False"
| "fat_chain f [c] \<longleftrightarrow> f c = 0xfff"
| "fat_chain f (c # c' # cs) \<longleftrightarrow> f c = c' \<and> c' \<noteq> 0xfff \<and> fat_chain f (c' # cs)"

lemma nth_cluster_loop_ok:
  assumes "table_ok t" "fat_chain (fat_of t 0 d) cs" "list_all (in_table t) cs" "disk_ready (2 * n + b) d"
  shows "\<exists>d'. nth_cluster_loop t n (hd cs) d = Some (d', if n < length cs then Some (cs ! n) else None) \<and>
    disk_view {} d' = disk_view {} d"
  using assms(2-)
proof (induction n arbitrary: cs d)
  case 0
  then show ?case by (cases cs) auto
next
  case (Suc n)
  obtain c rest where cs: "cs = c # rest" using Suc.prems(1) by (cases cs) auto
  have "disk_ready (2 + (2 * n + b)) d" using Suc.prems(3) by simp
  then obtain d1 where d1: "get_next_cluster t c d = Some (d1, if fat_of t 0 d c = 0xfff then None else Some (fat_of t 0 d c))"
      "disk_ready (2 * n + b) d1" "disk_view {} d1 = disk_view {} d"
    using get_next_cluster_ok [OF assms(1), of c "2 * n + b" d] Suc.prems(2) cs by auto
  show ?case
  proof (cases rest)
    case Nil
    then show ?thesis using d1 Suc.prems(1) cs by simp
  next
    case (Cons c' rest')
    then have next1: "fat_of t 0 d c = c'" "c' \<noteq> 0xfff" and chain: "fat_chain (fat_of t 0 d1) rest"
      using Suc.prems(1) cs d1(3) by (simp_all add: fat_of_def)
    obtain d2 where "nth_cluster_loop t n (hd rest) d1 = Some (d2, if n < length rest then Some (rest ! n) else None)"
        "disk_view {} d2 = disk_view {} d1"
      using Suc.IH [OF chain _ d1(2)] Suc.prems(2) cs by auto
    then show ?thesis using d1 next1 cs Cons by simp
  qed
qed

section \<open>Allocating a cluster\<close>

lemma allocate_loop_ok:
  assumes t: "table_ok t" and c: "in_table t c" "fat_of t 0 d c = 0" "unat c = unat c0 + k"
    and used: "\<forall>j < k. in_table t (c0 + of_nat j) \<and> fat_of t 0 d (c0 + of_nat j) \<noteq> 0"
    and "k < n" "unat c < 4096" "disk_ready (2 * Suc k + 4 * unat (at_fat_count t) + b) d"
  shows "\<exists>d'. allocate_loop t n c0 d = Some (d', Some c) \<and> disk_ready b d' \<and> entries_set t {c} 0xfff d d'"
  using assms(2-)
proof (induction k arbitrary: n c0 d)
  case 0
  then obtain n' where n: "n = Suc n'" by (cases n) auto
  have c0: "c0 = c" using "0.prems"(3) by (simp add: word_unat_eq_iff)
  have "disk_ready (2 + (4 * unat (at_fat_count t) + b)) d" using "0.prems"(7) by (simp add: add.assoc)
  from read_pair [OF t "0.prems"(1) this]
  obtain d1 where d1: "read_bytes_from_disk d (at_table_start t + pair_offset c) [0, 0, 0] =
      Some (d1, get_bytes (disk_view {} d) (fat_base t 0 + unat (pair_offset c)) 3, 3)"
      "disk_ready (4 * unat (at_fat_count t) + b) d1" "disk_view {} d1 = disk_view {} d" by auto
  obtain d2 where "set_cluster_entry t c 0xFFF d1 = Some d2" "disk_ready b d2" "entries_set t {c} 0xFFF d1 d2"
    using set_cluster_entry_ok [OF t "0.prems"(1) d1(2), of "0xFFF"] by auto
  then show ?case
    using d1 "0.prems"(2) n c0 entries_set_view [OF d1(3), of t "{c}" "0xFFF" d2]
    by (auto simp: allocate_entry_eq Let_def fat_of_def fat_entry_def)
next
  case (Suc k)
  then obtain n' where n: "n = Suc n'" by (cases n) auto
  have used0: "in_table t c0" "fat_of t 0 d c0 \<noteq> 0" using Suc.prems(4) [rule_format, of 0] by simp_all
  have ready: "disk_ready (2 + (2 * Suc k + 4 * unat (at_fat_count t) + b)) d" using Suc.prems(7) by (simp add: add.assoc)
  from read_pair [OF t used0(1) ready]
  obtain d1 where d1: "read_bytes_from_disk d (at_table_start t + pair_offset c0) [0, 0, 0] =
      Some (d1, get_bytes (disk_view {} d) (fat_base t 0 + unat (pair_offset c0)) 3, 3)"
      "disk_ready (2 * Suc k + 4 * unat (at_fat_count t) + b) d1" "disk_view {} d1 = disk_view {} d" by auto
  have fat: "fat_of t 0 d1 = fat_of t 0 d" by (simp add: fat_of_def d1(3))
  have u: "unat (c0 + 1) = unat c0 + 1" using Suc.prems(3,6) by (subst unat_add_small) simp_all
  have "\<forall>j < k. in_table t (c0 + 1 + of_nat j) \<and> fat_of t 0 d1 (c0 + 1 + of_nat j) \<noteq> 0"
    using Suc.prems(4) unfolding fat by (metis Suc_less_eq add.assoc of_nat_Suc)
  then obtain d2 where "allocate_loop t n' (c0 + 1) d1 = Some (d2, Some c)" "disk_ready b d2" "entries_set t {c} 0xfff d1 d2"
    using Suc.IH [of d1 "c0 + 1" n'] Suc.prems(1-3,5,6) u d1(2) n by (auto simp: fat)
  then show ?case
    using d1 used0(2) n entries_set_view [OF d1(3)]
    by (auto simp: allocate_entry_eq Let_def fat_of_def fat_entry_def)
qed

lemma in_table_le: "in_table t c \<Longrightarrow> c' \<le> c \<Longrightarrow> in_table t c'"
proof -
  assume c: "in_table t c" "c' \<le> c"
  then have "unat c' div 2 * 3 \<le> unat c div 2 * 3" by (intro mult_le_mono1 div_le_mono) (simp add: word_le_nat_alt)
  then show ?thesis using c(1) by (simp add: in_table_def)
qed

lemma allocate_cluster_ok:
  assumes "table_ok t" "in_table t c" "2 \<le> c" "c < 4085" "fat_of t 0 d c = 0"
    "\<forall>c'. 2 \<le> c' \<and> c' < c \<longrightarrow> fat_of t 0 d c' \<noteq> 0"
    "disk_ready (8170 + 4 * unat (at_fat_count t) + b) d"
  shows "\<exists>d'. allocate_cluster t d = Some (d', Some c) \<and> disk_ready b d' \<and> entries_set t {c} 0xfff d d'"
proof -
  let ?k = "unat c - 2"
  have uc: "2 \<le> unat c" "unat c < 4085" using assms(3,4) by (simp_all add: word_le_nat_alt word_less_nat_alt)
  have below: "(2 :: u32) \<le> 2 + of_nat j \<and> 2 + of_nat j < c" if "j < ?k" for j
  proof -
    have "unat (2 + of_nat j :: u32) = 2 + j" using that uc by (subst unat_add_small) (simp_all add: unat_of_nat_small)
    then show ?thesis using that by (simp add: word_le_nat_alt word_less_nat_alt)
  qed
  have ready: "disk_ready (2 * Suc ?k + 4 * unat (at_fat_count t) + b) d"
    using uc by (intro cached.ok_mono [OF assms(7)]) simp
  have "\<forall>j < ?k. in_table t (2 + of_nat j) \<and> fat_of t 0 d (2 + of_nat j) \<noteq> 0"
    using assms(2,6) below in_table_le by (metis less_imp_le)
  then show ?thesis
    unfolding allocate_cluster_def using uc ready
    by (intro allocate_loop_ok [OF assms(1,2,5)]) simp_all
qed

section \<open>Freeing a chain\<close>

lemma fat_chain_cong: "\<forall>c \<in> set cs. f c = g c \<Longrightarrow> fat_chain f cs = fat_chain g cs"
  by (induction f cs rule: fat_chain.induct) auto

lemma free_chain_ok:
  assumes t: "table_ok t" and "fat_chain (fat_of t 0 d) cs" "distinct cs" "list_all (in_table t) cs"
    "disk_ready (length cs * (2 + 4 * unat (at_fat_count t)) + b) d"
  shows "\<exists>d'. free_chain t (hd cs) d = Some d' \<and> disk_ready b d' \<and> entries_set t (set cs) 0 d d'"
  using assms(2-)
proof (induction cs arbitrary: d)
  case (Cons c cs)
  define b' where "b' = length cs * (2 + 4 * unat (at_fat_count t)) + b"
  have ready: "disk_ready (2 + (4 * unat (at_fat_count t) + b')) d"
    using Cons.prems(4) by (simp add: b'_def add_ac)
  have c: "in_table t c" using Cons.prems(3) by simp
  obtain d1 where d1: "get_next_cluster t c d = Some (d1, if fat_of t 0 d c = 0xfff then None else Some (fat_of t 0 d c))"
      "disk_ready (4 * unat (at_fat_count t) + b') d1" "disk_view {} d1 = disk_view {} d"
    using get_next_cluster_ok [OF t c ready] by auto
  obtain d2 where d2: "set_cluster_entry t c 0 d1 = Some d2" "disk_ready b' d2" "entries_set t {c} 0 d1 d2"
    using set_cluster_entry_ok [OF t c d1(2), of 0] by auto
  have set1: "entries_set t {c} 0 d d2" using d2(3) entries_set_view [OF d1(3)] by simp
  show ?case
  proof (cases cs)
    case Nil
    then have "free_chain t c d = Some d2" using d1(1) d2(1) Cons.prems(1) by (subst free_chain.simps) simp
    then show ?thesis using d2(2) set1 Nil by (simp add: b'_def)
  next
    case (Cons c' rest)
    then have nxt: "fat_of t 0 d c = c'" "c' \<noteq> 0xfff" and tail: "fat_chain (fat_of t 0 d) cs" using Cons.prems(1) by simp_all
    have "\<forall>x \<in> set cs. fat_of t 0 d x = fat_of t 0 d2 x"
      using set1 Cons.prems(2,3) t by (auto simp: entries_set_def table_ok_def list_all_iff)
    then have "fat_chain (fat_of t 0 d2) cs" using tail fat_chain_cong by blast
    then obtain d3 where d3: "free_chain t c' d2 = Some d3" "disk_ready b d3" "entries_set t (set cs) 0 d2 d3"
      using Cons.IH [of d2] Cons.prems(2,3) d2(2) Cons by (auto simp: b'_def)
    have "free_chain t c d = Some d3" using d1(1) d2(1) nxt d3(1) by (subst free_chain.simps) simp
    moreover have "entries_set t (set (c # cs)) 0 d d3" using entries_set_trans [OF set1 d3(3)] by simp
    ultimately show ?thesis using d3(2) by auto
  qed
qed simp

section \<open>Properties\<close>

text \<open>
  The parameter block of a 1.44 MB floppy disk, and the bytes of a disk whose table has the chain 2, 3, 5 and
  no other entry.
\<close>

definition floppy_bpb :: bios_param_block where
  "floppy_bpb = \<lparr>bytes_per_sector = 512, sectors_per_cluster = 1, reserved_sectors = 1, fat_count = 2,
     root_directory_entries = 224, total_sectors = 2880, media_descriptor = 0xF0, sectors_per_fat = 9\<rparr>"

definition sample_disk :: "nat \<Rightarrow> u8" where
  "sample_disk x = (if x = 515 then 0x03 else if x = 516 then 0x50 else if x = 519 then 0xF0 else if x = 520 then 0xFF else 0)"

lemma floppy_table:
  "from_bpb floppy_bpb = \<lparr>at_table_start = 512, at_sectors_per_cluster = 1, at_bytes_per_fat = 4608, at_fat_count = 2,
     at_first_cluster_location = 16896\<rparr>"
  by (simp add: from_bpb_def floppy_bpb_def first_root_directory_sector_def root_directory_size_def)

lemma floppy_table_ok: "table_ok (from_bpb floppy_bpb)" "in_table (from_bpb floppy_bpb) c \<longleftrightarrow> unat c div 2 * 3 + 3 \<le> 4608"
  by (simp_all add: table_ok_def in_table_def fat_base_def floppy_table)

lemma new_disk_ready: "k < 2 ^ 32 \<Longrightarrow> disk_ready k (disk_access_new m 65536)"
  using disk_access_new_ok(1) [of 65536 m] by (simp add: disk_ready_def disk_access_new_def)

lemma fat_of_new: "fat_of (from_bpb floppy_bpb) 0 (disk_access_new m 65536) c = fat_entry 512 m c"
  using disk_access_new_ok(2) [of 65536 m] by (simp add: fat_of_def fat_base_def floppy_table)

lemma floppy_entries_set:
  assumes "entries_set (from_bpb floppy_bpb) S v d d'" "j < 2" "unat c div 2 * 3 + 3 \<le> 4608"
  shows "fat_of (from_bpb floppy_bpb) j d' c = (if c \<in> S then v else fat_of (from_bpb floppy_bpb) j d c)"
proof -
  have "unat (at_fat_count (from_bpb floppy_bpb)) = 2" by (simp add: floppy_table)
  then show ?thesis using assms floppy_table_ok(2) [of c] unfolding entries_set_def by presburger
qed

lemma sample_entries:
  "fat_entry 512 sample_disk 2 = 3" "fat_entry 512 sample_disk 3 = 5" "fat_entry 512 sample_disk 4 = 0"
  "fat_entry 512 sample_disk 5 = 0xfff"
  by (simp_all add: fat_entry_def pair_offset_def get_bytes_def sample_disk_def pair_value_def pair_entry_def upt_rec)

text \<open>
  (C12) Writing a table entry. For a cluster inside the table, \<^verbatim>\<open>set_cluster_entry\<close> returns; reading the cluster
  back gives the 12-bit value (no next cluster when it is the end mark), in every copy of the table; every
  other entry, including the one packed into the same three bytes, and every byte outside the tables are
  unchanged.
\<close>

theorem set_cluster_entry_exact:
  assumes "table_ok t" "in_table t c" "disk_ready (4 * unat (at_fat_count t) + 2 + b) d"
  shows "\<exists>d' d''. set_cluster_entry t c v d = Some d' \<and> entries_set t {c} (v AND 0xFFF) d d' \<and>
    get_next_cluster t c d' = Some (d'', if v AND 0xFFF = 0xFFF then None else Some (v AND 0xFFF)) \<and>
    disk_ready b d''"
proof -
  obtain d' where d': "set_cluster_entry t c v d = Some d'" "disk_ready (2 + b) d'" "entries_set t {c} (v AND 0xFFF) d d'"
    using set_cluster_entry_ok [OF assms(1,2), of "2 + b" d v] assms(3) by (auto simp: add.assoc)
  have "fat_of t 0 d' c = v AND 0xFFF" using d'(3) assms(1,2) by (auto simp: entries_set_def table_ok_def)
  then show ?thesis using d' get_next_cluster_ok [OF assms(1,2) d'(2)] by auto
qed

theorem set_cluster_entry_exact_witness:
  "\<exists>d' d''. set_cluster_entry (from_bpb floppy_bpb) 4 0x1007 (disk_access_new sample_disk 65536) = Some d' \<and>
     get_next_cluster (from_bpb floppy_bpb) 4 d' = Some (d'', Some 7) \<and> fat_of (from_bpb floppy_bpb) 0 d' 5 = 0xfff"
proof -
  let ?t = "from_bpb floppy_bpb" and ?d = "disk_access_new sample_disk 65536"
  have v: "(0x1007 :: u32) AND 0xFFF = 7" by simp
  have "disk_ready (4 * unat (at_fat_count ?t) + 2 + 0) ?d" by (rule new_disk_ready) (simp add: floppy_table)
  then obtain d' d'' where d': "set_cluster_entry ?t 4 0x1007 ?d = Some d'" "entries_set ?t {4} 7 ?d d'"
      "get_next_cluster ?t 4 d' = Some (d'', Some 7)"
    using set_cluster_entry_exact [OF floppy_table_ok(1), of 4 0 ?d "0x1007"] unfolding v
    by (auto simp: floppy_table_ok(2))
  have "fat_of ?t 0 d' 5 = 0xfff"
    using floppy_entries_set [OF d'(2), of 0 5] by (simp add: fat_of_new sample_entries)
  then show ?thesis using d'(1,3) by blast
qed

text \<open>
  (C11) Allocation takes the first free cluster. When \<open>c\<close> is the first cluster from 2 on whose entry is zero,
  \<^verbatim>\<open>allocate_cluster\<close> returns \<open>c\<close>, marked as the end of a chain in every copy, with every other entry and every
  byte outside the tables unchanged.
\<close>

theorem allocate_cluster_first_free:
  assumes "table_ok t" "in_table t c" "2 \<le> c" "c < 4085" "fat_of t 0 d c = 0"
    "\<forall>c'. 2 \<le> c' \<and> c' < c \<longrightarrow> fat_of t 0 d c' \<noteq> 0"
    "disk_ready (8170 + 4 * unat (at_fat_count t) + b) d"
  shows "\<exists>d'. allocate_cluster t d = Some (d', Some c) \<and> disk_ready b d' \<and> entries_set t {c} 0xfff d d'"
  by (rule allocate_cluster_ok [OF assms])

theorem allocate_cluster_first_free_witness:
  "\<exists>d'. allocate_cluster (from_bpb floppy_bpb) (disk_access_new sample_disk 65536) = Some (d', Some 4) \<and>
     fat_of (from_bpb floppy_bpb) 0 d' 4 = 0xfff \<and> fat_of (from_bpb floppy_bpb) 0 d' 3 = 5"
proof -
  let ?t = "from_bpb floppy_bpb" and ?d = "disk_access_new sample_disk 65536"
  have used: "\<forall>c'. 2 \<le> c' \<and> c' < (4 :: u32) \<longrightarrow> fat_of ?t 0 ?d c' \<noteq> 0"
  proof (intro allI impI)
    fix c' :: u32 assume "2 \<le> c' \<and> c' < 4"
    then have "unat c' = 2 \<or> unat c' = 3" unfolding word_le_nat_alt word_less_nat_alt by auto
    then have "c' = 2 \<or> c' = 3" by (auto simp: word_unat_eq_iff)
    then show "fat_of ?t 0 ?d c' \<noteq> 0" by (auto simp: fat_of_new sample_entries)
  qed
  have "disk_ready (8170 + 4 * unat (at_fat_count ?t) + 0) ?d" by (rule new_disk_ready) (simp add: floppy_table)
  then obtain d' where d': "allocate_cluster ?t ?d = Some (d', Some 4)" "entries_set ?t {4} 0xfff ?d d'"
    using allocate_cluster_first_free [OF floppy_table_ok(1) _ _ _ _ used, of 0]
    by (auto simp: floppy_table_ok(2) fat_of_new sample_entries)
  then show ?thesis
    using floppy_entries_set [OF d'(2), of 0 4] floppy_entries_set [OF d'(2), of 0 3]
    by (auto simp: fat_of_new sample_entries)
qed

text \<open>
  Walking a chain returns its clusters in order and nothing after the end mark.
\<close>

theorem get_nth_cluster_walks_chain:
  assumes "table_ok t" "fat_chain (fat_of t 0 d) cs" "list_all (in_table t) cs" "disk_ready (2 * unat n) d"
  shows "\<exists>d'. get_nth_cluster t (hd cs) n d = Some (d', if unat n < length cs then Some (cs ! unat n) else None) \<and>
    disk_view {} d' = disk_view {} d"
  using nth_cluster_loop_ok [OF assms(1-3), of "unat n" 0] assms(4) by (simp add: get_nth_cluster_def)

theorem get_nth_cluster_walks_chain_witness:
  "\<exists>d'. get_nth_cluster (from_bpb floppy_bpb) 2 2 (disk_access_new sample_disk 65536) = Some (d', Some 5)"
proof -
  have "disk_ready (2 * unat (2 :: u32)) (disk_access_new sample_disk 65536)" by (rule new_disk_ready) simp
  then show ?thesis
    using get_nth_cluster_walks_chain [OF floppy_table_ok(1), of "disk_access_new sample_disk 65536" "[2, 3, 5]" 2]
    by (auto simp: floppy_table_ok(2) fat_of_new sample_entries)
qed

text \<open>
  (C6) Freeing terminates on every well-formed chain and frees exactly its clusters: their entries become zero in
  every copy of the table, every other entry and every byte outside the tables are unchanged.
\<close>

theorem free_chain_frees_exactly:
  assumes "table_ok t" "fat_chain (fat_of t 0 d) cs" "distinct cs" "list_all (in_table t) cs"
    "disk_ready (length cs * (2 + 4 * unat (at_fat_count t))) d"
  shows "\<exists>d'. free_chain t (hd cs) d = Some d' \<and> entries_set t (set cs) 0 d d'"
  using free_chain_ok [OF assms(1-4), of 0] assms(5) by auto

theorem free_chain_frees_exactly_witness:
  "\<exists>d'. free_chain (from_bpb floppy_bpb) 2 (disk_access_new sample_disk 65536) = Some d' \<and>
     fat_of (from_bpb floppy_bpb) 0 d' 3 = 0 \<and> fat_of (from_bpb floppy_bpb) 1 d' 5 = 0"
proof -
  let ?t = "from_bpb floppy_bpb" and ?d = "disk_access_new sample_disk 65536"
  have "disk_ready (length [2, 3, 5 :: u32] * (2 + 4 * unat (at_fat_count ?t))) ?d"
    by (rule new_disk_ready) (simp add: floppy_table)
  then obtain d' where d': "free_chain ?t 2 ?d = Some d'" "entries_set ?t {2, 3, 5} 0 ?d d'"
    using free_chain_frees_exactly [OF floppy_table_ok(1), of ?d "[2, 3, 5]"]
    by (auto simp: floppy_table_ok(2) fat_of_new sample_entries)
  then show ?thesis using floppy_entries_set [OF d'(2), of 0 3] floppy_entries_set [OF d'(2), of 1 5] by auto
qed


text \<open>
  A floppy disk whose 2847 clusters (2 to 2848) are all taken; the table has room for more entries than the
  volume has clusters, and the next entry is zero.
\<close>

definition full_floppy :: "nat \<Rightarrow> u8" where
  "full_floppy x = (if x = 4785 then 0x0F else if x = 4786 then 0 else 0xFF)"

lemma full_floppy_taken:
  assumes "2 \<le> c" "c < (2849 :: u32)" shows "fat_entry 512 full_floppy c \<noteq> 0"
proof (cases "c = 2848")
  case True
  then show ?thesis
    by (simp add: fat_entry_def pair_offset_def get_bytes_def full_floppy_def pair_value_def pair_entry_def upt_rec)
next
  case False
  then have "unat c < 2848" using assms(2) by (simp add: word_less_nat_alt word_unat_eq_iff)
  moreover from this have off: "unat (pair_offset c) = unat c div 2 * 3"
    by (simp add: pair_offset_def unat_word_ariths unat_div)
  ultimately have "512 + unat (pair_offset c) + 3 \<le> 4784" by simp
  then have "get_bytes full_floppy (512 + unat (pair_offset c)) 3 = [0xFF, 0xFF, 0xFF]"
    by (simp add: get_bytes_def full_floppy_def upt_rec)
  then show ?thesis by (simp add: fat_entry_def pair_value_def pair_entry_def)
qed

text \<open>
  (C31) Allocation does not know the size of the volume. On a full floppy disk \<^verbatim>\<open>allocate_cluster\<close> hands out cluster
  2849, whose data starts at the first byte after the last sector of the volume.
\<close>

theorem allocates_past_volume:
  "\<exists>d'. allocate_cluster (from_bpb floppy_bpb) (disk_access_new full_floppy 65536) = Some (d', Some 2849) \<and>
     unat (get_cluster_location (from_bpb floppy_bpb) 2849) = unat (total_sectors floppy_bpb) * 512"
proof -
  let ?t = "from_bpb floppy_bpb" and ?d = "disk_access_new full_floppy 65536"
  have free: "fat_of ?t 0 ?d 2849 = 0"
    by (simp add: fat_of_new fat_entry_def pair_offset_def get_bytes_def full_floppy_def pair_value_def pair_entry_def upt_rec)
  have taken: "\<forall>c'. 2 \<le> c' \<and> c' < 2849 \<longrightarrow> fat_of ?t 0 ?d c' \<noteq> 0" using full_floppy_taken by (simp add: fat_of_new)
  have "disk_ready (8170 + 4 * unat (at_fat_count ?t) + 0) ?d" by (rule new_disk_ready) (simp add: floppy_table)
  then have "\<exists>d'. allocate_cluster ?t ?d = Some (d', Some 2849)"
    using allocate_cluster_ok [OF floppy_table_ok(1) _ _ _ free taken, of 0] by (auto simp: floppy_table_ok(2))
  moreover have "unat (get_cluster_location ?t 2849) = unat (total_sectors floppy_bpb) * 512"
    by (simp add: get_cluster_location_def bytes_per_cluster_def floppy_table) (simp add: floppy_bpb_def)
  ultimately show ?thesis by blast
qed

end
