(* ===== verification/Fat_Time.thy ===== *)
theory Fat_Time
  imports Idos_Prelude
begin

text \<open>
  Dates and times of directory entries (\<^verbatim>\<open>FileTime\<close>, \<^verbatim>\<open>FileDate\<close>, \<^verbatim>\<open>encode_timestamp\<close> and \<^verbatim>\<open>decode_timestamp\<close> of
  \<^verbatim>\<open>components/drivers/fatdriver/src/dir.rs\<close>): seconds since 1980 in 32 bits, and the packed 16-bit fields of the
  FAT format, which keep seconds in units of two.

  Decoding divides a 32-bit number of seconds, so none of its intermediate values exceeds 32 bits; it is
  computed on natural numbers. Encoding reads fields a disk may hold with any value and is kept at its width.
\<close>

section \<open>Packed fields\<close>

type_synonym file_time = u16
type_synonym file_date = u16

definition get_hours :: "file_time \<Rightarrow> u16" where "get_hours t = drop_bit 11 t"
definition get_minutes :: "file_time \<Rightarrow> u16" where "get_minutes t = drop_bit 5 t AND 0x3f"
definition get_seconds :: "file_time \<Rightarrow> u16" where "get_seconds t = push_bit 1 (t AND 0x1f)"

definition file_time_from_parts :: "u8 \<Rightarrow> u8 \<Rightarrow> u8 \<Rightarrow> file_time" where
  "file_time_from_parts hours minutes seconds =
     push_bit 11 (ucast hours) OR push_bit 5 (ucast minutes) OR drop_bit 1 (ucast seconds)"

definition get_year :: "file_date \<Rightarrow> u16" where "get_year d = (drop_bit 9 d AND 0x7f) + 1980"
definition get_month :: "file_date \<Rightarrow> u16" where "get_month d = drop_bit 5 d AND 0xf"
definition get_day :: "file_date \<Rightarrow> u16" where "get_day d = d AND 0x1f"

definition file_date_from_parts :: "u16 \<Rightarrow> u8 \<Rightarrow> u8 \<Rightarrow> file_date" where
  "file_date_from_parts year month day =
     (let year_val = if 1980 \<le> year then year - 1980 else 0
      in push_bit 9 (year_val AND 0x7f) OR push_bit 5 (ucast month AND 0xf) OR (ucast day AND 0x1f))"

section \<open>Timestamps\<close>

definition is_leap_year :: "u16 \<Rightarrow> bool" where
  "is_leap_year year \<longleftrightarrow> (let y = unat year in y mod 4 = 0 \<and> (y mod 100 \<noteq> 0 \<or> y mod 400 = 0))"

definition MONTH_START_OFFSET :: "nat list" where
  "MONTH_START_OFFSET = [0, 31, 59, 90, 120, 151, 181, 212, 243, 273, 304, 334]"

definition encode_timestamp :: "u16 \<Rightarrow> u16 \<Rightarrow> u16 \<Rightarrow> u16 \<Rightarrow> u16 \<Rightarrow> u16 \<Rightarrow> u32" where
  "encode_timestamp year month day hours minutes seconds =
     (if year < 1980 \<or> month = 0 \<or> 12 < month then 0
      else let yr = ucast (year - 1980);
               quadrennials = yr div 4;
               year_remainder = yr mod 4;
               days = quadrennials * (366 + 365 + 365 + 365) + year_remainder * 365;
               days = (if 0 < year_remainder then days + 1 else days);
               days = days + of_nat (MONTH_START_OFFSET ! (unat month - 1));
               days = (if 2 < month \<and> is_leap_year year then days + 1 else days);
               days = days + (ucast day - 1)
           in days * 86400 + ucast hours * 3600 + ucast minutes * 60 + ucast seconds)"

text \<open>\<^verbatim>\<open>while month < 12 && MONTH_START_OFFSET[month] + leap <= year_days\<close>, with \<open>n\<close> months left.\<close>

fun month_loop :: "nat \<Rightarrow> nat \<Rightarrow> nat \<Rightarrow> nat \<Rightarrow> nat \<Rightarrow> nat \<times> nat" where
  "month_loop 0 month leap year_days year_offset = (month, leap)"
| "month_loop (Suc n) month leap year_days year_offset =
     (if MONTH_START_OFFSET ! month + leap \<le> year_days
      then month_loop n (month + 1) (if month + 1 = 2 \<and> year_offset mod 4 = 0 then 1 else leap) year_days year_offset
      else (month, leap))"

definition decode_timestamp :: "u32 \<Rightarrow> file_date \<times> file_time" where
  "decode_timestamp ts =
     (let days = unat ts div 86400;
          raw_time = unat ts mod 86400;
          year_offset = (days * 100) div 36525;
          quadrennial_days = days mod (365 + 365 + 365 + 366);
          year_days = (if 365 < quadrennial_days then (quadrennial_days - 366) mod 365 else quadrennial_days);
          (month, leap) = month_loop 12 0 0 year_days year_offset;
          day = year_days + 1 - MONTH_START_OFFSET ! (month - 1);
          day = (if 2 < month then day - leap else day);
          total_minutes = raw_time div 60;
          seconds = raw_time mod 60;
          hours = total_minutes div 60;
          minutes = total_minutes mod 60;
          year = of_nat year_offset + 1980
      in (file_date_from_parts year (of_nat month) (of_nat day),
          file_time_from_parts (of_nat hours) (of_nat minutes) (of_nat seconds)))"

section \<open>Packing loses nothing that fits\<close>

lemma bits16:
  "bit (0x1f :: u16) n \<longleftrightarrow> n < 5" "bit (0x3f :: u16) n \<longleftrightarrow> n < 6" "bit (0x7f :: u16) n \<longleftrightarrow> n < 7" "bit (0xf :: u16) n \<longleftrightarrow> n < 4"
proof -
  have m: "(0x1f :: u16) = mask 5" "(0x3f :: u16) = mask 6" "(0x7f :: u16) = mask 7" "(0xf :: u16) = mask 4"
    by (simp_all add: mask_eq_exp_minus_1)
  show "bit (0x1f :: u16) n \<longleftrightarrow> n < 5" unfolding m(1) by (auto simp: bit_mask_iff)
  show "bit (0x3f :: u16) n \<longleftrightarrow> n < 6" unfolding m(2) by (auto simp: bit_mask_iff)
  show "bit (0x7f :: u16) n \<longleftrightarrow> n < 7" unfolding m(3) by (auto simp: bit_mask_iff)
  show "bit (0xf :: u16) n \<longleftrightarrow> n < 4" unfolding m(4) by (auto simp: bit_mask_iff)
qed

lemma below_bits: "unat (w :: 'a::len word) < 2 ^ k \<Longrightarrow> bit w n \<Longrightarrow> n < k"
proof (rule ccontr)
  assume w: "unat w < 2 ^ k" "bit w n" "\<not> n < k"
  have "take_bit k w = w" using w(1) by (simp add: word_unat_eq_iff unat_take_bit)
  then show False using w(2,3) by (metis bit_take_bit_iff)
qed

lemma unat_ucast_16: "unat (ucast (w :: u8) :: u16) = unat w"
proof -
  have "unat w < 2 ^ LENGTH(8)" by (rule unsigned_less)
  then have "unat w < 2 ^ 16" by simp
  then show ?thesis by (simp add: unsigned_ucast_eq take_bit_nat_eq_self)
qed

lemma bits16_int:
  "bit (0x1f :: int) n \<longleftrightarrow> n < 5" "bit (0x3f :: int) n \<longleftrightarrow> n < 6" "bit (0x7f :: int) n \<longleftrightarrow> n < 7" "bit (0xf :: int) n \<longleftrightarrow> n < 4"
proof -
  have m: "(0x1f :: int) = mask 5" "(0x3f :: int) = mask 6" "(0x7f :: int) = mask 7" "(0xf :: int) = mask 4"
    by (simp_all add: mask_eq_exp_minus_1)
  show "bit (0x1f :: int) n \<longleftrightarrow> n < 5" unfolding m(1) by (auto simp: bit_mask_iff)
  show "bit (0x3f :: int) n \<longleftrightarrow> n < 6" unfolding m(2) by (auto simp: bit_mask_iff)
  show "bit (0x7f :: int) n \<longleftrightarrow> n < 7" unfolding m(3) by (auto simp: bit_mask_iff)
  show "bit (0xf :: int) n \<longleftrightarrow> n < 4" unfolding m(4) by (auto simp: bit_mask_iff)
qed

lemmas field_bits = bits16 bits16_int bit_and_iff bit_or_iff bit_push_bit_iff bit_drop_bit_eq bit_ucast_iff

lemma and_field:
  assumes "unat (w :: u16) < 2 ^ k" shows "w AND mask k = w"
  using assms by (simp add: word_unat_eq_iff unat_and_mask)

lemma date_fields:
  "get_month (file_date_from_parts y m d) = ucast m AND 0xf" "get_day (file_date_from_parts y m d) = ucast d AND 0x1f"
  by (rule bit_word_eqI; auto simp: get_month_def get_day_def file_date_from_parts_def field_bits Let_def)+

lemma date_year:
  assumes "unat y < 128" shows "get_year (file_date_from_parts (y + 1980) m d) = y + 1980"
proof -
  have u: "unat (y + 1980) = unat y + 1980" using assms by (subst unat_add_small) simp_all
  then have "1980 \<le> y + 1980" by (simp add: word_le_nat_alt)
  then have fd: "file_date_from_parts (y + 1980) m d =
      push_bit 9 (y AND 0x7f) OR push_bit 5 (ucast m AND 0xf) OR (ucast d AND 0x1f)"
    by (simp add: file_date_from_parts_def)
  have "drop_bit 9 (push_bit 9 (y AND 0x7f) OR push_bit 5 (ucast m AND 0xf) OR (ucast d AND 0x1f)) AND 0x7f = y"
    by (rule bit_word_eqI) (use below_bits [of y 7] assms in \<open>auto simp: field_bits\<close>)
  then show ?thesis unfolding get_year_def fd by (simp only:)
qed

lemma time_fields:
  assumes "unat h < 32" "unat m < 64" "unat s < 64"
  shows "get_hours (file_time_from_parts h m s) = ucast h" "get_minutes (file_time_from_parts h m s) = ucast m"
    "get_seconds (file_time_from_parts h m s) = push_bit 1 (drop_bit 1 (ucast s))"
proof -
  have b: "\<And>n. bit h n \<Longrightarrow> n < 5" "\<And>n. bit m n \<Longrightarrow> n < 6" "\<And>n. bit s n \<Longrightarrow> n < 6"
    using below_bits [of h 5] below_bits [of m 6] below_bits [of s 6] assms by simp_all
  show "get_hours (file_time_from_parts h m s) = ucast h"
    by (rule bit_word_eqI) (auto simp: get_hours_def file_time_from_parts_def field_bits dest: b)
  show "get_minutes (file_time_from_parts h m s) = ucast m"
    by (rule bit_word_eqI) (auto simp: get_minutes_def file_time_from_parts_def field_bits dest: b)
  have "file_time_from_parts h m s AND 0x1f = drop_bit 1 (ucast s)"
    by (rule bit_word_eqI) (auto simp: file_time_from_parts_def field_bits dest: b)
  then show "get_seconds (file_time_from_parts h m s) = push_bit 1 (drop_bit 1 (ucast s))"
    unfolding get_seconds_def by (simp only:)
qed

section \<open>Months\<close>

text \<open>
  The month loop stops at the month of a day: the start of the month, corrected by the leap day, is at most
  the day, and the next month starts after it.
\<close>

definition month_reached :: "nat \<Rightarrow> nat \<Rightarrow> nat \<Rightarrow> nat \<Rightarrow> bool" where
  "month_reached l yd m leap \<longleftrightarrow> leap = (if m < 2 then 0 else l) \<and>
     (1 \<le> m \<longrightarrow> MONTH_START_OFFSET ! (m - 1) + (if 2 < m then l else 0) \<le> yd)"

lemma month_loop_stops:
  assumes "m + n = 12" "month_reached l yd m leap" "l = (if yo mod 4 = 0 then 1 else 0)"
  shows "\<exists>m' leap'. month_loop n m leap yd yo = (m', leap') \<and> m' \<le> 12 \<and> month_reached l yd m' leap' \<and>
    (m' < 12 \<longrightarrow> yd < MONTH_START_OFFSET ! m' + leap')"
  using assms(1,2)
proof (induction n arbitrary: m leap)
  case 0
  then show ?case by simp
next
  case (Suc n)
  show ?case
  proof (cases "MONTH_START_OFFSET ! m + leap \<le> yd")
    case True
    let ?leap = "if m + 1 = 2 \<and> yo mod 4 = 0 then 1 else leap"
    have "month_reached l yd (m + 1) ?leap"
      using Suc.prems(2) assms(3) True by (auto simp: month_reached_def split: if_splits)
    moreover have "m + 1 + n = 12" using Suc.prems(1) by simp
    ultimately obtain m' leap' where "month_loop n (m + 1) ?leap yd yo = (m', leap')" "m' \<le> 12"
        "month_reached l yd m' leap'" "m' < 12 \<longrightarrow> yd < MONTH_START_OFFSET ! m' + leap'"
      using Suc.IH by blast
    then show ?thesis using True by simp
  next
    case False
    then show ?thesis using Suc.prems by auto
  qed
qed

lemma month_lengths:
  assumes "m < 12" "1 \<le> m" shows "MONTH_START_OFFSET ! m \<le> MONTH_START_OFFSET ! (m - 1) + 31"
proof -
  have "list_all (\<lambda>m. MONTH_START_OFFSET ! m \<le> MONTH_START_OFFSET ! (m - 1) + 31) [1..<12]" by code_simp
  then show ?thesis using assms by (simp add: list_all_iff)
qed

lemma month_loop_bounds:
  assumes "yd < 365 + l" "l = (if yo mod 4 = 0 then 1 else 0)"
  obtains m leap where "month_loop 12 0 0 yd yo = (m, leap)" "1 \<le> m" "m \<le> 12" "2 < m \<longrightarrow> leap = l"
    "MONTH_START_OFFSET ! (m - 1) + (if 2 < m then l else 0) \<le> yd"
    "yd < MONTH_START_OFFSET ! (m - 1) + (if 2 < m then l else 0) + 31"
proof -
  have "month_reached l yd 0 0" by (simp add: month_reached_def)
  with month_loop_stops [of 0 12 l yd 0 yo] assms(2)
  obtain m leap where found: "month_loop 12 0 0 yd yo = (m, leap)" "m \<le> 12" "month_reached l yd m leap"
      "m < 12 \<longrightarrow> yd < MONTH_START_OFFSET ! m + leap" by auto
  have m: "month_loop 12 0 0 yd yo = (m, leap)" "m \<le> 12" "leap = (if m < 2 then 0 else l)"
      "1 \<le> m \<longrightarrow> MONTH_START_OFFSET ! (m - 1) + (if 2 < m then l else 0) \<le> yd"
      "m < 12 \<longrightarrow> yd < MONTH_START_OFFSET ! m + leap"
    using found by (simp_all add: month_reached_def)
  have pos: "1 \<le> m" using m(3,5) by (cases m) (auto simp: MONTH_START_OFFSET_def)
  have "yd < MONTH_START_OFFSET ! (m - 1) + (if 2 < m then l else 0) + 31"
  proof (cases "m = 12")
    case True
    then show ?thesis using assms by (simp add: MONTH_START_OFFSET_def)
  next
    case False
    then have yd: "m < 12" "yd < MONTH_START_OFFSET ! m + leap" using m(2,5) by simp_all
    consider "m = 1" | "m = 2" | "2 < m" using pos by linarith
    then show ?thesis
    proof cases
      case 1
      then show ?thesis using yd(2) m(3) by (simp add: MONTH_START_OFFSET_def)
    next
      case 2
      have "l \<le> 1" using assms(2) by simp
      then show ?thesis using 2 yd(2) m(3) by (simp add: MONTH_START_OFFSET_def)
    next
      case 3
      then show ?thesis using yd m(3) month_lengths [OF yd(1) pos] by simp
    qed
  qed
  then show thesis using that m pos by (auto split: if_splits)
qed

section \<open>Decoding and encoding\<close>

text \<open>The year of a day within four years, and the day within that year.\<close>

lemma quadrennial_cases:
  assumes "r < 1461" "y = r * 100 div 36525" "yd = (if 365 < r then (r - 366) mod 365 else r)"
  shows "y < 4" "r = y * 365 + (if 0 < y then 1 else 0) + yd" "yd < 365 + (if y = 0 then 1 else (0 :: nat))"
proof -
  consider "r < 366" | "366 \<le> r" "r < 731" | "731 \<le> r" "r < 1096" | "1096 \<le> r" using assms(1) by linarith
  then have "y < 4 \<and> r = y * 365 + (if 0 < y then 1 else 0) + yd \<and> yd < 365 + (if y = 0 then 1 else 0)"
  proof cases
    case 1
    then have "y = 0" unfolding assms(2) by simp
    then show ?thesis using 1 by (simp add: assms(3))
  next
    case 2
    then have "y = 1" "(r - 366) mod 365 = r - 366" unfolding assms(2) by (linarith, simp)
    then show ?thesis using 2 by (simp add: assms(3))
  next
    case 3
    then have "y = 2" unfolding assms(2) by linarith
    moreover have "(r - 366) mod 365 = r - 731" using 3 mod_mult_self1 [of "r - 731" 1 365] by simp
    ultimately show ?thesis using 3 by (simp add: assms(3))
  next
    case 4
    then have "y = 3" unfolding assms(2) using assms(1) by linarith
    moreover have "(r - 366) mod 365 = r - 1096" using 4 assms(1) mod_mult_self1 [of "r - 1096" 2 365] by simp
    ultimately show ?thesis using 4 assms(1) by (simp add: assms(3))
  qed
  then show "y < 4" "r = y * 365 + (if 0 < y then 1 else 0) + yd" "yd < 365 + (if y = 0 then 1 else (0 :: nat))" by blast+
qed

lemma year_of_days: "(D :: nat) * 100 div 36525 = D div 1461 * 4 + D mod 1461 * 100 div 36525"
proof -
  have "D * 100 = D mod 1461 * 100 + 36525 * (D div 1461 * 4)"
    using mult_div_mod_eq [of 1461 D] by linarith
  then show ?thesis by (simp only: div_mult_self2)
qed

lemma leap_years: "y < 120 \<Longrightarrow> is_leap_year (of_nat y + 1980) \<longleftrightarrow> y mod 4 = 0"
proof -
  assume y: "y < 120"
  then have "unat (of_nat y + 1980 :: u16) = y + 1980" by (subst unat_add_small) (simp_all add: unat_of_nat_small)
  moreover have "(y + 1980) mod 100 \<noteq> 0" if "y \<noteq> 20"
  proof
    assume "(y + 1980) mod 100 = 0"
    then obtain k where "y + 1980 = 100 * k" by (auto simp: mod_eq_0_iff_dvd)
    then have "k = 20" using y by linarith
    then show False using \<open>y + 1980 = 100 * k\<close> that by simp
  qed
  moreover have "(y + 1980) mod 4 = y mod 4" using mod_mult_self1 [of y 495 4] by simp
  ultimately show ?thesis by (cases "y = 20") (simp_all add: is_leap_year_def)
qed

lemma of_nat_div_word: "n < 2 ^ 32 \<Longrightarrow> (of_nat n :: u32) div 4 = of_nat (n div 4)" "n < 2 ^ 32 \<Longrightarrow> (of_nat n :: u32) mod 4 = of_nat (n mod 4)"
  by (simp_all add: word_unat_eq_iff unat_div unat_mod unat_of_nat_small)

text \<open>Encoding a valid date, as one sum.\<close>

lemma encode_fields:
  assumes "y < 120" "1 \<le> m" "m \<le> 12" "1 \<le> d" "d < 32" "h < 24" "mi < 60" "s < 60"
  shows "encode_timestamp (of_nat y + 1980) (of_nat m) (of_nat d) (of_nat h) (of_nat mi) (of_nat s) =
    of_nat ((y div 4 * 1461 + (y mod 4 * 365 + (if 0 < y mod 4 then 1 else 0)) +
      (MONTH_START_OFFSET ! (m - 1) + (if 2 < m then (if y mod 4 = 0 then 1 else 0) else 0) + d - 1)) * 86400 +
      (h * 3600 + mi * 60 + s))"
proof -
  have u: "unat (of_nat n :: u16) = n" if "n < 2 ^ 16" for n using that by (intro unat_of_nat_small) simp
  have year: "unat (of_nat y + 1980 :: u16) = y + 1980" using assms(1) by (subst unat_add_small) (simp_all add: u)
  have guard: "\<not> (of_nat y + 1980 < (1980 :: u16))" "of_nat m \<noteq> (0 :: u16)" "\<not> 12 < (of_nat m :: u16)"
    using assms(2,3) by (simp_all add: word_less_nat_alt word_unat_eq_iff year u)
  have month: "unat (of_nat m :: u16) = m" "2 < (of_nat m :: u16) \<longleftrightarrow> 2 < m"
    using assms(3) by (simp_all add: word_less_nat_alt u)
  have fields: "ucast (of_nat n :: u16) = (of_nat n :: u32)" if "n < 2 ^ 16" for n
    using u [OF that] by (metis of_nat_unat)
  have rem: "0 < (of_nat (y mod 4) :: u32) \<longleftrightarrow> 0 < y mod 4"
    by (simp add: word_less_nat_alt unat_of_nat_small)
  have small: "y < 2 ^ 32" "y < 2 ^ 16" "d < 2 ^ 16" "h < 2 ^ 16" "mi < 2 ^ 16" "s < 2 ^ 16" using assms by simp_all
  have yr: "ucast (of_nat y + 1980 - 1980 :: u16) = (of_nat y :: u32)" using fields [OF small(2)] by simp
  have one: "(of_nat d :: u32) - 1 = of_nat (d - 1)" using assms(4) by (simp add: of_nat_diff)
  have day: "MONTH_START_OFFSET ! (m - 1) + (if 2 < m then (if y mod 4 = 0 then 1 else 0) else 0) + d - 1 =
      MONTH_START_OFFSET ! (m - 1) + (if 2 < m then (if y mod 4 = 0 then 1 else 0) else 0) + (d - 1)"
    using assms(4) by simp
  show ?thesis
    unfolding encode_timestamp_def Let_def yr of_nat_div_word [OF small(1)] fields [OF small(3)] fields [OF small(4)]
      fields [OF small(5)] fields [OF small(6)] month rem one day
    using guard leap_years [OF assms(1)] by (simp add: add_ac)
qed

definition reencode :: "file_date \<times> file_time \<Rightarrow> u32" where
  "reencode p = encode_timestamp (get_year (fst p)) (get_month (fst p)) (get_day (fst p))
     (get_hours (snd p)) (get_minutes (snd p)) (get_seconds (snd p))"

lemma unpack_date:
  assumes "y < 120" "m \<le> 12" "d < 32"
  shows "get_year (file_date_from_parts (of_nat y + 1980) (of_nat m) (of_nat d)) = of_nat y + 1980"
    "get_month (file_date_from_parts (of_nat y + 1980) (of_nat m) (of_nat d)) = of_nat m"
    "get_day (file_date_from_parts (of_nat y + 1980) (of_nat m) (of_nat d)) = of_nat d"
proof -
  have u: "unat (of_nat n :: u8) = n" "unat (of_nat n :: u16) = n" if "n < 120" for n
    using that by (simp_all add: unat_of_nat_small)
  have c: "(ucast (of_nat n :: u8) :: u16) = of_nat n" if "n < 120" for n
    using u [OF that] by (metis of_nat_unat)
  show "get_year (file_date_from_parts (of_nat y + 1980) (of_nat m) (of_nat d)) = of_nat y + 1980"
    using date_year [of "of_nat y"] u(2) assms(1) by simp
  have "of_nat m AND mask 4 = (of_nat m :: u16)" "of_nat d AND mask 5 = (of_nat d :: u16)"
    using assms u(2) by (simp_all add: and_field)
  moreover have "(0xf :: u16) = mask 4" "(0x1f :: u16) = mask 5" by (simp_all add: mask_eq_exp_minus_1)
  moreover have "(ucast (of_nat m :: u8) :: u16) = of_nat m" "(ucast (of_nat d :: u8) :: u16) = of_nat d"
    using c assms by simp_all
  ultimately show "get_month (file_date_from_parts (of_nat y + 1980) (of_nat m) (of_nat d)) = of_nat m"
      "get_day (file_date_from_parts (of_nat y + 1980) (of_nat m) (of_nat d)) = of_nat d"
    unfolding date_fields by simp_all
qed

lemma unpack_time:
  assumes "h < 24" "mi < 60" "s < 60"
  shows "get_hours (file_time_from_parts (of_nat h) (of_nat mi) (of_nat s)) = of_nat h"
    "get_minutes (file_time_from_parts (of_nat h) (of_nat mi) (of_nat s)) = of_nat mi"
    "get_seconds (file_time_from_parts (of_nat h) (of_nat mi) (of_nat s)) = of_nat (s div 2 * 2)"
proof -
  have u: "unat (of_nat n :: u8) = n" if "n < 60" for n using that by (simp add: unat_of_nat_small)
  have c: "(ucast (of_nat n :: u8) :: u16) = of_nat n" if "n < 60" for n using u [OF that] by (metis of_nat_unat)
  note f = time_fields [of "of_nat h" "of_nat mi" "of_nat s"]
  show "get_hours (file_time_from_parts (of_nat h) (of_nat mi) (of_nat s)) = of_nat h"
    "get_minutes (file_time_from_parts (of_nat h) (of_nat mi) (of_nat s)) = of_nat mi"
    using f(1,2) assms u c by simp_all
  have "push_bit 1 (drop_bit 1 (of_nat s :: u16)) = of_nat (s div 2 * 2)"
    using assms(3) by (simp add: word_unat_eq_iff push_bit_eq_mult unat_word_ariths unat_of_nat_small)
  then show "get_seconds (file_time_from_parts (of_nat h) (of_nat mi) (of_nat s)) = of_nat (s div 2 * 2)"
    using f(3) assms u c by (simp only:)
qed

lemma clock_sum: "60 * a + c = R \<Longrightarrow> 60 * b + e = a \<Longrightarrow> b * 3600 + e * 60 + c = (R :: nat)"
  by simp

lemma even_part: "a + s = R \<Longrightarrow> b + c = s \<Longrightarrow> a + b = R - (c :: nat)"
  by simp

text \<open>
  (C16) Packing a timestamp into the date and time of a directory entry and reading it back gives the timestamp
  rounded down to an even second, for every second of the years 1980 to 2099.
\<close>

theorem timestamp_roundtrip:
  assumes "unat ts < 43830 * 86400"
  shows "reencode (decode_timestamp ts) = ts - ts mod 2"
proof -
  define D where "D = unat ts div 86400"
  define R where "R = unat ts mod 86400"
  define r where "r = D mod 1461"
  define y where "y = r * 100 div 36525"
  define yd where "yd = (if 365 < r then (r - 366) mod 365 else r)"
  define yo where "yo = D div 1461 * 4 + y"
  define l where "l = (if yo mod 4 = 0 then 1 else 0 :: nat)"
  have D: "D < 43830" using assms by (simp add: D_def less_mult_imp_div_less)
  have q: "y < 4" "r = y * 365 + (if 0 < y then 1 else 0) + yd" "yd < 365 + (if y = 0 then 1 else 0)"
    using quadrennial_cases [OF _ y_def yd_def] by (simp_all add: r_def)
  have yo4: "yo mod 4 = y" "yo div 4 = D div 1461" using q(1) by (simp_all add: yo_def)
  have "D div 1461 < 30" using D by (simp add: less_mult_imp_div_less)
  then have yo: "yo < 120" using q(1) by (simp add: yo_def)
  have l: "yd < 365 + l" using q(3) by (simp add: l_def yo4)
  obtain m leap where m: "month_loop 12 0 0 yd yo = (m, leap)" "1 \<le> m" "m \<le> 12" "2 < m \<longrightarrow> leap = l"
      "MONTH_START_OFFSET ! (m - 1) + (if 2 < m then l else 0) \<le> yd"
      "yd < MONTH_START_OFFSET ! (m - 1) + (if 2 < m then l else 0) + 31"
    using month_loop_bounds [OF l l_def] by blast
  define d where "d = yd + 1 - (MONTH_START_OFFSET ! (m - 1) + (if 2 < m then l else 0))"
  have d: "1 \<le> d" "d < 32" "MONTH_START_OFFSET ! (m - 1) + (if 2 < m then l else 0) + d - 1 = yd"
    using m(5,6) by (simp_all add: d_def)
  have day: "(if 2 < m then yd + 1 - MONTH_START_OFFSET ! (m - 1) - leap else yd + 1 - MONTH_START_OFFSET ! (m - 1)) = d"
    using m(4) by (simp add: d_def)
  define h where "h = R div 60 div 60"
  define mi where "mi = R div 60 mod 60"
  define s where "s = R mod 60"
  have R: "R < 86400" by (simp add: R_def)
  have sum: "h * 3600 + mi * 60 + s = R" unfolding h_def mi_def s_def by (rule clock_sum; simp)
  have "h < 24" using R by (simp add: h_def less_mult_imp_div_less)
  moreover have "mi < 60" "s < 60" by (simp_all add: mi_def s_def)
  ultimately have t: "h < 24" "mi < 60" "s < 60" "h * 3600 + mi * 60 + s = R" using sum by blast+
  have yo': "D * 100 div 36525 = yo" unfolding yo_def y_def r_def by (rule year_of_days)
  have r4: "D mod (365 + 365 + 365 + 366) = D mod 1461" by simp
  have dec: "decode_timestamp ts = (file_date_from_parts (of_nat yo + 1980) (of_nat m) (of_nat d),
      file_time_from_parts (of_nat h) (of_nat mi) (of_nat s))"
    unfolding decode_timestamp_def Let_def D_def [symmetric] R_def [symmetric] yo' r4 r_def [symmetric] yd_def [symmetric]
      h_def [symmetric] mi_def [symmetric] s_def [symmetric] m(1) prod.case day ..
  have s2: "s div 2 * 2 < 60" using t(3) by simp
  have "D div 1461 * 1461 + r = D" by (simp add: r_def)
  then have days: "yo div 4 * 1461 + (yo mod 4 * 365 + (if 0 < yo mod 4 then 1 else 0)) +
      (MONTH_START_OFFSET ! (m - 1) + (if 2 < m then (if yo mod 4 = 0 then 1 else 0) else 0) + d - 1) = D"
    unfolding l_def [symmetric] unfolding d(3) unfolding yo4 using q(2) by (simp only: add.assoc)
  have secs: "h * 3600 + mi * 60 + s div 2 * 2 = R - s mod 2" by (rule even_part [OF t(4)]) simp
  have ts: "unat ts = D * 86400 + R" by (simp add: D_def R_def)
  then have "unat ts = s + 2 * (D * 43200 + h * 1800 + mi * 30)" using t(4) by simp
  then have parity: "unat ts mod 2 = s mod 2" by (simp only: mod_mult_self2)
  have "reencode (decode_timestamp ts) = of_nat (D * 86400 + (R - s mod 2))"
    unfolding reencode_def dec fst_conv snd_conv unpack_date [OF yo m(3) d(2)] unpack_time [OF t(1-3)]
      encode_fields [OF yo m(2,3) d(1,2) t(1,2) s2] days secs ..
  moreover have "s mod 2 \<le> R" using t(4) mod_less_eq_dividend [of s 2] by linarith
  moreover have "ts - ts mod 2 = of_nat (unat ts - unat ts mod 2)"
    by (simp add: word_unat_eq_iff unat_sub unat_mod word_le_nat_alt unat_of_nat_small)
  ultimately show ?thesis unfolding ts [symmetric] parity by (simp add: ts)
qed

theorem timestamp_roundtrip_witness:
  "reencode (decode_timestamp 1388534401) = 1388534400"
proof -
  have "unat (1388534401 :: u32) < 43830 * 86400" by simp
  from timestamp_roundtrip [OF this] show ?thesis by simp
qed

lemma month_loop_numeral:
  "month_loop (numeral k) m leap yd yo =
     (if MONTH_START_OFFSET ! m + leap \<le> yd
      then month_loop (pred_numeral k) (m + 1) (if m + 1 = 2 \<and> yo mod 4 = 0 then 1 else leap) yd yo else (m, leap))"
  by (simp add: numeral_eq_Suc)

text \<open>
  The year 2100 has no leap day, but decoding gives it one and encoding does not: the second of
  March 2100, day 43890 of the count, decodes to the first of March and comes back as day 43889.
\<close>

theorem timestamp_2100_loses_a_day:
  "decode_timestamp 3792096000 = (file_date_from_parts 2100 3 1, 0) \<and>
   reencode (decode_timestamp 3792096000) = 3792096000 - 86400"
proof -
  have "month_loop 12 0 0 60 120 = (3, 1)" by (simp add: month_loop_numeral MONTH_START_OFFSET_def)
  then have dec: "decode_timestamp 3792096000 = (file_date_from_parts 2100 3 1, 0)"
    by (simp add: decode_timestamp_def Let_def MONTH_START_OFFSET_def file_time_from_parts_def)
  show ?thesis unfolding dec
    by (simp add: reencode_def file_date_from_parts_def get_year_def get_month_def get_day_def get_hours_def
        get_minutes_def get_seconds_def encode_timestamp_def is_leap_year_def MONTH_START_OFFSET_def)
qed

end
