(* ===== verification/Fat_Names.thy ===== *)
theory Fat_Names
  imports Fat_Time Byte_Order
begin

text \<open>
  Directory entries of the FAT driver and their names (\<^verbatim>\<open>DirEntry\<close> and the name functions of
  \<^verbatim>\<open>components/drivers/fatdriver/src/dir.rs\<close>): the packed structure of 32 bytes, names of eight and three
  characters padded with blanks, and their comparison, which ignores the case of ASCII letters.

  A \<^verbatim>\<open>str\<close> is the list of its bytes; \<open>valid_utf8\<close> is the check of \<^verbatim>\<open>core::str::from_utf8\<close>.
\<close>

section \<open>Entries\<close>

record dir_entry =
  file_name :: "u8 list"
  de_ext :: "u8 list"
  de_attributes :: u8
  nonstandard_attributes :: u8
  fine_create_time :: u8
  creation_time :: file_time
  creation_date :: file_date
  access_date :: file_date
  extended_attributes :: u16
  last_modify_time :: file_time
  last_modify_date :: file_date
  first_file_cluster :: u16
  byte_size :: u32

definition dir_entry_new :: dir_entry where
  "dir_entry_new = \<lparr>file_name = replicate 8 0x20, de_ext = replicate 3 0x20, de_attributes = 0,
     nonstandard_attributes = 0, fine_create_time = 0, creation_time = 0, creation_date = 0, access_date = 0,
     extended_attributes = 0, last_modify_time = 0, last_modify_date = 0, first_file_cluster = 0, byte_size = 0\<rparr>"

text \<open>The packed layout in memory and on disk.\<close>

definition entry_bytes :: "dir_entry \<Rightarrow> u8 list" where
  "entry_bytes e = file_name e @ de_ext e @ [de_attributes e, nonstandard_attributes e, fine_create_time e] @
     le16_bytes (creation_time e) @ le16_bytes (creation_date e) @ le16_bytes (access_date e) @
     le16_bytes (extended_attributes e) @ le16_bytes (last_modify_time e) @ le16_bytes (last_modify_date e) @
     le16_bytes (first_file_cluster e) @ le32_bytes (byte_size e)"

definition entry_of_bytes :: "u8 list \<Rightarrow> dir_entry" where
  "entry_of_bytes bs = \<lparr>file_name = take 8 bs, de_ext = take 3 (drop 8 bs), de_attributes = bs ! 11,
     nonstandard_attributes = bs ! 12, fine_create_time = bs ! 13,
     creation_time = le16 (bs ! 14) (bs ! 15), creation_date = le16 (bs ! 16) (bs ! 17),
     access_date = le16 (bs ! 18) (bs ! 19), extended_attributes = le16 (bs ! 20) (bs ! 21),
     last_modify_time = le16 (bs ! 22) (bs ! 23), last_modify_date = le16 (bs ! 24) (bs ! 25),
     first_file_cluster = le16 (bs ! 26) (bs ! 27),
     byte_size = le32 (bs ! 28) (bs ! 29) (bs ! 30) (bs ! 31)\<rparr>"

definition is_empty :: "dir_entry \<Rightarrow> bool" where
  "is_empty e \<longleftrightarrow> (file_name e ! 0 = 0x00 \<or> file_name e ! 0 = 0xe5)"

definition is_directory :: "dir_entry \<Rightarrow> bool" where
  "is_directory e \<longleftrightarrow> de_attributes e AND 0x10 \<noteq> 0"

definition mark_deleted :: "dir_entry \<Rightarrow> dir_entry" where
  "mark_deleted e = e\<lparr>file_name := (file_name e)[0 := 0xE5]\<rparr>"

definition get_modification_timestamp :: "dir_entry \<Rightarrow> u32" where
  "get_modification_timestamp e =
     (let mod_time = last_modify_time e; mod_date = last_modify_date e
      in encode_timestamp (get_year mod_date) (get_month mod_date) (get_day mod_date)
           (get_hours mod_time) (get_minutes mod_time) (get_seconds mod_time))"

section \<open>Names\<close>

fun valid_utf8 :: "u8 list \<Rightarrow> bool" where
  "valid_utf8 [] \<longleftrightarrow> True"
| "valid_utf8 (a # bs) \<longleftrightarrow>
     (if a < 0x80 then valid_utf8 bs
      else case bs of
        [] \<Rightarrow> False
      | b # cs \<Rightarrow>
          if 0xC2 \<le> a \<and> a \<le> 0xDF then 0x80 \<le> b \<and> b \<le> 0xBF \<and> valid_utf8 cs
          else case cs of
            [] \<Rightarrow> False
          | c # ds \<Rightarrow>
              if 0xE0 \<le> a \<and> a \<le> 0xEF
              then (if a = 0xE0 then 0xA0 else 0x80) \<le> b \<and> b \<le> (if a = 0xED then 0x9F else 0xBF) \<and>
                   0x80 \<le> c \<and> c \<le> 0xBF \<and> valid_utf8 ds
              else case ds of
                [] \<Rightarrow> False
              | e # es \<Rightarrow>
                  0xF0 \<le> a \<and> a \<le> 0xF4 \<and>
                  (if a = 0xF0 then 0x90 else 0x80) \<le> b \<and> b \<le> (if a = 0xF4 then 0x8F else 0xBF) \<and>
                  0x80 \<le> c \<and> c \<le> 0xBF \<and> 0x80 \<le> e \<and> e \<le> 0xBF \<and> valid_utf8 es)"

definition get_filename :: "dir_entry \<Rightarrow> u8 list" where
  "get_filename e =
     (let name = takeWhile (\<lambda>b. b \<noteq> 0x20) (take 8 (file_name e))
      in if valid_utf8 name then name else replicate 8 0x21)"

definition get_ext :: "dir_entry \<Rightarrow> u8 list" where
  "get_ext e =
     (let name = takeWhile (\<lambda>b. b \<noteq> 0x20) (take 3 (de_ext e))
      in if valid_utf8 name then name else replicate 3 0x21)"

definition get_full_name :: "dir_entry \<Rightarrow> u8 list" where
  "get_full_name e = get_filename e @ (if de_ext e ! 0 \<noteq> 0x20 then 0x2E # get_ext e else [])"

definition ascii_char_matches :: "u8 \<Rightarrow> u8 \<Rightarrow> bool" where
  "ascii_char_matches a b \<longleftrightarrow>
     (if 0x40 < a \<and> a < 0x5b then a = b \<or> a + 0x20 = b
      else if 0x60 < a \<and> a < 0x7b then a = b \<or> a = b + 0x20
      else a = b)"

definition matches_name :: "u8 list \<Rightarrow> u8 list \<Rightarrow> dir_entry \<Rightarrow> bool" where
  "matches_name filename ext e \<longleftrightarrow>
     list_all (\<lambda>i. ascii_char_matches (file_name e ! i) (filename ! i)) [0..<8] \<and>
     list_all (\<lambda>i. ascii_char_matches (de_ext e ! i) (ext ! i)) [0..<3]"

fun rsplit_once :: "u8 \<Rightarrow> u8 list \<Rightarrow> (u8 list \<times> u8 list) option" where
  "rsplit_once c [] = None"
| "rsplit_once c (x # xs) =
     (case rsplit_once c xs of
        Some (a, b) \<Rightarrow> Some (x # a, b)
      | None \<Rightarrow> if x = c then Some ([], xs) else None)"

definition split_name :: "u8 list \<Rightarrow> u8 list \<times> u8 list" where
  "split_name name = (case rsplit_once 0x2E name of Some pair \<Rightarrow> pair | None \<Rightarrow> (name, []))"

definition pad :: "nat \<Rightarrow> u8 list \<Rightarrow> u8 list" where
  "pad n xs = take n xs @ replicate (n - length xs) 0x20"

definition to_ascii_uppercase :: "u8 \<Rightarrow> u8" where
  "to_ascii_uppercase b = (if 0x61 \<le> b \<and> b \<le> 0x7A then b - 0x20 else b)"

definition parse_short_name :: "u8 list \<Rightarrow> u8 list \<times> u8 list" where
  "parse_short_name name =
     (let (filename, ext) = split_name name
      in (pad 8 (map to_ascii_uppercase filename), pad 3 (map to_ascii_uppercase ext)))"

section \<open>The layout is one to one\<close>

definition entry_ok :: "dir_entry \<Rightarrow> bool" where
  "entry_ok e \<longleftrightarrow> length (file_name e) = 8 \<and> length (de_ext e) = 3"

lemma length_entry_bytes: "entry_ok e \<Longrightarrow> length (entry_bytes e) = 32"
  by (simp add: entry_ok_def entry_bytes_def)

lemma list8: "length xs = 8 \<Longrightarrow> \<exists>a b c d e f g h. xs = [a, b, c, d, e, f, g, h]"
  by (auto simp: length_Suc_conv numeral_eq_Suc)

lemma list3: "length xs = 3 \<Longrightarrow> \<exists>a b c. xs = [a, b, c]"
  by (auto simp: length_Suc_conv numeral_eq_Suc)

lemma entry_of_bytes_ok: "length bs = 32 \<Longrightarrow> entry_ok (entry_of_bytes bs)"
  by (simp add: entry_ok_def entry_of_bytes_def)

lemma entry_roundtrip: "entry_ok e \<Longrightarrow> entry_of_bytes (entry_bytes e) = e"
proof -
  assume e: "entry_ok e"
  obtain a b c d f g h i where n: "file_name e = [a, b, c, d, f, g, h, i]" using e list8 [of "file_name e"] by (auto simp: entry_ok_def)
  obtain x y z where x: "de_ext e = [x, y, z]" using e list3 [of "de_ext e"] by (auto simp: entry_ok_def)
  show ?thesis
    by (rule dir_entry.equality)
      (simp_all add: entry_of_bytes_def entry_bytes_def n x le16_bytes_def le32_bytes_def)
qed

section \<open>Names match up to the case of ASCII letters\<close>

lemma upper_unat:
  "unat (to_ascii_uppercase b) = (if 0x61 \<le> unat b \<and> unat b \<le> 0x7A then unat b - 0x20 else unat b)"
proof (cases "0x61 \<le> b \<and> b \<le> 0x7A")
  case True
  then have "unat (b - 0x20) = unat b - 0x20" by (intro unat_sub [THEN trans]) (auto simp: word_le_nat_alt)
  then show ?thesis using True by (simp add: to_ascii_uppercase_def word_le_nat_alt)
next
  case False
  then show ?thesis by (auto simp: to_ascii_uppercase_def word_le_nat_alt)
qed

lemma ascii_char_matches_upper: "ascii_char_matches a b \<longleftrightarrow> to_ascii_uppercase a = to_ascii_uppercase b"
proof -
  have plus: "unat (w + 0x20) = unat w + 0x20" if "unat w < 0x80" for w :: u8 using that by (subst unat_add_small) simp_all
  have lower: "a = b + 0x20 \<longleftrightarrow> unat a = unat b + 0x20" if "0x60 < unat a" "unat a < 0x7b"
  proof (cases "unat b < 0x80")
    case True
    then show ?thesis by (simp add: word_unat_eq_iff plus)
  next
    case False
    have "unat b < 2 ^ LENGTH(8)" by (rule unsigned_less)
    then have "unat (b + 0x20) = (if unat b < 0xE0 then unat b + 0x20 else unat b - 0xE0)"
      by (simp add: unat_word_ariths mod_if)
    then have "unat (b + 0x20) \<noteq> unat a" "unat b + 0x20 \<noteq> unat a" using False that \<open>unat b < 2 ^ LENGTH(8)\<close> by auto
    then show ?thesis by (auto simp: word_unat_eq_iff)
  qed
  show ?thesis
  proof (cases "0x40 < unat a \<and> unat a < 0x5b")
    case True
    then show ?thesis
      using plus [of a] by (auto simp: ascii_char_matches_def word_less_nat_alt word_unat_eq_iff upper_unat)
  next
    case up: False
    show ?thesis
    proof (cases "0x60 < unat a \<and> unat a < 0x7b")
      case True
      then show ?thesis using up lower
        by (auto simp: ascii_char_matches_def word_less_nat_alt upper_unat word_unat_eq_iff [of "to_ascii_uppercase a"]
            word_unat_eq_iff [of a b])
    next
      case False
      then show ?thesis using up
        by (auto simp: ascii_char_matches_def word_less_nat_alt upper_unat word_unat_eq_iff)
    qed
  qed
qed

lemma matches_name_upper:
  assumes "entry_ok e" "length filename = 8" "length ext = 3"
  shows "matches_name filename ext e \<longleftrightarrow> map to_ascii_uppercase (file_name e) = map to_ascii_uppercase filename \<and>
    map to_ascii_uppercase (de_ext e) = map to_ascii_uppercase ext"
proof -
  have "list_all (\<lambda>i. ascii_char_matches (xs ! i) (ys ! i)) [0..<n] \<longleftrightarrow> map to_ascii_uppercase xs = map to_ascii_uppercase ys"
    if "length xs = n" "length ys = n" for xs ys n
    using that by (simp add: list_eq_iff_nth_eq list_all_iff ascii_char_matches_upper Ball_def)
  then show ?thesis using assms by (simp add: matches_name_def entry_ok_def)
qed

section \<open>A listed name parses back\<close>

text \<open>A character of a short name: ASCII, no blank, no dot, no lower case letter.\<close>

definition name_char :: "u8 \<Rightarrow> bool" where
  "name_char b \<longleftrightarrow> b < 0x80 \<and> b \<noteq> 0x20 \<and> b \<noteq> 0x2E \<and> \<not> (0x61 \<le> b \<and> b \<le> 0x7A)"

lemma ascii_valid_utf8: "list_all (\<lambda>b. b < 0x80) bs \<Longrightarrow> valid_utf8 bs"
  by (induction bs) auto

lemma rsplit_once_None: "c \<notin> set xs \<Longrightarrow> rsplit_once c xs = None"
  by (induction xs) auto

lemma rsplit_once_last: "c \<notin> set ys \<Longrightarrow> rsplit_once c (xs @ c # ys) = Some (xs, ys)"
  by (induction xs) (auto simp: rsplit_once_None)

lemma takeWhile_pad: "length xs \<le> n \<Longrightarrow> 0x20 \<notin> set xs \<Longrightarrow> takeWhile (\<lambda>b. b \<noteq> 0x20) (pad n xs) = xs"
  by (auto simp: pad_def takeWhile_append takeWhile_replicate)

lemma map_upper_name: "list_all name_char xs \<Longrightarrow> map to_ascii_uppercase xs = xs"
  by (induction xs) (auto simp: name_char_def to_ascii_uppercase_def)

lemma length_pad [simp]: "length (pad n xs) = n"
  by (simp add: pad_def)

lemma name_chars:
  assumes "list_all name_char xs"
  shows "0x20 \<notin> set xs" "0x2E \<notin> set xs" "valid_utf8 xs"
  using assms ascii_valid_utf8 [of xs] by (auto simp: list_all_iff name_char_def)

text \<open>
  (C19) The name a directory listing prints for an entry parses back to the entry's own short name, for every
  name of upper case ASCII characters without blanks and dots, with and without an extension.
\<close>

theorem listed_name_parses_back:
  assumes "file_name e = pad 8 n" "de_ext e = pad 3 x" "length n \<le> 8" "length x \<le> 3"
    "list_all name_char n" "list_all name_char x"
  shows "parse_short_name (get_full_name e) = (file_name e, de_ext e)"
proof -
  note n = name_chars [OF assms(5)] and x = name_chars [OF assms(6)]
  have fn: "get_filename e = n" "get_ext e = x"
    using takeWhile_pad [OF assms(3) n(1)] takeWhile_pad [OF assms(4) x(1)] n(3) x(3)
    by (simp_all add: get_filename_def get_ext_def assms(1,2))
  have first: "de_ext e ! 0 \<noteq> 0x20 \<longleftrightarrow> x \<noteq> []"
    using x(1) by (cases x) (auto simp: assms(2) pad_def)
  have "split_name (get_full_name e) = (n, x)"
    using rsplit_once_last [OF x(2), of n] rsplit_once_None [OF n(2)] first
    by (auto simp: split_name_def get_full_name_def fn)
  then show ?thesis
    by (simp add: parse_short_name_def map_upper_name assms)
qed

theorem listed_name_parses_back_witness:
  "parse_short_name (get_full_name (dir_entry_new\<lparr>file_name := pad 8 [0x41, 0x42], de_ext := pad 3 [0x43]\<rparr>)) =
     (pad 8 [0x41, 0x42], pad 3 [0x43])"
  using listed_name_parses_back
    [of "dir_entry_new\<lparr>file_name := pad 8 [0x41, 0x42], de_ext := pad 3 [0x43]\<rparr>" "[0x41, 0x42]" "[0x43]"]
  by (simp add: name_char_def)

end
