(* ===== verification/Fat_Root.thy ===== *)
theory Fat_Root
  imports Fat_Table Fat_Names
begin

text \<open>
  The root directory of a FAT volume (\<^verbatim>\<open>RootDirectory\<close> and \<^verbatim>\<open>RootDirectoryIter\<close> of
  \<^verbatim>\<open>components/drivers/fatdriver/src/dir.rs\<close>): a fixed array of entries of 32 bytes. Entries are added to the first
  free slot, removed by marking their first byte, and looked up with an iterator.

  \<open>root_slot\<close> reads an entry off the bytes a reader of the disk sees; the operations are stated on these slots.
  The timestamp function handed to \<^verbatim>\<open>add_entry\<close> is represented by the value it returns.
\<close>

section \<open>Reading and writing an entry\<close>

definition read_entry :: "disk_access \<Rightarrow> u32 \<Rightarrow> (disk_access \<times> dir_entry) option" where
  "read_entry disk offset = do {
     (disk, bytes, _) \<leftarrow> read_bytes_from_disk disk offset (entry_bytes dir_entry_new);
     Some (disk, entry_of_bytes bytes)
   }"

definition write_entry_at :: "disk_access \<Rightarrow> u32 \<Rightarrow> dir_entry \<Rightarrow> disk_access option" where
  "write_entry_at disk offset entry = write_bytes_to_disk disk offset (entry_bytes entry)"

definition slot_is_free :: "dir_entry \<Rightarrow> bool" where
  "slot_is_free slot \<longleftrightarrow> file_name slot ! 0 = 0x00 \<or> file_name slot ! 0 = 0xE5"

definition fresh_entry :: "u8 list \<Rightarrow> u8 list \<Rightarrow> u8 \<Rightarrow> u16 \<Rightarrow> u32 \<Rightarrow> dir_entry" where
  "fresh_entry filename ext attributes first_cluster timestamp =
     (let new_entry = dir_entry_new\<lparr>file_name := filename, de_ext := ext, de_attributes := attributes,
            first_file_cluster := first_cluster\<rparr>;
          (fat_date, fat_time) = decode_timestamp timestamp
      in new_entry\<lparr>creation_date := fat_date, creation_time := fat_time, last_modify_date := fat_date,
           last_modify_time := fat_time, access_date := fat_date\<rparr>)"

section \<open>Operations\<close>

record root_directory =
  rd_first_sector :: u32
  rd_max_entries :: u32

fun root_write_loop :: "u32 \<Rightarrow> nat \<Rightarrow> u32 \<Rightarrow> dir_entry \<Rightarrow> disk_access \<Rightarrow> (disk_access \<times> u32 option) option" where
  "root_write_loop dir_offset 0 i entry disk = Some (disk, None)"
| "root_write_loop dir_offset (Suc n) i entry disk = do {
     let offset = dir_offset + i * 32;
     (disk, slot) \<leftarrow> read_entry disk offset;
     (if slot_is_free slot
      then do { disk \<leftarrow> write_entry_at disk offset entry; Some (disk, Some offset) }
      else root_write_loop dir_offset n (i + 1) entry disk)
   }"

definition root_write_entry :: "root_directory \<Rightarrow> dir_entry \<Rightarrow> disk_access \<Rightarrow> (disk_access \<times> u32 option) option" where
  "root_write_entry root entry disk =
     root_write_loop (rd_first_sector root * 512) (unat (rd_max_entries root)) 0 entry disk"

definition root_add_entry ::
  "root_directory \<Rightarrow> u8 list \<Rightarrow> u8 list \<Rightarrow> u8 \<Rightarrow> u16 \<Rightarrow> u32 \<Rightarrow> disk_access \<Rightarrow> (disk_access \<times> u32 option) option" where
  "root_add_entry root filename ext attributes first_cluster timestamp disk =
     root_write_entry root (fresh_entry filename ext attributes first_cluster timestamp) disk"

fun root_remove_loop ::
  "u32 \<Rightarrow> nat \<Rightarrow> u32 \<Rightarrow> u8 list \<Rightarrow> u8 list \<Rightarrow> disk_access \<Rightarrow> (disk_access \<times> dir_entry option) option" where
  "root_remove_loop dir_offset 0 i filename ext disk = Some (disk, None)"
| "root_remove_loop dir_offset (Suc n) i filename ext disk = do {
     let offset = dir_offset + i * 32;
     (disk, entry) \<leftarrow> read_entry disk offset;
     (if file_name entry ! 0 = 0x00 then Some (disk, None)
      else if file_name entry ! 0 = 0xE5 then root_remove_loop dir_offset n (i + 1) filename ext disk
      else if matches_name filename ext entry
      then do { disk \<leftarrow> write_entry_at disk offset (mark_deleted entry); Some (disk, Some entry) }
      else root_remove_loop dir_offset n (i + 1) filename ext disk)
   }"

definition root_remove_entry ::
  "root_directory \<Rightarrow> u8 list \<Rightarrow> u8 list \<Rightarrow> disk_access \<Rightarrow> (disk_access \<times> dir_entry option) option" where
  "root_remove_entry root filename ext disk =
     root_remove_loop (rd_first_sector root * 512) (unat (rd_max_entries root)) 0 filename ext disk"

section \<open>Iteration and lookup\<close>

record root_iter =
  ri_dir_offset :: u32
  ri_current_index :: u32
  ri_max_index :: u32
  ri_current :: dir_entry

definition root_iter_new :: "root_directory \<Rightarrow> disk_access \<Rightarrow> (disk_access \<times> root_iter) option" where
  "root_iter_new root disk = do {
     let dir_offset = rd_first_sector root * 512;
     (disk, current) \<leftarrow> read_entry disk dir_offset;
     Some (disk, \<lparr>ri_dir_offset = dir_offset, ri_current_index = 0, ri_max_index = rd_max_entries root,
                  ri_current = current\<rparr>)
   }"

definition root_next :: "root_iter \<Rightarrow> disk_access \<Rightarrow> (disk_access \<times> root_iter \<times> (dir_entry \<times> u32) option) option" where
  "root_next it disk =
     (if is_empty (ri_current it) then Some (disk, it, None)
      else if ri_max_index it \<le> ri_current_index it + 1 then Some (disk, it, None)
      else do {
        let entry = ri_current it;
        let entry_offset = ri_dir_offset it + ri_current_index it * 32;
        let index = ri_current_index it + 1;
        (disk, current) \<leftarrow> read_entry disk (ri_dir_offset it + index * 32);
        Some (disk, it\<lparr>ri_current_index := index, ri_current := current\<rparr>, Some (entry, entry_offset))
      })"

record fat_file =
  f_dir_entry :: dir_entry
  f_dir_entry_disk_offset :: u32
  cluster_cache :: "u32 list"

datatype directory_type = Dir_Root root_directory | Dir_Subdir dir_entry

record directory =
  dir_type :: directory_type
  entries_fetched :: bool
  dir_entries :: "u8 list"

datatype entity = Entity_Dir directory | Entity_File fat_file

definition file_from_dir_entry :: "dir_entry \<Rightarrow> u32 \<Rightarrow> fat_file" where
  "file_from_dir_entry entry disk_offset =
     \<lparr>f_dir_entry = entry, f_dir_entry_disk_offset = disk_offset, cluster_cache = []\<rparr>"

definition directory_from_dir_entry :: "dir_entry \<Rightarrow> directory" where
  "directory_from_dir_entry entry = \<lparr>dir_type = Dir_Subdir entry, entries_fetched = False, dir_entries = []\<rparr>"

definition directory_from_root_dir :: "root_directory \<Rightarrow> directory" where
  "directory_from_root_dir root = \<lparr>dir_type = Dir_Root root, entries_fetched = False, dir_entries = []\<rparr>"

definition entity_of :: "dir_entry \<Rightarrow> u32 \<Rightarrow> entity" where
  "entity_of entry disk_offset =
     (if is_directory entry then Entity_Dir (directory_from_dir_entry entry)
      else Entity_File (file_from_dir_entry entry disk_offset))"

partial_function (option) root_find_loop ::
  "u8 list \<Rightarrow> u8 list \<Rightarrow> root_iter \<Rightarrow> disk_access \<Rightarrow> (disk_access \<times> entity option) option" where
  "root_find_loop filename ext it disk =
     Option.bind (root_next it disk) (\<lambda>(disk, it, item).
       case item of
         None \<Rightarrow> Some (disk, None)
       | Some (entry, disk_offset) \<Rightarrow>
           if matches_name filename ext entry then Some (disk, Some (entity_of entry disk_offset))
           else root_find_loop filename ext it disk)"

declare root_find_loop.simps [code]

definition root_find_entry :: "root_directory \<Rightarrow> u8 list \<Rightarrow> disk_access \<Rightarrow> (disk_access \<times> entity option) option" where
  "root_find_entry root name disk = do {
     let (filename, ext) = split_name name;
     (disk, it) \<leftarrow> root_iter_new root disk;
     root_find_loop (pad 8 filename) (pad 3 ext) it disk
   }"

text \<open>\<^verbatim>\<open>Directory::read\<close> on the root directory collects the names, each ended by a zero byte.\<close>

partial_function (option) root_names_loop :: "root_iter \<Rightarrow> disk_access \<Rightarrow> u8 list \<Rightarrow> (disk_access \<times> u8 list) option" where
  "root_names_loop it disk entries =
     Option.bind (root_next it disk) (\<lambda>(disk, it, item).
       case item of
         None \<Rightarrow> Some (disk, entries)
       | Some (entry, _) \<Rightarrow> root_names_loop it disk (entries @ get_full_name entry @ [0]))"

declare root_names_loop.simps [code]

definition root_names :: "root_directory \<Rightarrow> disk_access \<Rightarrow> (disk_access \<times> u8 list) option" where
  "root_names root disk = do {
     (disk, it) \<leftarrow> root_iter_new root disk;
     root_names_loop it disk []
   }"

section \<open>Entries on the disk\<close>

definition entry_at :: "(nat \<Rightarrow> u8) \<Rightarrow> nat \<Rightarrow> dir_entry" where
  "entry_at m p = entry_of_bytes (get_bytes m p 32)"

lemma dir_entry_new_ok [simp]: "entry_ok dir_entry_new" "length (entry_bytes dir_entry_new) = 32"
  using length_entry_bytes [of dir_entry_new] by (simp_all add: entry_ok_def dir_entry_new_def)

lemma sectors_entry: "sectors off 32 \<le> 2"
  by (simp add: sectors_def)

lemma read_entry_ok:
  assumes "disk_ready (2 + b) d" "unat off + 543 < 2 ^ 32"
  shows "\<exists>d'. read_entry d off = Some (d', entry_at (disk_view {} d) (unat off)) \<and> disk_ready b d' \<and>
    disk_view {} d' = disk_view {} d"
proof -
  have "disk_ready (sectors off (length (entry_bytes dir_entry_new)) + b) d"
    using sectors_entry [of off] by (intro cached.ok_mono [OF assms(1)]) simp
  then show ?thesis
    using cached.rd_view [of off "entry_bytes dir_entry_new" b d] assms(2) by (auto simp: read_entry_def entry_at_def)
qed

lemma write_entry_at_ok:
  assumes "disk_ready (2 + b) d" "unat off + 543 < 2 ^ 32" "entry_ok e"
  shows "\<exists>d'. write_entry_at d off e = Some d' \<and> disk_ready b d' \<and>
    disk_view {} d' = put_bytes (unat off) (entry_bytes e) (disk_view {} d)"
proof -
  have len: "length (entry_bytes e) = 32" by (rule length_entry_bytes [OF assms(3)])
  have "disk_ready (sectors off (length (entry_bytes e)) + b) d"
    using sectors_entry [of off] by (intro cached.ok_mono [OF assms(1)]) (simp add: len)
  then show ?thesis using cached.wr_view [of off "entry_bytes e" b d] assms(2) by (auto simp: write_entry_at_def len)
qed

lemma entry_at_ok: "entry_ok (entry_at m p)"
  by (simp add: entry_at_def entry_of_bytes_ok)

lemma entry_at_put:
  assumes "entry_ok e" shows "entry_at (put_bytes p (entry_bytes e) m) p = e"
  using cached.get_put_same [of p "entry_bytes e" m] length_entry_bytes [OF assms] entry_roundtrip [OF assms]
  by (simp add: entry_at_def)

lemma entry_at_put_other:
  assumes "entry_ok e" "q + 32 \<le> p \<or> p + 32 \<le> q" shows "entry_at (put_bytes p (entry_bytes e) m) q = entry_at m q"
  using assms length_entry_bytes [OF assms(1)] by (simp add: entry_at_def get_put_disjoint)

section \<open>Arrays of slots\<close>

text \<open>Entries in a row from \<open>base\<close> on, as in the root directory and in a cluster of a directory below it.\<close>

definition slots_ok :: "u32 \<Rightarrow> nat \<Rightarrow> bool" where
  "slots_ok base count \<longleftrightarrow> unat base + count * 32 + 511 < 2 ^ 32"

definition slot_at :: "disk_access \<Rightarrow> u32 \<Rightarrow> nat \<Rightarrow> dir_entry" where
  "slot_at d base j = entry_at (disk_view {} d) (unat base + j * 32)"

lemma slot_at_view: "disk_view {} d' = disk_view {} d \<Longrightarrow> slot_at d' = slot_at d"
  by (intro ext) (simp add: slot_at_def)

lemma slot_at_ok: "entry_ok (slot_at d base j)"
  by (simp add: slot_at_def entry_at_ok)

lemma slot_position:
  assumes "slots_ok base n" "unat i < n"
  shows "unat (base + i * 32) = unat base + unat i * 32" "unat base + unat i * 32 + 543 < 2 ^ 32"
proof -
  show small: "unat base + unat i * 32 + 543 < 2 ^ 32" using assms unfolding slots_ok_def by linarith
  have "unat (i * 32) = unat i * 32" using small by (simp add: unat_word_ariths)
  then show "unat (base + i * 32) = unat base + unat i * 32" using small by (subst unat_add_small) simp_all
qed

lemma read_dir_slot:
  assumes "slots_ok base n" "unat i < n" "disk_ready (2 + b) d"
  shows "\<exists>d'. read_entry d (base + i * 32) = Some (d', slot_at d base (unat i)) \<and> disk_ready b d' \<and> disk_view {} d' = disk_view {} d"
  using read_entry_ok [OF assms(3), of "base + i * 32"] slot_position [OF assms(1,2)] by (simp add: slot_at_def)

lemma write_dir_slot:
  assumes "slots_ok base n" "unat i < n" "disk_ready (2 + b) d" "entry_ok e"
  shows "\<exists>d'. write_entry_at d (base + i * 32) e = Some d' \<and> disk_ready b d' \<and>
    disk_view {} d' = put_bytes (unat base + unat i * 32) (entry_bytes e) (disk_view {} d)"
  using write_entry_at_ok [OF assms(3) _ assms(4), of "base + i * 32"] slot_position [OF assms(1,2)] by simp

lemma slot_at_write:
  assumes "entry_ok e" "disk_view {} d' = put_bytes (unat base + i * 32) (entry_bytes e) (disk_view {} d)"
  shows "slot_at d' base j = (if j = i then e else slot_at d base j)"
proof (cases "j = i")
  case True
  then show ?thesis using entry_at_put [OF assms(1)] by (simp add: slot_at_def assms(2))
next
  case False
  then have "unat base + j * 32 + 32 \<le> unat base + i * 32 \<or> unat base + i * 32 + 32 \<le> unat base + j * 32" by linarith
  then show ?thesis using False entry_at_put_other [OF assms(1)] by (simp add: slot_at_def assms(2))
qed

text \<open>Counting with 32-bit indices below the number of entries.\<close>

lemma unat_index_Suc: "unat (i :: u32) < unat (m :: u32) \<Longrightarrow> unat (i + 1) = Suc (unat i)"
  using unat_less_max32 [of m] by (subst unat_add_small) (simp_all del: unat_less_max32)

lemma slot_index_Suc: "slots_ok base n \<Longrightarrow> unat (i :: u32) < n \<Longrightarrow> unat (i + 1) = Suc (unat i)"
  by (subst unat_add_small) (simp_all add: slots_ok_def)

lemma write_loop_found:
  assumes base: "slots_ok base m" and e: "entry_ok e"
    and "unat i + n = m" "k < n" "slot_is_free (slot_at d base (unat i + k))"
    "\<forall>j < k. \<not> slot_is_free (slot_at d base (unat i + j))" "disk_ready (2 * k + 4 + b) d"
  shows "\<exists>d'. root_write_loop base n i e d = Some (d', Some (base + (i + of_nat k) * 32)) \<and> disk_ready b d' \<and>
    disk_view {} d' = put_bytes (unat base + (unat i + k) * 32) (entry_bytes e) (disk_view {} d)"
  using assms(3-)
proof (induction k arbitrary: n i d)
  case 0
  then obtain n' where n: "n = Suc n'" by (cases n) auto
  have i: "unat i < m" using "0.prems"(1,2) by simp
  have "disk_ready (2 + (2 + b)) d" using "0.prems"(5) by (rule cached.ok_mono) simp
  from read_dir_slot [OF base i this]
  obtain d1 where d1: "read_entry d (base + i * 32) = Some (d1, slot_at d base (unat i))"
      "disk_ready (2 + b) d1" "disk_view {} d1 = disk_view {} d" by blast
  show ?case using write_dir_slot [OF base i d1(2) e] d1 "0.prems"(3) n by (auto simp: Let_def)
next
  case (Suc k)
  then obtain n' where n: "n = Suc n'" by (cases n) auto
  have i: "unat i < m" using Suc.prems(1,2) by simp
  have "disk_ready (2 + (2 * k + 4 + b)) d" using Suc.prems(5) by (rule cached.ok_mono) simp
  from read_dir_slot [OF base i this]
  obtain d1 where d1: "read_entry d (base + i * 32) = Some (d1, slot_at d base (unat i))"
      "disk_ready (2 * k + 4 + b) d1" "disk_view {} d1 = disk_view {} d" by blast
  note slots = slot_at_view [OF d1(3)] and u = slot_index_Suc [OF base i]
  have free: "\<not> slot_is_free (slot_at d base (unat i))" using Suc.prems(4) by auto
  have used: "\<forall>j < k. \<not> slot_is_free (slot_at d1 base (unat (i + 1) + j))"
    using Suc.prems(4) by (auto simp: slots u)
  have "\<exists>d'. root_write_loop base n' (i + 1) e d1 = Some (d', Some (base + (i + 1 + of_nat k) * 32)) \<and> disk_ready b d' \<and>
      disk_view {} d' = put_bytes (unat base + (unat (i + 1) + k) * 32) (entry_bytes e) (disk_view {} d1)"
    using Suc.prems(1-3) n u d1(2) used by (intro Suc.IH) (simp_all add: slots)
  then show ?case using d1 free n u by (auto simp: Let_def add_ac)
qed

lemma write_loop_full:
  assumes base: "slots_ok base m" and "unat i + n = m" "\<forall>j < n. \<not> slot_is_free (slot_at d base (unat i + j))" "disk_ready (2 * n + b) d"
  shows "\<exists>d'. root_write_loop base n i e d = Some (d', None) \<and> disk_ready b d' \<and> disk_view {} d' = disk_view {} d"
  using assms(2-)
proof (induction n arbitrary: i d)
  case (Suc n)
  have i: "unat i < m" using Suc.prems(1) by simp
  have "disk_ready (2 + (2 * n + b)) d" using Suc.prems(3) by simp
  from read_dir_slot [OF base i this]
  obtain d1 where d1: "read_entry d (base + i * 32) = Some (d1, slot_at d base (unat i))"
      "disk_ready (2 * n + b) d1" "disk_view {} d1 = disk_view {} d" by blast
  note slots = slot_at_view [OF d1(3)] and u = slot_index_Suc [OF base i]
  have "\<not> slot_is_free (slot_at d base (unat i))" "\<forall>j < n. \<not> slot_is_free (slot_at d1 base (unat (i + 1) + j))"
    using Suc.prems(2) by (auto simp: slots u)
  then show ?case using Suc.IH [of "i + 1" d1] Suc.prems(1) u d1 by (auto simp: Let_def)
qed auto

section \<open>The slots of the root directory\<close>

definition root_ok :: "root_directory \<Rightarrow> bool" where
  "root_ok root \<longleftrightarrow> 1 \<le> unat (rd_max_entries root) \<and>
     unat (rd_first_sector root) * 512 + unat (rd_max_entries root) * 32 + 511 < 2 ^ 32"

definition root_pos :: "root_directory \<Rightarrow> nat \<Rightarrow> nat" where
  "root_pos root i = unat (rd_first_sector root) * 512 + i * 32"

definition root_slot :: "root_directory \<Rightarrow> disk_access \<Rightarrow> nat \<Rightarrow> dir_entry" where
  "root_slot root d i = entry_at (disk_view {} d) (root_pos root i)"

lemma root_slots:
  assumes "root_ok root"
  shows "slots_ok (rd_first_sector root * 512) (unat (rd_max_entries root))"
    "slot_at d (rd_first_sector root * 512) = root_slot root d"
    "unat (rd_first_sector root * 512) + i * 32 = root_pos root i"
proof -
  have "unat (rd_first_sector root * 512) = unat (rd_first_sector root) * 512"
    using assms by (simp add: root_ok_def unat_word_ariths)
  then show "slots_ok (rd_first_sector root * 512) (unat (rd_max_entries root))"
    "slot_at d (rd_first_sector root * 512) = root_slot root d"
    "unat (rd_first_sector root * 512) + i * 32 = root_pos root i"
    using assms by (simp_all add: root_ok_def slots_ok_def slot_at_def root_slot_def root_pos_def fun_eq_iff)
qed

lemma root_slot_write:
  assumes "entry_ok e" "disk_view {} d' = put_bytes (root_pos root i) (entry_bytes e) (disk_view {} d)"
  shows "root_slot root d' j = (if j = i then e else root_slot root d j)"
proof (cases "j = i")
  case True
  then show ?thesis using entry_at_put [OF assms(1)] by (simp add: root_slot_def assms(2))
next
  case False
  then have "root_pos root j + 32 \<le> root_pos root i \<or> root_pos root i + 32 \<le> root_pos root j"
    by (simp add: root_pos_def) linarith
  then show ?thesis using False entry_at_put_other [OF assms(1)] by (simp add: root_slot_def assms(2))
qed

lemma root_slot_view: "disk_view {} d' = disk_view {} d \<Longrightarrow> root_slot root d' = root_slot root d"
  by (intro ext) (simp add: root_slot_def)

lemma read_root_slot:
  assumes "root_ok root" "unat i < unat (rd_max_entries root)" "disk_ready (2 + b) d"
  shows "\<exists>d'. read_entry d (rd_first_sector root * 512 + i * 32) = Some (d', root_slot root d (unat i)) \<and>
    disk_ready b d' \<and> disk_view {} d' = disk_view {} d"
  using read_dir_slot [OF root_slots(1) assms(2,3)] root_slots(2) assms(1) by simp

lemma write_root_slot:
  assumes "root_ok root" "unat i < unat (rd_max_entries root)" "disk_ready (2 + b) d" "entry_ok e"
  shows "\<exists>d'. write_entry_at d (rd_first_sector root * 512 + i * 32) e = Some d' \<and> disk_ready b d' \<and>
    disk_view {} d' = put_bytes (root_pos root (unat i)) (entry_bytes e) (disk_view {} d)"
  using write_dir_slot [OF root_slots(1) assms(2-)] root_slots(3) assms(1) by simp

lemma root_write_loop_ok:
  assumes root: "root_ok root" and e: "entry_ok e"
    and "unat i + n = unat (rd_max_entries root)" "k < n" "slot_is_free (root_slot root d (unat i + k))"
    "\<forall>j < k. \<not> slot_is_free (root_slot root d (unat i + j))" "disk_ready (2 * k + 4 + b) d"
  shows "\<exists>d'. root_write_loop (rd_first_sector root * 512) n i e d =
      Some (d', Some (rd_first_sector root * 512 + (i + of_nat k) * 32)) \<and> disk_ready b d' \<and>
    disk_view {} d' = put_bytes (root_pos root (unat i + k)) (entry_bytes e) (disk_view {} d)"
  using write_loop_found [OF root_slots(1) [OF root] e assms(3,4), of d b] assms(5-) unfolding root_slots(2,3) [OF root] by blast

section \<open>What the iterator shows\<close>

text \<open>
  The iterator stops at the first free slot, deleted or never used, and leaves out the last slot.
\<close>

definition visible_from :: "root_directory \<Rightarrow> disk_access \<Rightarrow> nat \<Rightarrow> nat list" where
  "visible_from root d i = takeWhile (\<lambda>j. \<not> is_empty (root_slot root d j)) [i..<unat (rd_max_entries root) - 1]"

lemma visible_from_stop:
  "is_empty (root_slot root d i) \<or> unat (rd_max_entries root) \<le> Suc i \<Longrightarrow> visible_from root d i = []"
  by (cases "i < unat (rd_max_entries root) - 1") (auto simp: visible_from_def upt_rec)

lemma visible_from_step:
  "\<not> is_empty (root_slot root d i) \<Longrightarrow> Suc i < unat (rd_max_entries root) \<Longrightarrow>
   visible_from root d i = i # visible_from root d (Suc i)"
  by (simp add: visible_from_def upt_rec [of i])

definition iter_at :: "root_directory \<Rightarrow> disk_access \<Rightarrow> nat \<Rightarrow> root_iter \<Rightarrow> bool" where
  "iter_at root d i it \<longleftrightarrow> ri_dir_offset it = rd_first_sector root * 512 \<and> unat (ri_current_index it) = i \<and>
     ri_max_index it = rd_max_entries root \<and> ri_current it = root_slot root d i \<and> i < unat (rd_max_entries root)"

definition slot_offset :: "root_directory \<Rightarrow> nat \<Rightarrow> u32" where
  "slot_offset root i = rd_first_sector root * 512 + of_nat i * 32"

lemma root_next_ok:
  assumes root: "root_ok root" and it: "iter_at root d i it" and d: "disk_ready (2 + b) d"
  shows "if visible_from root d i = [] then root_next it d = Some (d, it, None)
    else \<exists>d' it'. root_next it d = Some (d', it', Some (root_slot root d i, slot_offset root i)) \<and>
      visible_from root d i = i # visible_from root d (Suc i) \<and>
      iter_at root d' (Suc i) it' \<and> disk_ready b d' \<and> disk_view {} d' = disk_view {} d"
proof -
  have u: "unat (ri_current_index it + 1) = Suc i" "of_nat i = ri_current_index it"
    using unat_index_Suc [of "ri_current_index it" "rd_max_entries root"] it by (auto simp: iter_at_def)
  have stop: "ri_max_index it \<le> ri_current_index it + 1 \<longleftrightarrow> unat (rd_max_entries root) \<le> Suc i"
    using it u by (simp add: word_le_nat_alt iter_at_def)
  show ?thesis
  proof (cases "is_empty (root_slot root d i) \<or> unat (rd_max_entries root) \<le> Suc i")
    case True
    then show ?thesis using visible_from_stop [OF True] it stop by (auto simp: root_next_def iter_at_def)
  next
    case False
    then have i: "unat (ri_current_index it + 1) < unat (rd_max_entries root)" using u by simp
    obtain d1 where d1: "read_entry d (rd_first_sector root * 512 + (ri_current_index it + 1) * 32) =
        Some (d1, root_slot root d (Suc i))" "disk_ready b d1" "disk_view {} d1 = disk_view {} d"
      using read_root_slot [OF root i d] u by auto
    show ?thesis
      using False it stop d1 u i visible_from_step [of root d i]
      by (auto simp: root_next_def iter_at_def slot_offset_def root_slot_view [OF d1(3)])
  qed
qed

lemma root_iter_new_ok:
  assumes "root_ok root" "disk_ready (2 + b) d"
  shows "\<exists>d' it. root_iter_new root d = Some (d', it) \<and> iter_at root d' 0 it \<and> disk_ready b d' \<and> disk_view {} d' = disk_view {} d"
proof -
  have "unat (0 :: u32) < unat (rd_max_entries root)" using assms(1) by (simp add: root_ok_def)
  from read_root_slot [OF assms(1) this assms(2)]
  obtain d' where d': "read_entry d (rd_first_sector root * 512) = Some (d', root_slot root d 0)" "disk_ready b d'"
      "disk_view {} d' = disk_view {} d" by auto
  let ?it = "\<lparr>ri_dir_offset = rd_first_sector root * 512, ri_current_index = 0, ri_max_index = rd_max_entries root,
    ri_current = root_slot root d 0\<rparr>"
  have "root_iter_new root d = Some (d', ?it)" using d'(1) by (simp add: root_iter_new_def)
  moreover have "iter_at root d' 0 ?it"
    using \<open>unat 0 < unat (rd_max_entries root)\<close> by (simp add: iter_at_def root_slot_view [OF d'(3)])
  ultimately show ?thesis using d'(2,3) by blast
qed

lemma visible_view: "disk_view {} d' = disk_view {} d \<Longrightarrow> visible_from root d' = visible_from root d"
  unfolding visible_from_def by (drule root_slot_view [of _ _ root]) simp

lemma root_find_loop_ok:
  assumes "root_ok root" "iter_at root d i it" "disk_ready (2 * length (visible_from root d i) + 2 + b) d"
  shows "\<exists>d'. root_find_loop fn ext it d = Some (d', map_option (\<lambda>j. entity_of (root_slot root d j) (slot_offset root j))
      (find (\<lambda>j. matches_name fn ext (root_slot root d j)) (visible_from root d i))) \<and>
    disk_ready b d' \<and> disk_view {} d' = disk_view {} d"
  using assms(2,3)
proof (induction "length (visible_from root d i)" arbitrary: i it d)
  case 0
  then have "root_next it d = Some (d, it, None)" using root_next_ok [OF assms(1) "0.prems"(1), of b] by simp
  moreover have "disk_ready b d" using "0.prems"(2) by (rule cached.ok_mono) simp
  ultimately show ?case using 0 by (subst root_find_loop.simps) simp
next
  case (Suc n)
  then have ne: "visible_from root d i \<noteq> []" by auto
  have "disk_ready (2 + (2 * n + 2 + b)) d" using Suc.prems(2) Suc.hyps(2) by (auto intro: cached.ok_mono)
  then obtain d1 it1 where nxt: "root_next it d = Some (d1, it1, Some (root_slot root d i, slot_offset root i))"
      "visible_from root d i = i # visible_from root d (Suc i)" "iter_at root d1 (Suc i) it1"
      "disk_ready (2 * n + 2 + b) d1" "disk_view {} d1 = disk_view {} d"
    using root_next_ok [OF assms(1) Suc.prems(1)] ne by (metis (no_types))
  note same = root_slot_view [OF nxt(5), of root] visible_view [OF nxt(5), of root]
  have n: "length (visible_from root d1 (Suc i)) = n" using Suc.hyps(2) nxt(2) by (simp add: same)
  have tail: "\<exists>d'. root_find_loop fn ext it1 d1 = Some (d', map_option (\<lambda>j. entity_of (root_slot root d j) (slot_offset root j))
      (find (\<lambda>j. matches_name fn ext (root_slot root d j)) (visible_from root d (Suc i)))) \<and>
    disk_ready b d' \<and> disk_view {} d' = disk_view {} d"
    using Suc.hyps(1) [OF n [symmetric] nxt(3)] nxt(4,5) n by (simp add: same)
  have "disk_ready b d1" using nxt(4) by (rule cached.ok_mono) simp
  then show ?case using tail nxt(1,2,5) by (subst root_find_loop.simps) auto
qed

definition name_key :: "u8 list \<Rightarrow> dir_entry \<Rightarrow> bool" where
  "name_key name e \<longleftrightarrow> matches_name (pad 8 (fst (split_name name))) (pad 3 (snd (split_name name))) e"

lemma length_visible: "length (visible_from root d i) \<le> unat (rd_max_entries root)"
  using length_takeWhile_le [of _ "[i..<unat (rd_max_entries root) - 1]"] unfolding visible_from_def
  by (rule order_trans) simp

lemma root_find_entry_ok:
  assumes root: "root_ok root" and d: "disk_ready (2 * unat (rd_max_entries root) + 4 + b) d"
  shows "\<exists>d'. root_find_entry root name d = Some (d', map_option (\<lambda>j. entity_of (root_slot root d j) (slot_offset root j))
      (find (\<lambda>j. name_key name (root_slot root d j)) (visible_from root d 0))) \<and>
    disk_ready b d' \<and> disk_view {} d' = disk_view {} d"
proof -
  have "disk_ready (2 + (2 * unat (rd_max_entries root) + 2 + b)) d" using d by (rule cached.ok_mono) simp
  then obtain d1 it where d1: "root_iter_new root d = Some (d1, it)" "iter_at root d1 0 it"
      "disk_ready (2 * unat (rd_max_entries root) + 2 + b) d1" "disk_view {} d1 = disk_view {} d"
    using root_iter_new_ok [OF root] by blast
  note same = root_slot_view [OF d1(4), of root] visible_view [OF d1(4), of root]
  have "disk_ready (2 * length (visible_from root d1 0) + 2 + b) d1"
    using length_visible [of root d1 0] by (intro cached.ok_mono [OF d1(3)]) simp
  from root_find_loop_ok [OF root d1(2) this, of "pad 8 (fst (split_name name))" "pad 3 (snd (split_name name))"]
  show ?thesis using d1(1,4) by (auto simp: root_find_entry_def name_key_def same split: prod.splits)
qed

lemma root_names_loop_ok:
  assumes "root_ok root" "iter_at root d i it" "disk_ready (2 * length (visible_from root d i) + 2 + b) d"
  shows "\<exists>d'. root_names_loop it d acc =
      Some (d', acc @ concat (map (\<lambda>j. get_full_name (root_slot root d j) @ [0]) (visible_from root d i))) \<and>
    disk_ready b d' \<and> disk_view {} d' = disk_view {} d"
  using assms(2,3)
proof (induction "length (visible_from root d i)" arbitrary: i it d acc)
  case 0
  then have "root_next it d = Some (d, it, None)" using root_next_ok [OF assms(1) "0.prems"(1), of b] by simp
  moreover have "disk_ready b d" using "0.prems"(2) by (rule cached.ok_mono) simp
  ultimately show ?case using 0 by (subst root_names_loop.simps) simp
next
  case (Suc n)
  then have ne: "visible_from root d i \<noteq> []" by auto
  have "disk_ready (2 + (2 * n + 2 + b)) d" using Suc.prems(2) Suc.hyps(2) by (auto intro: cached.ok_mono)
  then obtain d1 it1 where nxt: "root_next it d = Some (d1, it1, Some (root_slot root d i, slot_offset root i))"
      "visible_from root d i = i # visible_from root d (Suc i)" "iter_at root d1 (Suc i) it1"
      "disk_ready (2 * n + 2 + b) d1" "disk_view {} d1 = disk_view {} d"
    using root_next_ok [OF assms(1) Suc.prems(1)] ne by (metis (no_types))
  note same = root_slot_view [OF nxt(5), of root] visible_view [OF nxt(5), of root]
  have n: "length (visible_from root d1 (Suc i)) = n" using Suc.hyps(2) nxt(2) by (simp add: same)
  have "\<exists>d'. root_names_loop it1 d1 (acc @ get_full_name (root_slot root d i) @ [0]) =
      Some (d', (acc @ get_full_name (root_slot root d i) @ [0]) @
        concat (map (\<lambda>j. get_full_name (root_slot root d j) @ [0]) (visible_from root d (Suc i)))) \<and>
      disk_ready b d' \<and> disk_view {} d' = disk_view {} d"
    using Suc.hyps(1) [OF n [symmetric] nxt(3), of "acc @ get_full_name (root_slot root d i) @ [0]"] nxt(4,5) n
    by (simp add: same)
  then show ?case using nxt(1,2) by (subst root_names_loop.simps) simp
qed

section \<open>Removing an entry\<close>

text \<open>The slot that \<^verbatim>\<open>remove_entry\<close> acts on: the first used one with the name, before the first slot never used.\<close>

definition remove_at :: "(dir_entry \<Rightarrow> bool) \<Rightarrow> root_directory \<Rightarrow> disk_access \<Rightarrow> nat \<Rightarrow> nat \<Rightarrow> bool" where
  "remove_at key root d i k \<longleftrightarrow> file_name (root_slot root d (i + k)) ! 0 \<noteq> 0x00 \<and> file_name (root_slot root d (i + k)) ! 0 \<noteq> 0xE5 \<and>
     key (root_slot root d (i + k)) \<and>
     (\<forall>j < k. file_name (root_slot root d (i + j)) ! 0 \<noteq> 0x00 \<and>
        (file_name (root_slot root d (i + j)) ! 0 = 0xE5 \<or> \<not> key (root_slot root d (i + j))))"

lemma mark_deleted_ok: "entry_ok e \<Longrightarrow> entry_ok (mark_deleted e)"
  by (simp add: mark_deleted_def entry_ok_def)

lemma root_remove_loop_ok:
  assumes root: "root_ok root"
    and "unat i + n = unat (rd_max_entries root)" "k < n" "remove_at (matches_name fn ext) root d (unat i) k"
    "disk_ready (2 * k + 4 + b) d"
  shows "\<exists>d'. root_remove_loop (rd_first_sector root * 512) n i fn ext d = Some (d', Some (root_slot root d (unat i + k))) \<and>
    disk_ready b d' \<and> disk_view {} d' =
      put_bytes (root_pos root (unat i + k)) (entry_bytes (mark_deleted (root_slot root d (unat i + k)))) (disk_view {} d)"
  using assms(2-)
proof (induction k arbitrary: n i d)
  case 0
  then obtain n' where n: "n = Suc n'" by (cases n) auto
  have i: "unat i < unat (rd_max_entries root)" using "0.prems"(1,2) by simp
  have "disk_ready (2 + (2 + b)) d" using "0.prems"(4) by (rule cached.ok_mono) simp
  from read_root_slot [OF root i this]
  obtain d1 where d1: "read_entry d (rd_first_sector root * 512 + i * 32) = Some (d1, root_slot root d (unat i))"
      "disk_ready (2 + b) d1" "disk_view {} d1 = disk_view {} d" by blast
  have "entry_ok (mark_deleted (root_slot root d (unat i)))" by (simp add: mark_deleted_ok root_slot_def entry_at_ok)
  from write_root_slot [OF root i d1(2) this]
  show ?case using d1 "0.prems"(3) n by (auto simp: Let_def remove_at_def)
next
  case (Suc k)
  then obtain n' where n: "n = Suc n'" by (cases n) auto
  have i: "unat i < unat (rd_max_entries root)" using Suc.prems(1,2) by simp
  have "disk_ready (2 + (2 * k + 4 + b)) d" using Suc.prems(4) by (rule cached.ok_mono) simp
  from read_root_slot [OF root i this]
  obtain d1 where d1: "read_entry d (rd_first_sector root * 512 + i * 32) = Some (d1, root_slot root d (unat i))"
      "disk_ready (2 * k + 4 + b) d1" "disk_view {} d1 = disk_view {} d" by blast
  note slots = root_slot_view [OF d1(3), of root] and u = unat_index_Suc [OF i]
  have skip: "file_name (root_slot root d (unat i)) ! 0 \<noteq> 0x00"
      "file_name (root_slot root d (unat i)) ! 0 = 0xE5 \<or> \<not> matches_name fn ext (root_slot root d (unat i))"
    using Suc.prems(3) by (auto simp: remove_at_def)
  have rest: "remove_at (matches_name fn ext) root d1 (unat (i + 1)) k"
    using Suc.prems(3) unfolding remove_at_def slots u by (metis Suc_less_eq add_Suc add_Suc_right)
  obtain d2 where "root_remove_loop (rd_first_sector root * 512) n' (i + 1) fn ext d1 =
      Some (d2, Some (root_slot root d (unat i + Suc k)))" "disk_ready b d2"
      "disk_view {} d2 = put_bytes (root_pos root (unat i + Suc k))
        (entry_bytes (mark_deleted (root_slot root d (unat i + Suc k)))) (disk_view {} d)"
    using Suc.IH [OF _ _ rest d1(2), of n'] Suc.prems(1,2) n u slots d1(3) by auto
  then show ?case using d1(1) skip n by (auto simp: Let_def)
qed

section \<open>Properties\<close>

lemma is_empty_free: "is_empty e \<longleftrightarrow> slot_is_free e"
  by (simp add: is_empty_def slot_is_free_def)

lemma upper_idem: "to_ascii_uppercase (to_ascii_uppercase b) = to_ascii_uppercase b"
  by (auto simp: word_unat_eq_iff upper_unat)

lemma upper_pad: "map to_ascii_uppercase (pad n (map to_ascii_uppercase xs)) = map to_ascii_uppercase (pad n xs)"
  by (simp add: pad_def take_map upper_idem)

lemma fresh_entry_names:
  "file_name (fresh_entry fn ext a c ts) = fn" "de_ext (fresh_entry fn ext a c ts) = ext"
  by (simp_all add: fresh_entry_def Let_def split: prod.splits)

lemma parsed_lengths: "length (fst (parse_short_name name)) = 8" "length (snd (parse_short_name name)) = 3"
  by (simp_all add: parse_short_name_def split: prod.splits)

lemma fresh_entry_ok: "entry_ok (fresh_entry (fst (parse_short_name name)) (snd (parse_short_name name)) a c ts)"
  by (simp add: entry_ok_def fresh_entry_names parsed_lengths)

lemma fresh_entry_key: "name_key name (fresh_entry (fst (parse_short_name name)) (snd (parse_short_name name)) a c ts)"
  unfolding name_key_def
  by (subst matches_name_upper [OF fresh_entry_ok])
    (simp_all add: fresh_entry_names parse_short_name_def upper_pad split: prod.splits)

lemma upt_at: "i < n \<Longrightarrow> [0..<n] = [0..<i] @ i # [Suc i..<n]"
  using upt_add_eq_append [of 0 i "n - i"] by (simp add: upt_conv_Cons)

lemma visible_reaches:
  assumes "Suc i < unat (rd_max_entries root)" "\<forall>j \<le> i. \<not> is_empty (root_slot root d j)"
  shows "\<exists>rest. visible_from root d 0 = [0..<i] @ i # rest"
proof -
  have "[0..<unat (rd_max_entries root) - 1] = [0..<Suc i] @ [Suc i..<unat (rd_max_entries root) - 1]"
    using upt_at [of i "unat (rd_max_entries root) - 1"] assms(1) by simp
  moreover have "takeWhile (\<lambda>j. \<not> is_empty (root_slot root d j)) ([0..<Suc i] @ ys) =
      [0..<Suc i] @ takeWhile (\<lambda>j. \<not> is_empty (root_slot root d j)) ys" for ys
    using assms(2) by (intro takeWhile_append2) auto
  ultimately show ?thesis by (simp add: visible_from_def)
qed

lemma find_first: "(\<forall>x \<in> set xs. \<not> P x) \<Longrightarrow> P y \<Longrightarrow> find P (xs @ y # ys) = Some y"
  by (induction xs) auto

text \<open>
  (C18) An added entry is found. When slot \<open>i\<close> is the first free one of the root directory, not the last, and no
  earlier entry has the name, adding the name writes exactly slot \<open>i\<close>, and looking the name up afterwards
  returns that entry and its position on the disk.
\<close>

theorem added_entry_is_found:
  assumes root: "root_ok root" and i: "Suc i < unat (rd_max_entries root)" "slot_is_free (root_slot root d i)"
    "\<forall>j < i. \<not> slot_is_free (root_slot root d j) \<and> \<not> name_key name (root_slot root d j)"
    and name: "fst (parse_short_name name) ! 0 \<noteq> 0x00" "fst (parse_short_name name) ! 0 \<noteq> 0xE5"
    and e: "e = fresh_entry (fst (parse_short_name name)) (snd (parse_short_name name)) attributes first_cluster timestamp"
    and d: "disk_ready (4 * unat (rd_max_entries root) + 8) d"
  shows "\<exists>d' d''. root_add_entry root (fst (parse_short_name name)) (snd (parse_short_name name)) attributes first_cluster
        timestamp d = Some (d', Some (slot_offset root i)) \<and>
      (\<forall>j. root_slot root d' j = (if j = i then e else root_slot root d j)) \<and>
      root_find_entry root name d' = Some (d'', Some (entity_of e (slot_offset root i)))"
proof -
  have e_ok: "entry_ok e" by (simp add: e fresh_entry_ok)
  have "disk_ready (2 * i + 4 + (2 * unat (rd_max_entries root) + 4)) d"
    using i(1) by (intro cached.ok_mono [OF d]) simp
  from root_write_loop_ok [OF root e_ok, of 0 "unat (rd_max_entries root)" i d "2 * unat (rd_max_entries root) + 4"] this
  obtain d' where d': "root_write_entry root e d = Some (d', Some (slot_offset root i))"
      "disk_ready (2 * unat (rd_max_entries root) + 4) d'"
      "disk_view {} d' = put_bytes (root_pos root i) (entry_bytes e) (disk_view {} d)"
    using i by (auto simp: root_write_entry_def slot_offset_def)
  note slots = root_slot_write [OF e_ok d'(3)]
  have used: "\<not> slot_is_free e" using name by (simp add: e slot_is_free_def fresh_entry_names)
  have "\<forall>j \<le> i. \<not> is_empty (root_slot root d' j)"
    using i(3) used by (auto simp: slots is_empty_free order_le_less)
  then obtain rest where "visible_from root d' 0 = [0..<i] @ i # rest" using visible_reaches [OF i(1)] by blast
  moreover have "name_key name (root_slot root d' i)" by (simp add: slots e fresh_entry_key)
  moreover have "\<forall>j \<in> set [0..<i]. \<not> name_key name (root_slot root d' j)" using i(3) by (simp add: slots)
  ultimately have "find (\<lambda>j. name_key name (root_slot root d' j)) (visible_from root d' 0) = Some i"
    by (simp only: find_first)
  moreover have "disk_ready (2 * unat (rd_max_entries root) + 4 + 0) d'" using d'(2) by simp
  ultimately obtain d'' where "root_find_entry root name d' = Some (d'', Some (entity_of e (slot_offset root i)))"
    using root_find_entry_ok [OF root, of 0 d' name] slots by auto
  then show ?thesis using d'(1) slots by (simp add: root_add_entry_def e)
qed

definition floppy_root :: root_directory where
  "floppy_root = \<lparr>rd_first_sector = 19, rd_max_entries = 224\<rparr>"

lemma floppy_root_ok: "root_ok floppy_root" "unat (rd_max_entries floppy_root) = 224"
  by (simp_all add: root_ok_def floppy_root_def)

lemma root_slot_new: "root_slot floppy_root (disk_access_new m 65536) j = entry_at m (9728 + j * 32)"
  using disk_access_new_ok(2) [of 65536 m] by (simp add: root_slot_def root_pos_def floppy_root_def)

theorem added_entry_is_found_witness:
  "\<exists>d' d'' f. root_add_entry floppy_root (pad 8 [0x41]) (pad 3 [0x54]) 0 2 0 (disk_access_new (\<lambda>_. 0) 65536) = Some (d', Some 9728) \<and>
     root_find_entry floppy_root [0x61, 0x2E, 0x74] d' = Some (d'', Some (Entity_File f)) \<and>
     f_dir_entry_disk_offset f = 9728 \<and> first_file_cluster (f_dir_entry f) = 2"
proof -
  let ?d = "disk_access_new (\<lambda>_. 0) 65536" and ?name = "[0x61, 0x2E, 0x74] :: u8 list"
  let ?e = "fresh_entry (pad 8 [0x41]) (pad 3 [0x54]) 0 2 0"
  have name: "parse_short_name ?name = (pad 8 [0x41], pad 3 [0x54])"
    by (simp add: parse_short_name_def split_name_def to_ascii_uppercase_def)
  have free: "slot_is_free (root_slot floppy_root ?d 0)"
    by (simp add: root_slot_new entry_at_def get_bytes_def entry_of_bytes_def slot_is_free_def upt_rec)
  have ready: "disk_ready (4 * unat (rd_max_entries floppy_root) + 8) ?d" by (rule new_disk_ready) (simp add: floppy_root_ok)
  have "slot_offset floppy_root 0 = 9728" by (simp add: slot_offset_def floppy_root_def)
  moreover have "entity_of ?e 9728 = Entity_File (file_from_dir_entry ?e 9728)" "first_file_cluster ?e = 2"
    by (simp_all add: entity_of_def is_directory_def fresh_entry_def Let_def dir_entry_new_def split: prod.splits)
  ultimately show ?thesis
    using added_entry_is_found [OF floppy_root_ok(1) _ free _ _ _ refl ready, of ?name 0 2 0]
    by (auto simp: floppy_root_ok(2) name pad_def file_from_dir_entry_def)
qed

text \<open>
  (C34) Removing an entry of the root directory hides every entry behind it: the iterator takes the mark of a
  deleted entry for the end of the directory, so any name that does not occur before the removed entry is no
  longer found, although its own slot is unchanged.
\<close>

theorem removed_entry_hides_later_ones:
  assumes root: "root_ok root" and k: "k < unat (rd_max_entries root)"
    and victim: "remove_at (matches_name fn ext) root d 0 k"
    and name: "\<forall>j < k. \<not> name_key name (root_slot root d j)"
    and d: "disk_ready (4 * unat (rd_max_entries root) + 8) d"
  shows "\<exists>d' d''. root_remove_entry root fn ext d = Some (d', Some (root_slot root d k)) \<and>
      (\<forall>j. j \<noteq> k \<longrightarrow> root_slot root d' j = root_slot root d j) \<and>
      root_find_entry root name d' = Some (d'', None)"
proof -
  have ok: "entry_ok (mark_deleted (root_slot root d k))" by (simp add: mark_deleted_ok root_slot_def entry_at_ok)
  have "disk_ready (2 * k + 4 + (2 * unat (rd_max_entries root) + 4)) d"
    using k by (intro cached.ok_mono [OF d]) simp
  from root_remove_loop_ok [OF root _ _ _ this, of 0 "unat (rd_max_entries root)" fn ext] victim k
  obtain d' where d': "root_remove_entry root fn ext d = Some (d', Some (root_slot root d k))"
      "disk_ready (2 * unat (rd_max_entries root) + 4) d'"
      "disk_view {} d' = put_bytes (root_pos root k) (entry_bytes (mark_deleted (root_slot root d k))) (disk_view {} d)"
    by (auto simp: root_remove_entry_def)
  note slots = root_slot_write [OF ok d'(3)]
  have "length (file_name (root_slot root d k)) = 8" using entry_at_ok by (simp add: root_slot_def entry_ok_def)
  then have gone: "is_empty (root_slot root d' k)" by (simp add: slots mark_deleted_def is_empty_def)
  have "\<not> name_key name (root_slot root d' j)" if j: "j \<in> set (visible_from root d' 0)" for j
  proof -
    have "j < k"
    proof (rule ccontr)
      assume "\<not> j < k"
      have "j < unat (rd_max_entries root) - 1" using set_takeWhileD j by (fastforce simp: visible_from_def)
      then have "[0..<unat (rd_max_entries root) - 1] = [0..<k] @ k # [Suc k..<unat (rd_max_entries root) - 1]"
        using \<open>\<not> j < k\<close> by (intro upt_at) simp
      then have "set (visible_from root d' 0) \<subseteq> set [0..<k]"
        unfolding visible_from_def using gone
        by (cases "\<forall>x \<in> set [0..<k]. \<not> is_empty (root_slot root d' x)")
          (auto simp: takeWhile_append split: if_splits dest: set_takeWhileD)
      then show False using j \<open>\<not> j < k\<close> by auto
    qed
    then show ?thesis using name by (simp add: slots)
  qed
  then have none: "find (\<lambda>j. name_key name (root_slot root d' j)) (visible_from root d' 0) = None"
    by (simp add: find_None_iff)
  have "disk_ready (2 * unat (rd_max_entries root) + 4 + 0) d'" using d'(2) by simp
  then obtain d'' where "root_find_entry root name d' = Some (d'', None)"
    using root_find_entry_ok [OF root, of 0 d' name] none by auto
  then show ?thesis using d'(1) slots by auto
qed

definition two_files :: "nat \<Rightarrow> u8" where
  "two_files = put_bytes 9760 (entry_bytes (fresh_entry (pad 8 [0x42]) (pad 3 []) 0 3 0))
     (put_bytes 9728 (entry_bytes (fresh_entry (pad 8 [0x41]) (pad 3 []) 0 2 0)) (\<lambda>_. 0))"

lemma fresh_ok: "length fn = 8 \<Longrightarrow> length ext = 3 \<Longrightarrow> entry_ok (fresh_entry fn ext a c ts)"
  by (simp add: entry_ok_def fresh_entry_names)

lemma two_files_slots:
  "root_slot floppy_root (disk_access_new two_files 65536) 0 = fresh_entry (pad 8 [0x41]) (pad 3 []) 0 2 0"
  "root_slot floppy_root (disk_access_new two_files 65536) 1 = fresh_entry (pad 8 [0x42]) (pad 3 []) 0 3 0"
  by (simp_all add: root_slot_new two_files_def entry_at_put entry_at_put_other fresh_ok)

theorem removed_entry_hides_later_ones_witness:
  "\<exists>d' d'' e. root_remove_entry floppy_root (pad 8 [0x41]) (pad 3 []) (disk_access_new two_files 65536) = Some (d', Some e) \<and>
     file_name (root_slot floppy_root d' 1) = pad 8 [0x42] \<and> root_find_entry floppy_root [0x42] d' = Some (d'', None)"
proof -
  let ?d = "disk_access_new two_files 65536"
  have "matches_name (pad 8 [0x41]) (pad 3 []) (fresh_entry (pad 8 [0x41]) (pad 3 []) 0 2 0)"
    by (simp add: matches_name_upper fresh_ok fresh_entry_names)
  then have "remove_at (matches_name (pad 8 [0x41]) (pad 3 [])) floppy_root ?d 0 0"
    by (simp add: remove_at_def two_files_slots fresh_entry_names pad_def)
  moreover have "disk_ready (4 * unat (rd_max_entries floppy_root) + 8) ?d"
    by (rule new_disk_ready) (simp add: floppy_root_ok)
  ultimately obtain d' d'' where "root_remove_entry floppy_root (pad 8 [0x41]) (pad 3 []) ?d = Some (d', Some (root_slot floppy_root ?d 0))"
      "\<forall>j. j \<noteq> 0 \<longrightarrow> root_slot floppy_root d' j = root_slot floppy_root ?d j" "root_find_entry floppy_root [0x42] d' = Some (d'', None)"
    using removed_entry_hides_later_ones [OF floppy_root_ok(1), of 0 "pad 8 [0x41]" "pad 3 []" ?d "[0x42]"]
    by (auto simp: floppy_root_ok(2))
  then show ?thesis using two_files_slots(2) by (auto simp: fresh_entry_names)
qed

end
