(* ===== verification/Fat_File.thy ===== *)
theory Fat_File
  imports Fat_Root
begin

text \<open>
  Files of a FAT volume (\<^verbatim>\<open>File\<close> of \<^verbatim>\<open>components/drivers/fatdriver/src/dir.rs\<close>): the list of clusters cached from
  the allocation table, reading and writing at an offset, and the growth of the chain.

  A division by the size of a cluster fails when that size is zero, and so does the model. The loops over the
  clusters are partial functions; they are shown to return.
\<close>

section \<open>Operations\<close>

partial_function (option) cache_chain_loop ::
  "allocation_table \<Rightarrow> u32 \<Rightarrow> u32 list \<Rightarrow> disk_access \<Rightarrow> (disk_access \<times> u32 list) option" where
  "cache_chain_loop t current_cluster cache disk =
     (if current_cluster = 0xfff then Some (disk, cache)
      else Option.bind (get_next_cluster t current_cluster disk) (\<lambda>(disk, nxt).
        case nxt of
          Some c \<Rightarrow> cache_chain_loop t c (cache @ [current_cluster]) disk
        | None \<Rightarrow> Some (disk, cache @ [current_cluster])))"

declare cache_chain_loop.simps [code]

definition cache_cluster_chain :: "fat_file \<Rightarrow> allocation_table \<Rightarrow> u32 \<Rightarrow> disk_access \<Rightarrow> (disk_access \<times> fat_file) option" where
  "cache_cluster_chain f t start_cluster disk = do {
     (disk, cache) \<leftarrow> cache_chain_loop t start_cluster [] disk;
     Some (disk, f\<lparr>cluster_cache := cache\<rparr>)
   }"

definition file_byte_size :: "fat_file \<Rightarrow> u32" where
  "file_byte_size f = byte_size (f_dir_entry f)"

definition file_first_cluster :: "fat_file \<Rightarrow> u16" where
  "file_first_cluster f = first_file_cluster (f_dir_entry f)"

partial_function (option) file_read_loop ::
  "allocation_table \<Rightarrow> u32 \<Rightarrow> fat_file \<Rightarrow> u8 list \<Rightarrow> u32 \<Rightarrow> nat \<Rightarrow> disk_access \<Rightarrow>
   (disk_access \<times> fat_file \<times> u8 list \<times> u32) option" where
  "file_read_loop t initial_offset f buffer offset bytes_written disk =
     (if bytes_per_cluster t = 0 then None
      else Option.bind
        (if cluster_cache f = [] then cache_cluster_chain f t (ucast (file_first_cluster f)) disk else Some (disk, f))
        (\<lambda>(disk, f).
          if length (cluster_cache f) \<le> unat (offset div bytes_per_cluster t)
          then Some (disk, f, buffer, of_nat bytes_written)
          else
            let cluster_offset = offset mod bytes_per_cluster t;
                current_cluster = cluster_cache f ! unat (offset div bytes_per_cluster t);
                cluster_location = get_cluster_location t current_cluster;
                bytes_remaining_in_file = file_byte_size f - offset;
                bytes_remaining_in_cluster = bytes_per_cluster t - cluster_offset;
                bytes_from_disk = unat (min bytes_remaining_in_file bytes_remaining_in_cluster);
                buffer_end = min (length buffer) (bytes_written + bytes_from_disk)
            in if buffer_end < bytes_written then None
               else Option.bind
                 (read_bytes_from_disk disk (cluster_location + cluster_offset) (take (buffer_end - bytes_written) (drop bytes_written buffer)))
                 (\<lambda>(disk, read_buffer, read_size).
                   let buffer = take bytes_written buffer @ read_buffer @ drop buffer_end buffer;
                       bytes_written = bytes_written + unat read_size;
                       offset = offset + read_size
                   in if file_byte_size f \<le> of_nat bytes_written + initial_offset \<or> length buffer \<le> bytes_written
                      then Some (disk, f, buffer, of_nat bytes_written)
                      else file_read_loop t initial_offset f buffer offset bytes_written disk)))"

declare file_read_loop.simps [code]

definition file_read :: "fat_file \<Rightarrow> u8 list \<Rightarrow> u32 \<Rightarrow> allocation_table \<Rightarrow> disk_access \<Rightarrow>
   (disk_access \<times> fat_file \<times> u8 list \<times> u32) option" where
  "file_read f buffer initial_offset t disk = file_read_loop t initial_offset f buffer initial_offset 0 disk"

text \<open>
  The loop that lengthens the chain runs once for every cluster that is missing. The flag tells whether all of them could be allocated.
\<close>

fun grow_loop :: "allocation_table \<Rightarrow> nat \<Rightarrow> u32 list \<Rightarrow> disk_access \<Rightarrow> (disk_access \<times> u32 list \<times> bool) option" where
  "grow_loop t 0 cache disk = Some (disk, cache, True)"
| "grow_loop t (Suc n) cache disk =
     (if cache = [] then None
      else do {
        let prev_cluster = last cache;
        (disk, new) \<leftarrow> allocate_cluster t disk;
        (case new of
           Some new_cluster \<Rightarrow> do {
             disk \<leftarrow> set_cluster_entry t prev_cluster new_cluster disk;
             grow_loop t n (cache @ [new_cluster]) disk
           }
         | None \<Rightarrow> Some (disk, cache, False))
      })"

partial_function (option) file_write_loop ::
  "allocation_table \<Rightarrow> u8 list \<Rightarrow> u32 list \<Rightarrow> u32 \<Rightarrow> nat \<Rightarrow> disk_access \<Rightarrow> (disk_access \<times> u32 list \<times> nat \<times> bool) option" where
  "file_write_loop t data cache offset bytes_written disk =
     (if length data \<le> bytes_written then Some (disk, cache, bytes_written, True)
      else if bytes_per_cluster t = 0 then None
      else Option.bind (grow_loop t (Suc (unat (offset div bytes_per_cluster t)) - length cache) cache disk)
        (\<lambda>(disk, cache, grown).
          if \<not> grown then Some (disk, cache, bytes_written, False)
          else
            let cluster_offset = offset mod bytes_per_cluster t;
                current_cluster = cache ! unat (offset div bytes_per_cluster t);
                cluster_location = get_cluster_location t current_cluster;
                bytes_remaining_in_cluster = bytes_per_cluster t - cluster_offset;
                bytes_to_write = min (length data - bytes_written) (unat bytes_remaining_in_cluster)
            in Option.bind
                 (write_bytes_to_disk disk (cluster_location + cluster_offset) (take bytes_to_write (drop bytes_written data)))
                 (\<lambda>disk. file_write_loop t data cache (offset + of_nat bytes_to_write) (bytes_written + bytes_to_write) disk)))"

declare file_write_loop.simps [code]

definition first_cluster_of_file ::
  "fat_file \<Rightarrow> allocation_table \<Rightarrow> disk_access \<Rightarrow> (disk_access \<times> fat_file \<times> bool) option" where
  "first_cluster_of_file f t disk = do {
     (disk, f) \<leftarrow> (if cluster_cache f = [] \<and> file_first_cluster f \<noteq> 0
                   then cache_cluster_chain f t (ucast (file_first_cluster f)) disk else Some (disk, f));
     (if cluster_cache f = []
      then do {
        (disk, new) \<leftarrow> allocate_cluster t disk;
        (case new of
           Some cluster \<Rightarrow>
             Some (disk, f\<lparr>f_dir_entry := (f_dir_entry f)\<lparr>first_file_cluster := ucast cluster\<rparr>, cluster_cache := [cluster]\<rparr>, True)
         | None \<Rightarrow> Some (disk, f, False))
      }
      else Some (disk, f, True))
   }"

definition file_write :: "fat_file \<Rightarrow> u8 list \<Rightarrow> u32 \<Rightarrow> allocation_table \<Rightarrow> disk_access \<Rightarrow> (disk_access \<times> fat_file \<times> u32) option" where
  "file_write f data initial_offset t disk = do {
     (disk, f, started) \<leftarrow> first_cluster_of_file f t disk;
     (if \<not> started then Some (disk, f, 0)
      else do {
        (disk, cache, bytes_written, finished) \<leftarrow> file_write_loop t data (cluster_cache f) initial_offset 0 disk;
        let f = f\<lparr>cluster_cache := cache\<rparr>;
        let new_end = initial_offset + of_nat bytes_written;
        (if finished \<and> file_byte_size f < new_end
         then do {
           let f = f\<lparr>f_dir_entry := (f_dir_entry f)\<lparr>byte_size := new_end\<rparr>\<rparr>;
           disk \<leftarrow> write_entry_at disk (f_dir_entry_disk_offset f) (f_dir_entry f);
           Some (disk, f, of_nat bytes_written)
         }
         else Some (disk, f, of_nat bytes_written))
      })
   }"

section \<open>Where the bytes of a file lie\<close>

definition cluster_size :: "allocation_table \<Rightarrow> nat" where
  "cluster_size t = unat (bytes_per_cluster t)"

definition cluster_pos :: "allocation_table \<Rightarrow> u32 \<Rightarrow> nat" where
  "cluster_pos t c = unat (at_first_cluster_location t) + cluster_size t * (unat c - 2)"

definition cluster_ok :: "allocation_table \<Rightarrow> u32 \<Rightarrow> bool" where
  "cluster_ok t c \<longleftrightarrow> 2 \<le> unat c \<and> cluster_pos t c + cluster_size t + 511 < 2 ^ 32"

definition file_pos :: "allocation_table \<Rightarrow> u32 list \<Rightarrow> nat \<Rightarrow> nat" where
  "file_pos t cs p = cluster_pos t (cs ! (p div cluster_size t)) + p mod cluster_size t"

definition file_bytes :: "allocation_table \<Rightarrow> u32 list \<Rightarrow> (nat \<Rightarrow> u8) \<Rightarrow> nat \<Rightarrow> nat \<Rightarrow> u8 list" where
  "file_bytes t cs m p n = map (\<lambda>q. m (file_pos t cs q)) [p..<p + n]"

lemma length_file_bytes [simp]: "length (file_bytes t cs m p n) = n"
  by (simp add: file_bytes_def)

lemma cluster_location:
  assumes "cluster_ok t c" "unat off < cluster_size t"
  shows "unat (get_cluster_location t c + off) = cluster_pos t c + unat off"
proof -
  have "unat (c - 2) = unat c - 2" using assms(1) by (subst unat_sub) (simp_all add: cluster_ok_def word_le_nat_alt)
  then have "unat (bytes_per_cluster t * (c - 2)) = cluster_size t * (unat c - 2)"
    using assms(1) by (simp add: unat_word_ariths cluster_ok_def cluster_pos_def cluster_size_def)
  then have loc: "unat (get_cluster_location t c) = cluster_pos t c"
    using assms(1) unfolding get_cluster_location_def
    by (subst unat_add_small) (simp_all add: cluster_ok_def cluster_pos_def)
  then show ?thesis using assms by (subst unat_add_small) (simp_all add: cluster_ok_def)
qed

lemma same_cluster:
  assumes "i < s - p mod s" "0 < (s :: nat)" shows "(p + i) div s = p div s" "(p + i) mod s = p mod s + i"
proof -
  have "p + i = (p mod s + i) + s * (p div s)" using mult_div_mod_eq [of s p] by linarith
  moreover have "p mod s + i < s" using assms by linarith
  ultimately show "(p + i) div s = p div s" "(p + i) mod s = p mod s + i" using assms(2) by (simp_all only: div_mult_self2 mod_mult_self2 div_less mod_less)
qed

lemma file_bytes_contiguous:
  assumes "n \<le> cluster_size t - p mod cluster_size t" "0 < cluster_size t"
  shows "get_bytes m (file_pos t cs p) n = file_bytes t cs m p n"
  using assms same_cluster [of _ "cluster_size t" p]
  by (intro nth_equalityI) (simp_all add: get_bytes_def file_bytes_def file_pos_def add.assoc)

lemma file_bytes_append: "file_bytes t cs m p (a + b) = file_bytes t cs m p a @ file_bytes t cs m (p + a) b"
  using upt_add_eq_append [of p "p + a" b] by (simp add: file_bytes_def add.assoc)

lemma sectors_le: "sectors off n \<le> n + 1" "0 < n \<Longrightarrow> sectors off n \<le> 2 * n"
proof -
  show 1: "sectors off n \<le> n + 1" by (simp add: sectors_def)
  show "0 < n \<Longrightarrow> sectors off n \<le> 2 * n" using 1 by simp
qed

section \<open>Reading\<close>

lemma unat_cluster_split:
  "unat (offset div bytes_per_cluster t) = unat offset div cluster_size t"
  "unat (offset mod bytes_per_cluster t) = unat offset mod cluster_size t"
  "bytes_per_cluster t \<noteq> 0 \<Longrightarrow>
   unat (bytes_per_cluster t - offset mod bytes_per_cluster t) = cluster_size t - unat offset mod cluster_size t"
proof -
  show "unat (offset div bytes_per_cluster t) = unat offset div cluster_size t"
    "unat (offset mod bytes_per_cluster t) = unat offset mod cluster_size t"
    by (simp_all add: unat_div unat_mod cluster_size_def)
  assume "bytes_per_cluster t \<noteq> 0"
  then have "0 < unat (bytes_per_cluster t)" by (simp add: unat_gt_0)
  then show "unat (bytes_per_cluster t - offset mod bytes_per_cluster t) = cluster_size t - unat offset mod cluster_size t"
    by (subst unat_sub) (simp_all add: word_le_nat_alt unat_mod cluster_size_def less_imp_le)
qed

lemma unat_add_u32: "unat a + unat b < 2 ^ 32 \<Longrightarrow> unat (a + b :: u32) = unat a + unat b"
  by (rule unat_add_small) simp

lemma min_room: "w \<le> l \<Longrightarrow> min l (w + x) = w + min (l - w) (x :: nat)"
  by linarith

text \<open>One turn of the loop reads up to the end of the cluster, of the file or of the buffer.\<close>

lemma file_read_step:
  assumes t: "bytes_per_cluster t \<noteq> 0" and cs: "cluster_cache f \<noteq> []" "list_all (cluster_ok t) (cluster_cache f)"
    and o: "unat offset div cluster_size t < length (cluster_cache f)"
    and bw: "bw \<le> length buffer" "length buffer < 2 ^ 32"
    and n: "n = min (length buffer - bw) (min (unat (file_byte_size f - offset)) (cluster_size t - unat offset mod cluster_size t))"
    and d: "disk_ready (n + 1 + b) d"
  shows "\<exists>d'. file_read_loop t init f buffer offset bw d =
      (let buffer = take bw buffer @ file_bytes t (cluster_cache f) (disk_view {} d) (unat offset) n @ drop (bw + n) buffer
       in if file_byte_size f \<le> of_nat (bw + n) + init \<or> length buffer \<le> bw + n
          then Some (d', f, buffer, of_nat (bw + n))
          else file_read_loop t init f buffer (offset + of_nat n) (bw + n) d') \<and>
    disk_ready b d' \<and> disk_view {} d' = disk_view {} d"
proof -
  let ?c = "cluster_cache f ! unat (offset div bytes_per_cluster t)" and ?s = "cluster_size t"
  let ?at = "get_cluster_location t ?c + offset mod bytes_per_cluster t"
  have s: "0 < ?s" using t by (simp add: cluster_size_def unat_gt_0)
  have c: "cluster_ok t ?c" using cs o by (simp add: unat_cluster_split list_all_length)
  have "unat (offset mod bytes_per_cluster t) < ?s" using s by (simp add: unat_cluster_split)
  then have at: "unat ?at = file_pos t (cluster_cache f) (unat offset)"
    using cluster_location [OF c] by (simp add: file_pos_def unat_cluster_split)
  have upto: "n \<le> ?s - unat offset mod ?s" by (simp add: n)
  then have inside: "unat offset mod ?s + n \<le> ?s" using mod_less_divisor [OF s, of "unat offset"] by linarith
  have pos: "unat ?at + n + 511 < 2 ^ 32"
    using c inside unfolding at by (simp add: file_pos_def cluster_ok_def unat_cluster_split)
  have len: "length (take n (drop bw buffer)) = n" using n by simp
  have "disk_ready (sectors ?at (length (take n (drop bw buffer))) + b) d"
    using sectors_le(1) [of ?at n] unfolding len by (intro cached.ok_mono [OF d]) simp
  from cached.rd_view [OF this] pos
  obtain d' where d': "read_bytes_from_disk d ?at (take n (drop bw buffer)) =
      Some (d', get_bytes (disk_view {} d) (unat ?at) n, of_nat n)" "disk_ready b d'" "disk_view {} d' = disk_view {} d"
    unfolding len by auto
  have bytes: "get_bytes (disk_view {} d) (unat ?at) n = file_bytes t (cluster_cache f) (disk_view {} d) (unat offset) n"
    unfolding at by (rule file_bytes_contiguous [OF upto s])
  have nend: "min (length buffer) (bw + unat (min (file_byte_size f - offset) (bytes_per_cluster t - offset mod bytes_per_cluster t))) = bw + n"
    unfolding n using bw by (subst min_room) (simp_all add: unat_min unat_cluster_split(3) [OF t])
  have "n \<le> length buffer" unfolding n by linarith
  then have un: "unat (of_nat n :: u32) = n" using bw(2) by (intro unat_of_nat_small) simp
  show ?thesis
    using d' t cs(1) o bytes un
    by (subst file_read_loop.simps) (auto simp: Let_def nend unat_cluster_split(1) not_le)
qed

lemma file_read_loop_ok:
  assumes t: "bytes_per_cluster t \<noteq> 0" and cs: "cluster_cache f \<noteq> []" "list_all (cluster_ok t) (cluster_cache f)"
    and size: "unat (file_byte_size f) \<le> length (cluster_cache f) * cluster_size t" "init \<le> file_byte_size f"
    and k: "k = min len (unat (file_byte_size f) - unat init)" "len < 2 ^ 32"
    and "length buffer = len" "bw \<le> k" "offset = init + of_nat bw" "disk_ready (2 * (k - bw) + 1 + b) d"
  shows "\<exists>d'. file_read_loop t init f buffer offset bw d =
      Some (d', f, take bw buffer @ file_bytes t (cluster_cache f) (disk_view {} d) (unat init + bw) (k - bw) @ drop k buffer, of_nat k) \<and>
    disk_ready b d' \<and> disk_view {} d' = disk_view {} d"
  using assms(8-)
proof (induction "k - bw" arbitrary: bw buffer offset d rule: less_induct)
  case less
  let ?s = "cluster_size t" and ?size = "unat (file_byte_size f)"
  have s: "0 < ?s" using t by (simp add: cluster_size_def unat_gt_0)
  have sz: "unat init \<le> ?size" "?size < 2 ^ 32" using size(2) by (simp_all add: word_le_nat_alt)
  have bw: "unat init + bw \<le> ?size" "bw \<le> len" using less.prems(2) k(1) sz by linarith+
  have small: "unat (of_nat j :: u32) = j" "unat init + j < 2 ^ 32" if "j \<le> k" for j
    using that k sz by (auto simp: unat_of_nat_small simp del: unat_less_max32)
  have o: "unat offset = unat init + bw"
    unfolding less.prems(3) using small [OF less.prems(2)] by (subst unat_add_small) simp_all
  show ?case
  proof (cases "unat offset div ?s < length (cluster_cache f)")
    case False
    then have "length (cluster_cache f) * ?s \<le> unat offset" using s by (simp add: not_less less_eq_div_iff_mult_less_eq)
    then have "bw = k" using o bw size(1) k(1) less.prems(2) by linarith
    moreover have "file_read_loop t init f buffer offset bw d = Some (d, f, buffer, of_nat bw)"
      using False t cs(1) by (subst file_read_loop.simps) (simp add: unat_cluster_split)
    moreover have "disk_ready b d" using less.prems(4) by (rule cached.ok_mono) simp
    ultimately show ?thesis by (simp add: file_bytes_def)
  next
    case True
    define n where "n = min (len - bw) (min (?size - unat offset) (?s - unat offset mod ?s))"
    have nk: "bw + n \<le> k" using n_def k(1) o bw by linarith
    have progress: "0 < n \<or> bw = k" using n_def k(1) o bw mod_less_divisor [OF s, of "unat offset"] by linarith
    have ready: "disk_ready (n + 1 + (2 * (k - (bw + n)) + n + b)) d" using nk by (intro cached.ok_mono [OF less.prems(4)]) simp
    have "offset \<le> file_byte_size f" using bw by (simp add: word_le_nat_alt o)
    then have pre: "bw \<le> length buffer" "length buffer < 2 ^ 32"
        "n = min (length buffer - bw) (min (unat (file_byte_size f - offset)) (?s - unat offset mod ?s))"
      using bw k(2) by (simp_all only: less.prems(1) n_def unat_sub)
    obtain d1 where d1: "file_read_loop t init f buffer offset bw d =
        (let buffer = take bw buffer @ file_bytes t (cluster_cache f) (disk_view {} d) (unat offset) n @ drop (bw + n) buffer
         in if file_byte_size f \<le> of_nat (bw + n) + init \<or> length buffer \<le> bw + n
            then Some (d1, f, buffer, of_nat (bw + n))
            else file_read_loop t init f buffer (offset + of_nat n) (bw + n) d1)"
        "disk_ready (2 * (k - (bw + n)) + n + b) d1" "disk_view {} d1 = disk_view {} d"
      using file_read_step [OF t cs True pre ready, of init] by (elim exE conjE)
    let ?buf = "take bw buffer @ file_bytes t (cluster_cache f) (disk_view {} d) (unat offset) n @ drop (bw + n) buffer"
    have "bw + n \<le> len" using nk k(1) by linarith
    then have len: "length ?buf = len" using less.prems(1) by simp
    have ub: "unat (of_nat (bw + n) + init :: u32) = unat init + (bw + n)"
      using unat_add_u32 [of "of_nat (bw + n)" init] small(2) [OF nk] unfolding small(1) [OF nk]
      by (simp only: add.commute [of "bw + n"])
    have stop: "(file_byte_size f \<le> of_nat (bw + n) + init \<or> length ?buf \<le> bw + n) \<longleftrightarrow> bw + n = k"
      unfolding len word_le_nat_alt ub using nk k(1) sz by linarith
    show ?thesis
    proof (cases "bw + n = k")
      case True
      moreover have "disk_ready b d1" using d1(2) by (rule cached.ok_mono) simp
      ultimately show ?thesis using d1(1,3) stop o by (auto simp: Let_def)
    next
      case False
      then have n0: "0 < n" using progress nk by linarith
      have off: "offset + of_nat n = init + of_nat (bw + n)" by (simp add: less.prems(3))
      have ready: "disk_ready (2 * (k - (bw + n)) + 1 + b) d1" using n0 by (intro cached.ok_mono [OF d1(2)]) simp
      have "k - (bw + n) < k - bw" using n0 nk by linarith
      from less.hyps [OF this len nk off ready]
      obtain d2 where "file_read_loop t init f ?buf (offset + of_nat n) (bw + n) d1 =
          Some (d2, f, take (bw + n) ?buf @ file_bytes t (cluster_cache f) (disk_view {} d) (unat init + (bw + n)) (k - (bw + n)) @ drop k ?buf, of_nat k)"
          "disk_ready b d2" "disk_view {} d2 = disk_view {} d" by (auto simp: d1(3))
      moreover have "take (bw + n) ?buf = take bw buffer @ file_bytes t (cluster_cache f) (disk_view {} d) (unat offset) n"
          "drop k ?buf = drop k buffer"
        using less.prems(1) bw nk by simp_all
      moreover have "k - bw = n + (k - (bw + n))" using nk by linarith
      ultimately show ?thesis
        using d1(1) stop False file_bytes_append [of t "cluster_cache f" "disk_view {} d" "unat init + bw" n "k - (bw + n)"] o
        by (simp add: Let_def add.assoc)
    qed
  qed
qed

section \<open>Chains in a volume\<close>

text \<open>
  A volume whose clusters lie behind the tables and below the 32-bit limit. Clusters are numbered from 2 to 4084.
\<close>

definition volume_ok :: "allocation_table \<Rightarrow> bool" where
  "volume_ok t \<longleftrightarrow> table_ok t \<and> 0 < cluster_size t \<and> fat_base t (unat (at_fat_count t)) \<le> unat (at_first_cluster_location t) \<and>
     unat (at_first_cluster_location t) + cluster_size t * 4085 + 511 < 2 ^ 32"

definition data_cluster :: "allocation_table \<Rightarrow> u32 \<Rightarrow> bool" where
  "data_cluster t c \<longleftrightarrow> 2 \<le> c \<and> c < 4085 \<and> in_table t c"

definition free_clusters :: "allocation_table \<Rightarrow> disk_access \<Rightarrow> u32 set" where
  "free_clusters t d = {c. data_cluster t c \<and> fat_of t 0 d c = 0}"

definition chain_ok :: "allocation_table \<Rightarrow> disk_access \<Rightarrow> u32 list \<Rightarrow> bool" where
  "chain_ok t d cs \<longleftrightarrow> fat_chain (fat_of t 0 d) cs \<and> distinct cs \<and> list_all (data_cluster t) cs"

definition in_clusters :: "allocation_table \<Rightarrow> u32 set \<Rightarrow> nat \<Rightarrow> bool" where
  "in_clusters t S x \<longleftrightarrow> (\<exists>c \<in> S. cluster_pos t c \<le> x \<and> x < cluster_pos t c + cluster_size t)"

text \<open>The tables agree outside the entries in \<open>S\<close>, and so do all bytes outside the tables.\<close>

definition fat_frame :: "allocation_table \<Rightarrow> u32 set \<Rightarrow> disk_access \<Rightarrow> disk_access \<Rightarrow> bool" where
  "fat_frame t S d d' \<longleftrightarrow>
     (\<forall>j < unat (at_fat_count t). \<forall>c. in_table t c \<longrightarrow> c \<notin> S \<longrightarrow> fat_of t j d' c = fat_of t j d c)"

lemma fat_frame_trans: "fat_frame t S d d1 \<Longrightarrow> fat_frame t S' d1 d2 \<Longrightarrow> fat_frame t (S \<union> S') d d2"
  by (simp add: fat_frame_def)

lemma fat_frame_mono: "fat_frame t S d d' \<Longrightarrow> S \<subseteq> S' \<Longrightarrow> fat_frame t S' d d'"
  by (auto simp: fat_frame_def)

lemma entries_set_frame: "entries_set t S v d d' \<Longrightarrow> fat_frame t S d d'"
  by (auto simp: entries_set_def fat_frame_def)

lemma volume_table: "volume_ok t \<Longrightarrow> table_ok t"
  by (simp add: volume_ok_def)

lemma data_cluster_ok:
  assumes "volume_ok t" "data_cluster t c" shows "cluster_ok t c"
proof -
  have c: "2 \<le> unat c" "unat c < 4085" using assms(2) by (simp_all add: data_cluster_def word_le_nat_alt word_less_nat_alt)
  have "cluster_size t * (unat c - 2) + cluster_size t = cluster_size t * (unat c - 1)" using c(1) by (simp add: algebra_simps)
  also have "\<dots> \<le> cluster_size t * 4085" using c by (intro mult_le_mono2) simp
  finally have "cluster_size t * (unat c - 2) + cluster_size t \<le> cluster_size t * 4085" .
  then show ?thesis using assms(1) c(1) unfolding cluster_ok_def cluster_pos_def volume_ok_def by linarith
qed

lemma chain_clusters_ok: "volume_ok t \<Longrightarrow> chain_ok t d cs \<Longrightarrow> list_all (cluster_ok t) cs"
  by (auto simp: chain_ok_def list_all_iff data_cluster_ok)

lemma chain_ne: "chain_ok t d cs \<Longrightarrow> cs \<noteq> []"
  by (auto simp: chain_ok_def)

lemma card_clusters:
  assumes "\<forall>c \<in> S. data_cluster t c" shows "card S \<le> 4085"
proof -
  have "S \<subseteq> word_of_nat ` {..<4085}"
  proof
    fix c assume "c \<in> S"
    then have "unat c < 4085" using assms by (simp add: data_cluster_def word_less_nat_alt)
    then show "c \<in> word_of_nat ` {..<4085}" by (intro image_eqI [of _ _ "unat c"]) simp_all
  qed
  then have "card S \<le> card (word_of_nat ` {..<4085} :: u32 set)" by (intro card_mono) simp_all
  also have "\<dots> \<le> 4085" using card_image_le [of "{..<4085}" "word_of_nat :: nat \<Rightarrow> u32"] by simp
  finally show ?thesis .
qed

lemma cluster_not_mark: "data_cluster t c \<Longrightarrow> c \<noteq> 0xfff \<and> c \<noteq> 0 \<and> c AND 0xFFF = c"
proof -
  assume "data_cluster t c"
  then have c: "2 \<le> unat c" "unat c < 4085" by (simp_all add: data_cluster_def word_le_nat_alt word_less_nat_alt)
  then have "c \<noteq> 0xfff" "c \<noteq> 0" by (auto simp: word_unat_eq_iff)
  moreover have "c AND 0xFFF = take_bit 12 c" by (simp add: take_bit_eq_mask mask_eq_exp_minus_1)
  then have "c AND 0xFFF = c" using c by (simp add: word_unat_eq_iff unsigned_take_bit_eq take_bit_nat_eq_self)
  ultimately show ?thesis by simp
qed

lemma clusters_disjoint:
  assumes "unat c \<noteq> unat c'" "2 \<le> unat c" "2 \<le> unat c'"
  shows "cluster_pos t c + cluster_size t \<le> cluster_pos t c' \<or> cluster_pos t c' + cluster_size t \<le> cluster_pos t c"
proof -
  have "cluster_size t * (a - 2) + cluster_size t \<le> cluster_size t * (b - 2)" if "a < b" "2 \<le> a" for a b :: nat
  proof -
    have "cluster_size t * (a - 2) + cluster_size t = cluster_size t * (a - 1)" using that by (simp add: algebra_simps)
    also have "\<dots> \<le> cluster_size t * (b - 2)" using that by (intro mult_le_mono2) simp
    finally show ?thesis .
  qed
  from this [of "unat c" "unat c'"] this [of "unat c'" "unat c"] assms
  show ?thesis unfolding cluster_pos_def by linarith
qed

lemma cache_chain_loop_ok:
  assumes t: "table_ok t" and "fat_chain (fat_of t 0 d) cs" "list_all (data_cluster t) cs" "disk_ready (2 * length cs + b) d"
  shows "\<exists>d'. cache_chain_loop t (hd cs) acc d = Some (d', acc @ cs) \<and> disk_ready b d' \<and> disk_view {} d' = disk_view {} d"
  using assms(2-)
proof (induction cs arbitrary: acc d)
  case (Cons c cs)
  have "disk_ready (2 + (2 * length cs + b)) d" using Cons.prems(3) by simp
  then obtain d1 where d1: "get_next_cluster t c d = Some (d1, if fat_of t 0 d c = 0xfff then None else Some (fat_of t 0 d c))"
      "disk_ready (2 * length cs + b) d1" "disk_view {} d1 = disk_view {} d"
    using get_next_cluster_ok [OF t, of c "2 * length cs + b" d] Cons.prems(2) by (auto simp: data_cluster_def)
  have c: "c \<noteq> 0xfff" using Cons.prems(2) cluster_not_mark [of t c] by simp
  show ?case
  proof (cases cs)
    case Nil
    then show ?thesis using d1 c Cons.prems(1) by (subst cache_chain_loop.simps) simp
  next
    case (Cons c' rest)
    then have "fat_of t 0 d c = c'" "c' \<noteq> 0xfff" and tail: "fat_chain (fat_of t 0 d1) cs"
      using Cons.prems(1) d1(3) by (simp_all add: fat_of_def)
    then have "cache_chain_loop t c acc d = cache_chain_loop t c' (acc @ [c]) d1"
      using d1(1) c by (subst cache_chain_loop.simps) simp
    then show ?thesis using Cons.IH [OF tail _ d1(2), of "acc @ [c]"] Cons.prems(2) d1(3) Cons by simp
  qed
qed simp

lemma cache_cluster_chain_ok:
  assumes "volume_ok t" "chain_ok t d cs" "c = hd cs" "disk_ready (2 * length cs + b) d"
  shows "\<exists>d'. cache_cluster_chain f t c d = Some (d', f\<lparr>cluster_cache := cs\<rparr>) \<and> disk_ready b d' \<and> disk_view {} d' = disk_view {} d"
  using cache_chain_loop_ok [of t d cs b "[]"] assms by (auto simp: cache_cluster_chain_def chain_ok_def volume_ok_def)

lemma chain_ok_view: "disk_view {} d' = disk_view {} d \<Longrightarrow> chain_ok t d' cs = chain_ok t d cs"
  by (simp add: chain_ok_def fat_of_def)

lemma free_clusters_view: "disk_view {} d' = disk_view {} d \<Longrightarrow> free_clusters t d' = free_clusters t d"
  by (simp add: free_clusters_def fat_of_def)

lemma finite_free [simp]: "finite (free_clusters t d)"
  by (rule finite)

section \<open>Growing the chain\<close>

lemma allocate_some:
  assumes t: "table_ok t" and "free_clusters t d \<noteq> {}" "disk_ready (8170 + 4 * unat (at_fat_count t) + b) d"
  shows "\<exists>d' c. allocate_cluster t d = Some (d', Some c) \<and> c \<in> free_clusters t d \<and> disk_ready b d' \<and> entries_set t {c} 0xfff d d'"
proof -
  obtain c where c: "c \<in> free_clusters t d" "\<And>c'. c' \<in> free_clusters t d \<Longrightarrow> unat c \<le> unat c'"
    using assms(2) ex_has_least_nat [of "\<lambda>c. c \<in> free_clusters t d" _ unat] by blast
  have "fat_of t 0 d c' \<noteq> 0" if "2 \<le> c'" "c' < c" for c'
  proof
    assume "fat_of t 0 d c' = 0"
    then have "c' \<in> free_clusters t d" using c(1) that in_table_le by (auto simp: free_clusters_def data_cluster_def)
    then show False using c(2) that(2) by (simp add: word_less_nat_alt not_less [symmetric])
  qed
  then show ?thesis
    using allocate_cluster_ok [OF t, of c d b] c(1) assms(3) by (auto simp: free_clusters_def data_cluster_def)
qed

lemma chain_entry: "fat_chain f cs \<Longrightarrow> c \<in> set cs \<Longrightarrow> f c = 0xfff \<or> f c \<in> set cs"
  by (induction f cs rule: fat_chain.induct) auto

lemma chain_not_free:
  assumes "chain_ok t d cs" "c \<in> set cs" shows "c \<notin> free_clusters t d"
proof
  assume "c \<in> free_clusters t d"
  then have "fat_of t 0 d c = 0" by (simp add: free_clusters_def)
  then have "0 \<in> set cs" using chain_entry [of "fat_of t 0 d" cs c] assms by (auto simp: chain_ok_def)
  then show False using assms(1) cluster_not_mark by (auto simp: chain_ok_def list_all_iff)
qed

lemma fat_chain_snoc:
  assumes "fat_chain f cs" "g (last cs) = c" "g c = 0xfff" "c \<noteq> 0xfff" "\<forall>x \<in> set (butlast cs). g x = f x"
  shows "fat_chain g (cs @ [c])"
  using assms by (induction f cs rule: fat_chain.induct) auto

lemma chain_snoc:
  assumes t: "table_ok t" and cs: "chain_ok t d cs" and c: "c \<in> free_clusters t d"
    and e: "entries_set t {c} 0xfff d d1" "entries_set t {last cs} c d1 d2"
  shows "chain_ok t d2 (cs @ [c])" "free_clusters t d2 = free_clusters t d - {c}"
proof -
  have c': "data_cluster t c" "c \<notin> set cs" using c chain_not_free [OF cs] by (auto simp: free_clusters_def)
  have last: "last cs \<in> set cs" "data_cluster t (last cs)" using chain_ne [OF cs] cs by (auto simp: chain_ok_def list_all_iff)
  have fat: "fat_of t 0 d2 x = (if x = last cs then c else if x = c then 0xfff else fat_of t 0 d x)" if "in_table t x" for x
    using e that t by (auto simp: entries_set_def table_ok_def)
  have "\<forall>x \<in> set (butlast cs). fat_of t 0 d2 x = fat_of t 0 d x"
  proof
    fix x assume x: "x \<in> set (butlast cs)"
    have "distinct (butlast cs @ [last cs])" using cs chain_ne [OF cs] by (simp add: chain_ok_def)
    then have "x \<noteq> last cs" using x by auto
    moreover have "x \<in> set cs" using x by (rule in_set_butlastD)
    ultimately show "fat_of t 0 d2 x = fat_of t 0 d x"
      using fat c'(2) cs by (auto simp: chain_ok_def list_all_iff data_cluster_def)
  qed
  moreover have "c \<noteq> last cs" using last c' by auto
  then have "fat_of t 0 d2 c = 0xfff" "fat_of t 0 d2 (last cs) = c"
    using fat last(2) c'(1) by (simp_all add: data_cluster_def)
  ultimately have "fat_chain (fat_of t 0 d2) (cs @ [c])"
    using fat_chain_snoc [of "fat_of t 0 d" cs "fat_of t 0 d2" c] cs cluster_not_mark [OF c'(1)]
    by (simp add: chain_ok_def)
  then show "chain_ok t d2 (cs @ [c])" using cs c' by (auto simp: chain_ok_def)
  show "free_clusters t d2 = free_clusters t d - {c}"
    using fat c' last chain_not_free [OF cs last(1)] cluster_not_mark [OF c'(1)]
    by (auto simp: free_clusters_def data_cluster_def split: if_splits)
qed

text \<open>The chain \<open>cs\<close> was lengthened by the clusters \<open>new\<close>, which were free.\<close>

definition grown :: "allocation_table \<Rightarrow> u32 list \<Rightarrow> disk_access \<Rightarrow> u32 list \<Rightarrow> disk_access \<Rightarrow> bool" where
  "grown t cs d new d' \<longleftrightarrow> chain_ok t d' (cs @ new) \<and> set new \<subseteq> free_clusters t d \<and>
     free_clusters t d' = free_clusters t d - set new \<and> fat_frame t (set cs \<union> set new) d d'"

lemma grown_refl: "chain_ok t d cs \<Longrightarrow> grown t cs d [] d"
  by (simp add: grown_def fat_frame_def)

lemma grown_trans: "grown t cs d new d1 \<Longrightarrow> grown t (cs @ new) d1 new' d2 \<Longrightarrow> grown t cs d (new @ new') d2"
  unfolding grown_def by (auto intro: fat_frame_mono dest: fat_frame_trans)

lemma grow_loop_ok:
  assumes t: "table_ok t" and "chain_ok t d cs" "n \<le> card (free_clusters t d)"
    "disk_ready (n * (8170 + 8 * unat (at_fat_count t)) + b) d"
  shows "\<exists>d' new. grow_loop t n cs d = Some (d', cs @ new, True) \<and> length new = n \<and> grown t cs d new d' \<and> disk_ready b d' \<and>
    (\<forall>x. outside_tables t x \<longrightarrow> disk_view {} d' x = disk_view {} d x)"
  using assms(2-)
proof (induction n arbitrary: cs d)
  case 0
  then show ?case by (auto intro!: exI [of _ "[]"] grown_refl)
next
  case (Suc n)
  let ?f = "unat (at_fat_count t)"
  define b' where "b' = n * (8170 + 8 * ?f) + b"
  have ne: "free_clusters t d \<noteq> {}" using Suc.prems(2) by auto
  have "disk_ready (8170 + 4 * ?f + (4 * ?f + b')) d" using Suc.prems(3) by (simp add: b'_def add_ac)
  from allocate_some [OF t ne this] obtain d1 c where d1: "allocate_cluster t d = Some (d1, Some c)"
      "c \<in> free_clusters t d" "disk_ready (4 * ?f + b') d1" "entries_set t {c} 0xfff d d1" by blast
  have last: "in_table t (last cs)" using Suc.prems(1) chain_ne [OF Suc.prems(1)] by (simp add: chain_ok_def list_all_iff data_cluster_def)
  have "c AND 0xFFF = c" using d1(2) cluster_not_mark by (auto simp: free_clusters_def)
  then obtain d2 where d2: "set_cluster_entry t (last cs) c d1 = Some d2" "disk_ready b' d2" "entries_set t {last cs} c d1 d2"
    using set_cluster_entry_ok [OF t last d1(3), of c] by auto
  note snoc = chain_snoc [OF t Suc.prems(1) d1(2,4) d2(3)]
  have "fat_frame t (set cs \<union> {c}) d d2"
    using chain_ne [OF Suc.prems(1)]
    by (intro fat_frame_mono [OF fat_frame_trans [OF entries_set_frame [OF d1(4)] entries_set_frame [OF d2(3)]]]) auto
  then have step: "grown t cs d [c] d2" using snoc d1(2) by (simp add: grown_def)
  have "n \<le> card (free_clusters t d2)" using Suc.prems(2) d1(2) snoc(2) by (simp add: card_Diff_singleton)
  from Suc.IH [OF snoc(1) this] d2(2) obtain d3 new where d3: "grow_loop t n (cs @ [c]) d2 = Some (d3, (cs @ [c]) @ new, True)"
      "length new = n" "grown t (cs @ [c]) d2 new d3" "disk_ready b d3"
      "\<forall>x. outside_tables t x \<longrightarrow> disk_view {} d3 x = disk_view {} d2 x"
    unfolding b'_def by blast
  have "grow_loop t (Suc n) cs d = Some (d3, cs @ c # new, True)"
    using d1(1) d2(1) d3(1) chain_ne [OF Suc.prems(1)] by (simp add: Let_def)
  moreover have "grown t cs d (c # new) d3" using grown_trans [OF step d3(3)] by simp
  moreover have "\<forall>x. outside_tables t x \<longrightarrow> disk_view {} d3 x = disk_view {} d x"
    using d3(5) d2(3) d1(4) by (simp add: entries_set_def)
  ultimately show ?case using d3(2,4) by (intro exI [of _ d3] exI [of _ "c # new"]) simp
qed

section \<open>Writing into a chain\<close>

lemma cluster_outside: "volume_ok t \<Longrightarrow> cluster_pos t c \<le> x \<Longrightarrow> outside_tables t x"
  by (simp add: volume_ok_def outside_tables_def cluster_pos_def)

lemma fat_same:
  assumes "\<forall>x. \<not> outside_tables t x \<longrightarrow> disk_view {} d' x = disk_view {} d x" "in_table t c" "j < unat (at_fat_count t)"
  shows "fat_of t j d' c = fat_of t j d c"
proof -
  have "disk_view {} d' (fat_base t j + unat (pair_offset c) + i) = disk_view {} d (fat_base t j + unat (pair_offset c) + i)" if "i < 3" for i
  proof -
    have "fat_base t 0 \<le> fat_base t j" by (simp add: fat_base_def)
    moreover have "unat (pair_offset c) + i < unat (at_bytes_per_fat t)"
      using unat_pair_offset [OF assms(2)] assms(2) that by (simp add: in_table_def)
    moreover have "fat_base t j + unat (at_bytes_per_fat t) \<le> fat_base t (unat (at_fat_count t))" by (rule fat_base_mono [OF assms(3)])
    ultimately show ?thesis using assms(1) by (simp add: outside_tables_def)
  qed
  then have "get_bytes (disk_view {} d') (fat_base t j + unat (pair_offset c)) 3 = get_bytes (disk_view {} d) (fat_base t j + unat (pair_offset c)) 3"
    by (intro nth_equalityI) (simp_all add: get_bytes_def)
  then show ?thesis by (simp add: fat_of_def fat_entry_def)
qed

lemma same_tables:
  assumes "table_ok t" "\<forall>x. \<not> outside_tables t x \<longrightarrow> disk_view {} d' x = disk_view {} d x"
  shows "chain_ok t d' cs = chain_ok t d cs" "free_clusters t d' = free_clusters t d" "fat_frame t S d d'"
proof -
  have fat: "in_table t c \<Longrightarrow> fat_of t 0 d' c = fat_of t 0 d c" for c
    using assms(1) by (intro fat_same [OF assms(2)]) (simp_all add: table_ok_def)
  show "chain_ok t d' cs = chain_ok t d cs"
    using fat fat_chain_cong [of cs "fat_of t 0 d'" "fat_of t 0 d"] by (auto simp: chain_ok_def list_all_iff data_cluster_def)
  show "free_clusters t d' = free_clusters t d" using fat by (auto simp: free_clusters_def data_cluster_def)
  show "fat_frame t S d d'" using fat_same [OF assms(2)] by (simp add: fat_frame_def)
qed

lemma grown_same_tables:
  assumes "table_ok t" "grown t cs d new d1" "\<forall>x. \<not> outside_tables t x \<longrightarrow> disk_view {} d2 x = disk_view {} d1 x"
  shows "grown t cs d new d2"
  using assms(2) same_tables [OF assms(1,3)] fat_frame_trans [of t "set cs \<union> set new" d d1 "set cs \<union> set new" d2]
  by (simp add: grown_def)

lemma chain_data: "chain_ok t d cs \<Longrightarrow> i < length cs \<Longrightarrow> data_cluster t (cs ! i)"
  by (simp add: chain_ok_def list_all_length)

lemma file_pos_inj:
  assumes "0 < cluster_size t" "chain_ok t d cs" "p < length cs * cluster_size t" "q < length cs * cluster_size t"
    "file_pos t cs p = file_pos t cs q"
  shows "p = q"
proof -
  let ?s = "cluster_size t"
  have i: "p div ?s < length cs" "q div ?s < length cs" using assms(1,3,4) by (simp_all add: div_less_iff_less_mult)
  let ?c = "cs ! (p div ?s)" and ?c' = "cs ! (q div ?s)"
  have "2 \<le> unat ?c" "2 \<le> unat ?c'" using chain_data [OF assms(2)] i by (simp_all add: data_cluster_def word_le_nat_alt)
  moreover have "p mod ?s < ?s" "q mod ?s < ?s" using assms(1) by simp_all
  ultimately have "unat ?c = unat ?c'" using clusters_disjoint [of ?c ?c' t] assms(5) unfolding file_pos_def by linarith
  then have c: "?c = ?c'" by (simp add: word_unat_eq_iff)
  then have "p div ?s = q div ?s" using assms(2) i nth_eq_iff_index_eq by (metis chain_ok_def)
  moreover have "p mod ?s = q mod ?s" using assms(5) c by (simp add: file_pos_def)
  ultimately show ?thesis by (metis div_mult_mod_eq)
qed

lemma file_put:
  assumes s: "0 < cluster_size t" and cs: "chain_ok t d cs" and o: "q div cluster_size t < length cs"
    "length xs \<le> cluster_size t - q mod cluster_size t" and p: "p < length cs * cluster_size t"
  shows "put_bytes (file_pos t cs q) xs m (file_pos t cs p) = (if q \<le> p \<and> p < q + length xs then xs ! (p - q) else m (file_pos t cs p))"
proof -
  let ?s = "cluster_size t"
  have at: "file_pos t cs (q + i) = file_pos t cs q + i" "q + i < length cs * ?s" if "i < length xs" for i
  proof -
    have i: "i < ?s - q mod ?s" using that o(2) by linarith
    show "file_pos t cs (q + i) = file_pos t cs q + i" by (simp add: file_pos_def same_cluster [OF i s])
    show "q + i < length cs * ?s" using o(1) same_cluster(1) [OF i s] s by (simp add: div_less_iff_less_mult [symmetric])
  qed
  show ?thesis
  proof (cases "file_pos t cs q \<le> file_pos t cs p \<and> file_pos t cs p < file_pos t cs q + length xs")
    case True
    define i where "i = file_pos t cs p - file_pos t cs q"
    have i: "i < length xs" "file_pos t cs p = file_pos t cs (q + i)" using True at(1) [of i] by (auto simp: i_def)
    then have pq: "p = q + i" using file_pos_inj [OF s cs p at(2) [OF i(1)]] by blast
    have "put_bytes (file_pos t cs q) xs m (file_pos t cs p) = xs ! i" using True by (simp add: put_bytes_def i_def)
    then show ?thesis using pq i(1) by simp
  next
    case False
    have "\<not> (q \<le> p \<and> p < q + length xs)"
    proof
      assume "q \<le> p \<and> p < q + length xs"
      then have "file_pos t cs p = file_pos t cs q + (p - q)" "p - q < length xs" using at(1) [of "p - q"] by auto
      then show False using False by linarith
    qed
    then show ?thesis using False by (auto simp: put_bytes_def)
  qed
qed

lemma file_put_other:
  assumes s: "0 < cluster_size t" and o: "q div cluster_size t < length cs" "length xs \<le> cluster_size t - q mod cluster_size t"
    and x: "\<not> in_clusters t (set cs) x"
  shows "put_bytes (file_pos t cs q) xs m x = m x"
proof -
  let ?c = "cs ! (q div cluster_size t)"
  have "q mod cluster_size t < cluster_size t" using s by simp
  moreover have "?c \<in> set cs" using o(1) by simp
  then have "\<not> (cluster_pos t ?c \<le> x \<and> x < cluster_pos t ?c + cluster_size t)" using x unfolding in_clusters_def by blast
  ultimately have "x < file_pos t cs q \<or> file_pos t cs q + length xs \<le> x" using o(2) unfolding file_pos_def by linarith
  then show ?thesis by (auto simp: put_bytes_def)
qed

text \<open>
  The file behind the chain \<open>cs\<close> changed at the positions from \<open>lo\<close> up to \<open>hi\<close> and nowhere else, and no byte
  outside the tables and the chain changed.
\<close>

definition stored ::
  "allocation_table \<Rightarrow> u32 list \<Rightarrow> (nat \<Rightarrow> u8) \<Rightarrow> (nat \<Rightarrow> u8) \<Rightarrow> nat \<Rightarrow> nat \<Rightarrow> (nat \<Rightarrow> u8) \<Rightarrow> bool" where
  "stored t cs m m' lo hi val \<longleftrightarrow>
     (\<forall>p < length cs * cluster_size t. m' (file_pos t cs p) = (if lo \<le> p \<and> p < hi then val p else m (file_pos t cs p))) \<and>
     (\<forall>x. outside_tables t x \<longrightarrow> \<not> in_clusters t (set cs) x \<longrightarrow> m' x = m x)"

lemma file_pos_outside: "volume_ok t \<Longrightarrow> outside_tables t (file_pos t cs p)"
  by (rule cluster_outside [of t "cs ! (p div cluster_size t)"]) (simp_all add: file_pos_def)

lemma file_pos_append: "p < length cs * cluster_size t \<Longrightarrow> file_pos t (cs @ new) p = file_pos t cs p"
proof -
  assume p: "p < length cs * cluster_size t"
  then have "0 < cluster_size t" by (cases "cluster_size t") auto
  then have "p div cluster_size t < length cs" using p by (simp add: div_less_iff_less_mult)
  then show ?thesis by (simp add: file_pos_def nth_append)
qed

lemma file_pos_new:
  assumes t: "volume_ok t" and cs: "chain_ok t d (cs @ new)"
    and p: "length cs * cluster_size t \<le> p" "p < length (cs @ new) * cluster_size t"
  shows "\<not> in_clusters t (set cs) (file_pos t (cs @ new) p)"
proof
  let ?s = "cluster_size t" and ?i = "p div cluster_size t"
  have s: "0 < ?s" using t by (simp add: volume_ok_def)
  have i: "length cs \<le> ?i" "?i < length (cs @ new)" using p s by (simp_all add: less_eq_div_iff_mult_less_eq div_less_iff_less_mult)
  assume "in_clusters t (set cs) (file_pos t (cs @ new) p)"
  then obtain c where c: "c \<in> set cs" "cluster_pos t c \<le> file_pos t (cs @ new) p" "file_pos t (cs @ new) p < cluster_pos t c + ?s"
    by (auto simp: in_clusters_def)
  then obtain j where j: "j < length cs" "c = (cs @ new) ! j" by (metis in_set_conv_nth nth_append)
  let ?c = "(cs @ new) ! ?i"
  have "?c \<noteq> c" using cs i j nth_eq_iff_index_eq [of "cs @ new" ?i j] by (simp add: chain_ok_def)
  then have "unat ?c \<noteq> unat c" by (simp add: word_unat_eq_iff)
  moreover have "2 \<le> unat ?c" "2 \<le> unat c"
    using chain_data [OF cs i(2)] chain_data [OF cs, of j] j by (simp_all add: data_cluster_def word_le_nat_alt)
  moreover have "p mod ?s < ?s" using s by simp
  ultimately show False using clusters_disjoint [of ?c c t] c(2,3) unfolding file_pos_def by linarith
qed

lemma stored_extend:
  assumes t: "volume_ok t" and cs: "chain_ok t d (cs @ new)" and st: "stored t cs m m' lo hi val" "hi \<le> length cs * cluster_size t"
  shows "stored t (cs @ new) m m' lo hi val"
  unfolding stored_def
proof (intro conjI allI impI)
  fix p assume p: "p < length (cs @ new) * cluster_size t"
  show "m' (file_pos t (cs @ new) p) = (if lo \<le> p \<and> p < hi then val p else m (file_pos t (cs @ new) p))"
  proof (cases "p < length cs * cluster_size t")
    case True
    then show ?thesis using st(1) by (simp add: file_pos_append stored_def)
  next
    case False
    then have "m' (file_pos t (cs @ new) p) = m (file_pos t (cs @ new) p)"
      using file_pos_new [OF t cs _ p] file_pos_outside [OF t] st(1) by (simp add: stored_def)
    then show ?thesis using False st(2) by simp
  qed
next
  fix x assume "outside_tables t x" "\<not> in_clusters t (set (cs @ new)) x"
  then show "m' x = m x" using st(1) by (auto simp: stored_def in_clusters_def)
qed

lemma stored_trans:
  "stored t cs m m1 lo mid val \<Longrightarrow> stored t cs m1 m2 mid hi val \<Longrightarrow> lo \<le> mid \<Longrightarrow> mid \<le> hi \<Longrightarrow> stored t cs m m2 lo hi val"
  by (auto simp: stored_def)

text \<open>One access of a growing file may scan the whole table and write every copy twice.\<close>

definition grow_cost :: "allocation_table \<Rightarrow> nat" where
  "grow_cost t = 8170 + 8 * unat (at_fat_count t)"

lemma put_stored:
  assumes t: "volume_ok t" and cs: "chain_ok t d1 cs" and q: "q div cluster_size t < length cs" "length xs \<le> cluster_size t - q mod cluster_size t"
    and same: "\<forall>x. outside_tables t x \<longrightarrow> m1 x = m x"
  shows "stored t cs m (put_bytes (file_pos t cs q) xs m1) q (q + length xs) (\<lambda>p. xs ! (p - q))"
proof -
  have s: "0 < cluster_size t" using t by (simp add: volume_ok_def)
  show ?thesis
    using file_put [OF s cs q] file_put_other [OF s q] same file_pos_outside [OF t] by (simp add: stored_def)
qed

lemma put_tables:
  assumes t: "volume_ok t" and x: "\<not> outside_tables t x"
  shows "put_bytes (file_pos t cs q) xs m x = m x"
proof -
  have "fat_base t (unat (at_fat_count t)) \<le> file_pos t cs q" using t by (simp add: volume_ok_def file_pos_def cluster_pos_def)
  then show ?thesis using x by (auto simp: put_bytes_def outside_tables_def)
qed

lemma chain_write:
  assumes t: "volume_ok t" and cs: "chain_ok t d cs" and q: "unat offset div cluster_size t < length cs"
    and xs: "length xs \<le> cluster_size t - unat offset mod cluster_size t" "0 < length xs" and d: "disk_ready (2 * length xs + b) d"
  shows "\<exists>d'. write_bytes_to_disk d (get_cluster_location t (cs ! (unat offset div cluster_size t)) + offset mod bytes_per_cluster t) xs = Some d' \<and>
    disk_ready b d' \<and> disk_view {} d' = put_bytes (file_pos t cs (unat offset)) xs (disk_view {} d)"
proof -
  let ?c = "cs ! (unat offset div cluster_size t)"
  let ?at = "get_cluster_location t ?c + offset mod bytes_per_cluster t"
  have s: "0 < cluster_size t" using t by (simp add: volume_ok_def)
  then have off: "unat offset mod cluster_size t < cluster_size t" by simp
  have c: "cluster_ok t ?c" using data_cluster_ok [OF t chain_data [OF cs q]] .
  have at: "unat ?at = file_pos t cs (unat offset)"
    using cluster_location [OF c, of "offset mod bytes_per_cluster t"] off by (simp add: file_pos_def unat_cluster_split)
  have "unat ?at + length xs + 511 < 2 ^ 32"
    using c xs(1) off unfolding at file_pos_def cluster_ok_def by linarith
  moreover have "disk_ready (sectors ?at (length xs) + b) d"
    using sectors_le(2) [OF xs(2), of ?at] by (intro cached.ok_mono [OF d]) simp
  ultimately show ?thesis using cached.wr_view [of ?at xs b d] at by simp
qed

text \<open>Before a part is written the chain is long enough for it.\<close>

lemma file_grow_step:
  assumes t: "volume_ok t" and cs: "chain_ok t d cs" and q: "q < (length cs + card (free_clusters t d)) * cluster_size t"
    and d: "disk_ready (card (free_clusters t d) * grow_cost t + b) d"
  shows "\<exists>d' new. grow_loop t (Suc (q div cluster_size t) - length cs) cs d = Some (d', cs @ new, True) \<and> grown t cs d new d' \<and>
    q div cluster_size t < length (cs @ new) \<and> length (cs @ new) + card (free_clusters t d') = length cs + card (free_clusters t d) \<and>
    disk_ready (card (free_clusters t d') * grow_cost t + b) d' \<and> (\<forall>x. outside_tables t x \<longrightarrow> disk_view {} d' x = disk_view {} d x)"
proof -
  let ?g = "Suc (q div cluster_size t) - length cs"
  have s: "0 < cluster_size t" using t by (simp add: volume_ok_def)
  have "q div cluster_size t < length cs + card (free_clusters t d)" using q s by (simp add: div_less_iff_less_mult)
  then have g: "?g \<le> card (free_clusters t d)" by linarith
  then have "?g * grow_cost t \<le> card (free_clusters t d) * grow_cost t" by (rule mult_le_mono1)
  then have "disk_ready (?g * (8170 + 8 * unat (at_fat_count t)) + ((card (free_clusters t d) - ?g) * grow_cost t + b)) d"
    using d by (simp add: grow_cost_def diff_mult_distrib)
  from grow_loop_ok [OF volume_table [OF t] cs g this] obtain d1 new where d1: "grow_loop t ?g cs d = Some (d1, cs @ new, True)"
      "length new = ?g" "grown t cs d new d1" "disk_ready ((card (free_clusters t d) - ?g) * grow_cost t + b) d1"
      "\<forall>x. outside_tables t x \<longrightarrow> disk_view {} d1 x = disk_view {} d x" by blast
  have "card (free_clusters t d1) = card (free_clusters t d) - ?g"
    using d1(2,3) by (simp add: grown_def card_Diff_subset chain_ok_def distinct_card)
  then show ?thesis using d1 g by (intro exI [of _ d1] exI [of _ new]) auto
qed

lemma stored_cong: "stored t cs m m' lo hi val \<Longrightarrow> (\<And>p. lo \<le> p \<Longrightarrow> p < hi \<Longrightarrow> val p = val' p) \<Longrightarrow> stored t cs m m' lo hi val'"
  by (auto simp: stored_def)

lemma file_write_step:
  assumes t: "volume_ok t" and cs: "chain_ok t d cs" and bw: "bw < length data"
    and q: "unat offset = start + bw" "start + length data \<le> (length cs + card (free_clusters t d)) * cluster_size t"
    and n: "n = min (length data - bw) (cluster_size t - unat offset mod cluster_size t)"
    and d: "disk_ready (card (free_clusters t d) * grow_cost t + 2 * (length data - bw) + b) d"
  shows "\<exists>d' new. file_write_loop t data cs offset bw d = file_write_loop t data (cs @ new) (offset + of_nat n) (bw + n) d' \<and>
    grown t cs d new d' \<and> stored t (cs @ new) (disk_view {} d) (disk_view {} d') (start + bw) (start + (bw + n)) (\<lambda>p. data ! (p - start)) \<and>
    start + (bw + n) \<le> length (cs @ new) * cluster_size t \<and>
    length (cs @ new) + card (free_clusters t d') = length cs + card (free_clusters t d) \<and>
    disk_ready (card (free_clusters t d') * grow_cost t + 2 * (length data - (bw + n)) + b) d'"
proof -
  let ?s = "cluster_size t" and ?xs = "take n (drop bw data)"
  have s: "0 < ?s" "bytes_per_cluster t \<noteq> 0" using t by (auto simp: volume_ok_def cluster_size_def)
  have len: "length ?xs = n" "n \<le> ?s - unat offset mod ?s" "0 < n" "bw + n \<le> length data"
    using n bw mod_less_divisor [OF s(1), of "unat offset"] by auto
  have "unat offset < (length cs + card (free_clusters t d)) * ?s" using q bw by linarith
  from file_grow_step [OF t cs this] d obtain d1 new where
    d1: "grow_loop t (Suc (unat offset div ?s) - length cs) cs d = Some (d1, cs @ new, True)" "grown t cs d new d1"
      "unat offset div ?s < length (cs @ new)" "length (cs @ new) + card (free_clusters t d1) = length cs + card (free_clusters t d)"
      "disk_ready (card (free_clusters t d1) * grow_cost t + (2 * (length data - bw) + b)) d1"
      "\<forall>x. outside_tables t x \<longrightarrow> disk_view {} d1 x = disk_view {} d x"
    unfolding add.assoc by blast
  have cs1: "chain_ok t d1 (cs @ new)" using d1(2) by (simp add: grown_def)
  have "disk_ready (2 * length ?xs + (card (free_clusters t d1) * grow_cost t + 2 * (length data - (bw + n)) + b)) d1"
    unfolding len(1) using len(4) by (intro cached.ok_mono [OF d1(5)]) simp
  from chain_write [OF t cs1 d1(3) _ _ this] len obtain d2 where
    d2: "write_bytes_to_disk d1 (get_cluster_location t ((cs @ new) ! (unat offset div ?s)) + offset mod bytes_per_cluster t) ?xs = Some d2"
      "disk_ready (card (free_clusters t d1) * grow_cost t + 2 * (length data - (bw + n)) + b) d2"
      "disk_view {} d2 = put_bytes (file_pos t (cs @ new) (unat offset)) ?xs (disk_view {} d1)"
    by auto
  have tables: "\<forall>x. \<not> outside_tables t x \<longrightarrow> disk_view {} d2 x = disk_view {} d1 x" using put_tables [OF t] d2(3) by simp
  note same = same_tables(2) [OF volume_table [OF t] tables]
  have "stored t (cs @ new) (disk_view {} d) (disk_view {} d2) (start + bw) (start + (bw + n)) (\<lambda>p. data ! (p - start))"
    using put_stored [OF t cs1 d1(3) _ d1(6), of ?xs] len unfolding d2(3) q(1)
    by (auto simp: add.assoc intro!: stored_cong [where val = "\<lambda>p. ?xs ! (p - (start + bw))"])
  moreover have "start + (bw + n) \<le> length (cs @ new) * ?s"
  proof -
    have "unat offset + n \<le> Suc (unat offset div ?s) * ?s"
      using div_mult_mod_eq [of "unat offset" ?s] len(2) mod_less_divisor [OF s(1), of "unat offset"] unfolding mult_Suc by linarith
    also have "\<dots> \<le> length (cs @ new) * ?s" using d1(3) by (intro mult_le_mono1) simp
    finally show ?thesis using q(1) by simp
  qed
  moreover have "file_write_loop t data cs offset bw d = file_write_loop t data (cs @ new) (offset + of_nat n) (bw + n) d2"
    using d1(1,3) d2(1) bw s n len
    by (subst file_write_loop.simps) (simp add: unat_cluster_split Let_def not_le)
  moreover have "grown t cs d new d2" using grown_same_tables [OF volume_table [OF t] d1(2) tables] .
  ultimately show ?thesis using d1(4) d2(2) same by (intro exI [of _ d2] exI [of _ new]) simp
qed

lemma file_write_loop_ok:
  assumes t: "volume_ok t" and start: "start + length data < 2 ^ 32"
    and "chain_ok t d cs" "bw \<le> length data" "unat offset = start + bw"
    "start + length data \<le> (length cs + card (free_clusters t d)) * cluster_size t"
    "disk_ready (card (free_clusters t d) * grow_cost t + 2 * (length data - bw) + b) d"
  shows "\<exists>d' new. file_write_loop t data cs offset bw d = Some (d', cs @ new, length data, True) \<and> grown t cs d new d' \<and>
    stored t (cs @ new) (disk_view {} d) (disk_view {} d') (start + bw) (start + length data) (\<lambda>p. data ! (p - start)) \<and>
    (bw < length data \<longrightarrow> start + length data \<le> length (cs @ new) * cluster_size t) \<and> disk_ready b d'"
  using assms(3-)
proof (induction "length data - bw" arbitrary: bw cs offset d rule: less_induct)
  case less
  show ?case
  proof (cases "bw = length data")
    case True
    have "disk_ready b d" using less.prems(5) by (rule cached.ok_mono) simp
    then show ?thesis using True less.prems(1) grown_refl
      by (subst file_write_loop.simps) (auto intro!: exI [of _ "[]"] simp: stored_def)
  next
    case False
    define n where "n = min (length data - bw) (cluster_size t - unat offset mod cluster_size t)"
    have bw: "bw < length data" using False less.prems(2) by simp
    have "unat offset mod cluster_size t < cluster_size t" using t by (simp add: volume_ok_def)
    then have n: "0 < n" "bw + n \<le> length data" using bw by (auto simp: n_def)
    obtain d1 new where d1: "file_write_loop t data cs offset bw d = file_write_loop t data (cs @ new) (offset + of_nat n) (bw + n) d1"
        "grown t cs d new d1" "stored t (cs @ new) (disk_view {} d) (disk_view {} d1) (start + bw) (start + (bw + n)) (\<lambda>p. data ! (p - start))"
        "start + (bw + n) \<le> length (cs @ new) * cluster_size t"
        "length (cs @ new) + card (free_clusters t d1) = length cs + card (free_clusters t d)"
        "disk_ready (card (free_clusters t d1) * grow_cost t + 2 * (length data - (bw + n)) + b) d1"
      using file_write_step [OF t less.prems(1) bw less.prems(3,4) n_def less.prems(5)] by (elim exE conjE)
    have off: "unat (offset + of_nat n) = start + (bw + n)"
      using less.prems(3) n start by (subst unat_add_u32) (simp_all add: unat_of_nat_small)
    have cs1: "chain_ok t d1 (cs @ new)" using d1(2) by (simp add: grown_def)
    have room: "start + length data \<le> (length (cs @ new) + card (free_clusters t d1)) * cluster_size t"
      unfolding d1(5) by (rule less.prems(4))
    have "length data - (bw + n) < length data - bw" using n by linarith
    from less.hyps [OF this cs1 n(2) off room d1(6)]
    obtain d2 new' where d2: "file_write_loop t data (cs @ new) (offset + of_nat n) (bw + n) d1 = Some (d2, (cs @ new) @ new', length data, True)"
        "grown t (cs @ new) d1 new' d2"
        "stored t ((cs @ new) @ new') (disk_view {} d1) (disk_view {} d2) (start + (bw + n)) (start + length data) (\<lambda>p. data ! (p - start))"
        "bw + n < length data \<longrightarrow> start + length data \<le> length ((cs @ new) @ new') * cluster_size t" "disk_ready b d2"
      by (elim exE conjE)
    have "chain_ok t d2 ((cs @ new) @ new')" using d2(2) by (simp add: grown_def)
    note front = stored_extend [OF t this d1(3,4)]
    have "stored t ((cs @ new) @ new') (disk_view {} d) (disk_view {} d2) (start + bw) (start + length data) (\<lambda>p. data ! (p - start))"
      using n(2) by (intro stored_trans [OF front d2(3)]) simp_all
    moreover have "start + length data \<le> length ((cs @ new) @ new') * cluster_size t"
    proof (cases "bw + n < length data")
      case False
      then show ?thesis using d1(4) n(2) by (simp add: add_mult_distrib)
    qed (use d2(4) in simp)
    moreover have "grown t cs d (new @ new') d2" by (rule grown_trans [OF d1(2) d2(2)])
    ultimately show ?thesis
      using d1(1) d2(1,5) by (intro exI [of _ d2] exI [of _ "new @ new'"]) simp
  qed
qed

section \<open>The first cluster of a file\<close>

text \<open>The clusters of a file: none as long as its entry names none, else the chain the entry starts, cached or not.\<close>

definition file_chain :: "allocation_table \<Rightarrow> disk_access \<Rightarrow> fat_file \<Rightarrow> u32 list \<Rightarrow> bool" where
  "file_chain t d f cs \<longleftrightarrow>
     (if file_first_cluster f = 0 then cs = [] \<and> cluster_cache f = []
      else chain_ok t d cs \<and> hd cs = ucast (file_first_cluster f) \<and> (cluster_cache f = [] \<or> cluster_cache f = cs))"

definition with_chain :: "fat_file \<Rightarrow> u32 list \<Rightarrow> fat_file" where
  "with_chain f cs = f\<lparr>f_dir_entry := (f_dir_entry f)\<lparr>first_file_cluster := ucast (hd cs)\<rparr>, cluster_cache := cs\<rparr>"

lemma with_chain_fields [simp]:
  "cluster_cache (with_chain f cs) = cs" "f_dir_entry_disk_offset (with_chain f cs) = f_dir_entry_disk_offset f"
  "file_byte_size (with_chain f cs) = file_byte_size f" "file_first_cluster (with_chain f cs) = ucast (hd cs)"
  "f_dir_entry (with_chain f cs) = (f_dir_entry f)\<lparr>first_file_cluster := ucast (hd cs)\<rparr>"
  by (simp_all add: with_chain_def file_byte_size_def file_first_cluster_def)

lemma with_chain_update: "cs \<noteq> [] \<Longrightarrow> (with_chain f cs)\<lparr>cluster_cache := cs @ new\<rparr> = with_chain f (cs @ new)"
  by (simp add: with_chain_def)

lemma ucast_cluster: "data_cluster t c \<Longrightarrow> ucast (ucast c :: u16) = c \<and> (ucast c :: u16) \<noteq> 0"
proof -
  assume "data_cluster t c"
  then have c: "2 \<le> unat c" "unat c < 4085" by (simp_all add: data_cluster_def word_le_nat_alt word_less_nat_alt)
  then have "unat (ucast c :: u16) = unat c" by (simp add: unsigned_ucast_eq unsigned_take_bit_eq take_bit_nat_eq_self)
  then show ?thesis using c by (auto simp: word_unat_eq_iff unsigned_ucast_eq unsigned_take_bit_eq take_bit_nat_eq_self)
qed

lemma file_chain_with:
  assumes "chain_ok t d cs" shows "file_chain t d (with_chain f cs) cs"
  using ucast_cluster [of t "hd cs"] assms chain_ne [OF assms] by (simp add: file_chain_def chain_ok_def list_all_iff)

lemma file_chain_same:
  "file_chain t d f cs \<Longrightarrow> file_first_cluster g = file_first_cluster f \<Longrightarrow> cluster_cache g = cluster_cache f \<Longrightarrow>
   chain_ok t d' cs = chain_ok t d cs \<Longrightarrow> file_chain t d' g cs"
  by (simp add: file_chain_def)

lemma with_chain_same:
  assumes "file_chain t d f cs" "cs \<noteq> []" shows "f\<lparr>cluster_cache := cs\<rparr> = with_chain f cs"
proof -
  have hd: "hd cs = ucast (file_first_cluster f)" using assms by (simp add: file_chain_def split: if_splits)
  have "(ucast (hd cs) :: u16) = file_first_cluster f"
    unfolding hd using unsigned_less [of "file_first_cluster f", where 'a = nat]
    by (simp add: word_unat_eq_iff unsigned_ucast_eq unsigned_take_bit_eq take_bit_nat_eq_self)
  then show ?thesis by (simp add: with_chain_def file_first_cluster_def)
qed

lemma first_cluster_ok:
  assumes t: "volume_ok t" and f: "file_chain t d f cs" and free: "cs = [] \<longrightarrow> free_clusters t d \<noteq> {}"
    and d: "disk_ready (2 * length cs + grow_cost t + b) d"
  shows "\<exists>d' new. first_cluster_of_file f t d = Some (d', with_chain f (cs @ new), True) \<and> grown t cs d new d' \<and>
    length (cs @ new) + card (free_clusters t d') = length cs + card (free_clusters t d) \<and> disk_ready b d' \<and>
    (\<forall>x. outside_tables t x \<longrightarrow> disk_view {} d' x = disk_view {} d x)"
proof (cases "cs = []")
  case True
  then have none: "file_first_cluster f = 0" "cluster_cache f = []" using f chain_ne by (auto simp: file_chain_def split: if_splits)
  have "disk_ready (8170 + 4 * unat (at_fat_count t) + b) d" by (rule cached.ok_mono [OF d]) (simp add: grow_cost_def)
  from allocate_some [OF volume_table [OF t] _ this] free True
  obtain d1 c where d1: "allocate_cluster t d = Some (d1, Some c)" "c \<in> free_clusters t d" "disk_ready b d1" "entries_set t {c} 0xfff d d1"
    by blast
  have c: "data_cluster t c" using d1(2) by (simp add: free_clusters_def)
  have fat: "fat_of t 0 d1 x = (if x = c then 0xfff else fat_of t 0 d x)" if "in_table t x" for x
    using d1(4) that volume_table [OF t] by (simp add: entries_set_def table_ok_def)
  have "grown t [] d [c] d1"
    using c fat d1(2) entries_set_frame [OF d1(4)]
    by (auto simp: grown_def chain_ok_def free_clusters_def data_cluster_def split: if_splits)
  moreover have "first_cluster_of_file f t d = Some (d1, with_chain f [c], True)"
    using d1(1) none by (simp add: first_cluster_of_file_def with_chain_def)
  moreover have "Suc (card (free_clusters t d1)) = card (free_clusters t d)"
    using calculation(1) d1(2) card_Suc_Diff1 [of "free_clusters t d" c] by (simp add: grown_def)
  ultimately show ?thesis using d1(3,4) True by (intro exI [of _ d1] exI [of _ "[c]"]) (simp add: entries_set_def)
next
  case False
  then have chain: "file_first_cluster f \<noteq> 0" "chain_ok t d cs" "hd cs = ucast (file_first_cluster f)" "cluster_cache f = [] \<or> cluster_cache f = cs"
    using f by (auto simp: file_chain_def split: if_splits)
  have "disk_ready (2 * length cs + b) d" by (rule cached.ok_mono [OF d]) simp
  from cache_cluster_chain_ok [OF t chain(2) refl this, of f]
  obtain d1 where d1: "cache_cluster_chain f t (hd cs) d = Some (d1, f\<lparr>cluster_cache := cs\<rparr>)" "disk_ready b d1" "disk_view {} d1 = disk_view {} d"
    by blast
  note w = with_chain_same [OF f False]
  have 1: "first_cluster_of_file f t d = Some (d1, with_chain f cs, True)" if "cluster_cache f = []"
    using that d1(1) chain(1,3) False w by (simp add: first_cluster_of_file_def)
  have 2: "first_cluster_of_file f t d = Some (d, with_chain f cs, True)" if "cluster_cache f = cs"
    using that False w by (simp add: first_cluster_of_file_def flip: w)
  have "disk_ready b d" by (rule cached.ok_mono [OF d]) simp
  moreover have "grown t cs d [] d1" using grown_refl [OF chain(2)] grown_same_tables [OF volume_table [OF t], of cs d "[]" d d1] d1(3) by simp
  ultimately show ?thesis using 1 2 d1(2,3) chain(4) grown_refl [OF chain(2)] free_clusters_view [OF d1(3), of t]
    by (elim disjE; intro exI [of _ "if cluster_cache f = cs then d else d1"] exI [of _ "[]"]) auto
qed

section \<open>Properties\<close>

lemma stored_from:
  assumes "volume_ok t" "\<forall>x. outside_tables t x \<longrightarrow> m1 x = m x" "stored t cs m1 m' lo hi val"
  shows "stored t cs m m' lo hi val"
  using assms(2,3) file_pos_outside [OF assms(1), of cs] by (simp add: stored_def)

text \<open>The directory entry of the file lies apart from the tables and from the clusters in \<open>S\<close>.\<close>

definition entry_apart :: "allocation_table \<Rightarrow> u32 set \<Rightarrow> nat \<Rightarrow> bool" where
  "entry_apart t S e \<longleftrightarrow> e + 543 < 2 ^ 32 \<and> (\<forall>i < 32. outside_tables t (e + i) \<and> \<not> in_clusters t S (e + i))"

lemma put_entry_apart:
  assumes "entry_apart t S e" "entry_ok x" "\<not> outside_tables t y \<or> in_clusters t S y"
  shows "put_bytes e (entry_bytes x) m y = m y"
proof -
  have "y < e \<or> e + 32 \<le> y" using assms(1,3) unfolding entry_apart_def by (metis add_diff_inverse_nat nat_add_left_cancel_less not_le)
  then show ?thesis by (auto simp: put_bytes_def length_entry_bytes [OF assms(2)])
qed

lemma in_clusters_mono: "in_clusters t S x \<Longrightarrow> S \<subseteq> S' \<Longrightarrow> in_clusters t S' x"
  by (auto simp: in_clusters_def)

lemma file_pos_in:
  assumes "0 < cluster_size t" "p < length cs * cluster_size t" shows "in_clusters t (set cs) (file_pos t cs p)"
  using assms unfolding in_clusters_def file_pos_def
  by (intro bexI [of _ "cs ! (p div cluster_size t)"]) (simp_all add: div_less_iff_less_mult)

lemma write_entry_apart:
  assumes t: "volume_ok t" and e: "entry_apart t S (unat off)" "entry_ok x" and cs: "set cs \<subseteq> S"
    and d: "disk_ready (2 + b) d"
  shows "\<exists>d'. write_entry_at d off x = Some d' \<and> disk_ready b d' \<and> entry_at (disk_view {} d') (unat off) = x \<and>
    (\<forall>y. \<not> outside_tables t y \<longrightarrow> disk_view {} d' y = disk_view {} d y) \<and>
    (\<forall>p < length cs * cluster_size t. disk_view {} d' (file_pos t cs p) = disk_view {} d (file_pos t cs p)) \<and>
    (\<forall>y. y < unat off \<or> unat off + 32 \<le> y \<longrightarrow> disk_view {} d' y = disk_view {} d y)"
proof -
  have s: "0 < cluster_size t" using t by (simp add: volume_ok_def)
  have "unat off + 543 < 2 ^ 32" using e(1) by (simp add: entry_apart_def)
  from write_entry_at_ok [OF d this e(2)] obtain d' where d': "write_entry_at d off x = Some d'" "disk_ready b d'"
      "disk_view {} d' = put_bytes (unat off) (entry_bytes x) (disk_view {} d)" by blast
  then show ?thesis
    using put_entry_apart [OF e, of _ "disk_view {} d"] file_pos_in [OF s, of _ cs] in_clusters_mono [OF _ cs] entry_at_put [OF e(2)]
    by (auto simp: put_bytes_def length_entry_bytes [OF e(2)])
qed

definition write_cost :: "allocation_table \<Rightarrow> disk_access \<Rightarrow> u32 list \<Rightarrow> nat \<Rightarrow> nat" where
  "write_cost t d cs n = 2 * length cs + grow_cost t + card (free_clusters t d) * grow_cost t + 2 * n + 2"

lemma file_write_chain:
  assumes t: "volume_ok t" and f: "file_chain t d f cs" and data: "data \<noteq> []" "unat init + length data < 2 ^ 32"
    and room: "unat init + length data \<le> (length cs + card (free_clusters t d)) * cluster_size t"
    and d: "disk_ready (write_cost t d cs (length data) + b) d"
  shows "\<exists>d1 f1 d' new. first_cluster_of_file f t d = Some (d1, f1, True) \<and>
    file_write_loop t data (cluster_cache f1) init 0 d1 = Some (d', cs @ new, length data, True) \<and>
    f1\<lparr>cluster_cache := cs @ new\<rparr> = with_chain f (cs @ new) \<and> grown t cs d new d' \<and>
    stored t (cs @ new) (disk_view {} d) (disk_view {} d') (unat init) (unat init + length data) (\<lambda>p. data ! (p - unat init)) \<and>
    unat init + length data \<le> length (cs @ new) * cluster_size t \<and> disk_ready (2 + b) d'"
proof -
  have "cs = [] \<longrightarrow> free_clusters t d \<noteq> {}" using room data(1) by auto
  moreover have "disk_ready (2 * length cs + grow_cost t + (card (free_clusters t d) * grow_cost t + 2 * length data + (2 + b))) d"
    by (rule cached.ok_mono [OF d]) (simp add: write_cost_def)
  ultimately obtain d1 new1 where d1: "first_cluster_of_file f t d = Some (d1, with_chain f (cs @ new1), True)" "grown t cs d new1 d1"
      "length (cs @ new1) + card (free_clusters t d1) = length cs + card (free_clusters t d)"
      "disk_ready (card (free_clusters t d) * grow_cost t + 2 * length data + (2 + b)) d1"
      "\<forall>x. outside_tables t x \<longrightarrow> disk_view {} d1 x = disk_view {} d x"
    using first_cluster_ok [OF t f] by blast
  have cs1: "chain_ok t d1 (cs @ new1)" using d1(2) by (simp add: grown_def)
  have "free_clusters t d1 \<subseteq> free_clusters t d" using d1(2) by (auto simp: grown_def)
  then have "card (free_clusters t d1) * grow_cost t \<le> card (free_clusters t d) * grow_cost t"
    by (intro mult_le_mono1 card_mono) simp_all
  then have "disk_ready (card (free_clusters t d1) * grow_cost t + 2 * (length data - 0) + (2 + b)) d1"
    by (intro cached.ok_mono [OF d1(4)]) simp
  moreover have "unat init + length data \<le> (length (cs @ new1) + card (free_clusters t d1)) * cluster_size t"
    unfolding d1(3) by (rule room)
  ultimately obtain d2 new2 where d2: "file_write_loop t data (cs @ new1) init 0 d1 = Some (d2, (cs @ new1) @ new2, length data, True)"
      "grown t (cs @ new1) d1 new2 d2"
      "stored t ((cs @ new1) @ new2) (disk_view {} d1) (disk_view {} d2) (unat init) (unat init + length data) (\<lambda>p. data ! (p - unat init))"
      "unat init + length data \<le> length ((cs @ new1) @ new2) * cluster_size t" "disk_ready (2 + b) d2"
    using file_write_loop_ok [OF t data(2) cs1, of 0 init "2 + b"] data(1) by auto
  have "(with_chain f (cs @ new1))\<lparr>cluster_cache := (cs @ new1) @ new2\<rparr> = with_chain f ((cs @ new1) @ new2)"
    by (rule with_chain_update [OF chain_ne [OF cs1]])
  then show ?thesis
    using d1(1) d2(1,4,5) grown_trans [OF d1(2) d2(2)] stored_from [OF t d1(5) d2(3)]
    by (intro exI [of _ d1] exI [of _ "with_chain f (cs @ new1)"] exI [of _ d2] exI [of _ "new1 @ new2"]) simp
qed

lemma file_write_ok:
  assumes t: "volume_ok t" and f: "file_chain t d f cs" "entry_ok (f_dir_entry f)" and data: "data \<noteq> []" "unat init + length data < 2 ^ 32"
    and room: "unat init + length data \<le> (length cs + card (free_clusters t d)) * cluster_size t"
    and e: "e = unat (f_dir_entry_disk_offset f)" "entry_apart t (set cs \<union> free_clusters t d) e"
    and d: "disk_ready (write_cost t d cs (length data) + b) d"
  shows "\<exists>d' f' new. file_write f data init t d = Some (d', f', of_nat (length data)) \<and> file_chain t d' f' (cs @ new) \<and>
    grown t cs d new d' \<and> cluster_cache f' = cs @ new \<and>
    (\<forall>p < length (cs @ new) * cluster_size t. disk_view {} d' (file_pos t (cs @ new) p) =
      (if unat init \<le> p \<and> p < unat init + length data then data ! (p - unat init) else disk_view {} d (file_pos t (cs @ new) p))) \<and>
    unat init + length data \<le> length (cs @ new) * cluster_size t \<and>
    unat (file_byte_size f') = max (unat (file_byte_size f)) (unat init + length data) \<and>
    (unat (file_byte_size f) < unat init + length data \<longrightarrow> entry_at (disk_view {} d') e = f_dir_entry f') \<and>
    (\<forall>x. outside_tables t x \<and> \<not> in_clusters t (set (cs @ new)) x \<and> (x < e \<or> e + 32 \<le> x) \<longrightarrow> disk_view {} d' x = disk_view {} d x) \<and>
    disk_ready b d'"
proof -
  from file_write_chain [OF t f(1) data room d] obtain d1 f1 d2 new where
    w: "first_cluster_of_file f t d = Some (d1, f1, True)"
      "file_write_loop t data (cluster_cache f1) init 0 d1 = Some (d2, cs @ new, length data, True)"
      "f1\<lparr>cluster_cache := cs @ new\<rparr> = with_chain f (cs @ new)" "grown t cs d new d2"
      "stored t (cs @ new) (disk_view {} d) (disk_view {} d2) (unat init) (unat init + length data) (\<lambda>p. data ! (p - unat init))"
      "unat init + length data \<le> length (cs @ new) * cluster_size t" "disk_ready (2 + b) d2"
    by (elim exE conjE)
  let ?cs = "cs @ new" and ?stop = "init + of_nat (length data) :: u32"
  let ?f = "with_chain f ?cs"
  have chain: "chain_ok t d2 ?cs" "set ?cs \<subseteq> set cs \<union> free_clusters t d" using w(4) by (auto simp: grown_def)
  have u: "unat ?stop = unat init + length data" using data(2) by (subst unat_add_u32) (simp_all add: unat_of_nat_small)
  show ?thesis
  proof (cases "unat (file_byte_size f) < unat init + length data")
    case False
    then have "file_write f data init t d = Some (d2, ?f, of_nat (length data))"
      using w(1-3) u by (simp add: file_write_def Let_def word_less_nat_alt)
    moreover have "disk_ready b d2" using w(7) by (rule cached.ok_mono) simp
    ultimately show ?thesis
      using False w(4-6) file_chain_with [OF chain(1)] by (intro exI [of _ d2] exI [of _ ?f] exI [of _ new]) (simp add: stored_def)
  next
    case True
    let ?g = "?f\<lparr>f_dir_entry := (f_dir_entry ?f)\<lparr>byte_size := ?stop\<rparr>\<rparr>"
    have "entry_ok (f_dir_entry ?g)" using f(2) by (simp add: entry_ok_def)
    from write_entry_apart [OF t e(2) [unfolded e(1)] this chain(2) w(7)] obtain d3 where
      d3: "write_entry_at d2 (f_dir_entry_disk_offset f) (f_dir_entry ?g) = Some d3" "disk_ready b d3"
        "entry_at (disk_view {} d3) e = f_dir_entry ?g"
        "\<forall>y. \<not> outside_tables t y \<longrightarrow> disk_view {} d3 y = disk_view {} d2 y"
        "\<forall>p < length ?cs * cluster_size t. disk_view {} d3 (file_pos t ?cs p) = disk_view {} d2 (file_pos t ?cs p)"
        "\<forall>y. y < e \<or> e + 32 \<le> y \<longrightarrow> disk_view {} d3 y = disk_view {} d2 y"
      unfolding e(1) by (elim exE conjE)
    have "file_write f data init t d = Some (d3, ?g, of_nat (length data))"
      using w(1-3) u True d3(1) by (simp add: file_write_def Let_def word_less_nat_alt)
    moreover have "file_chain t d3 ?g ?cs"
      by (rule file_chain_same [OF file_chain_with [OF chain(1), of f]])
        (simp_all add: file_first_cluster_def same_tables(1) [OF volume_table [OF t] d3(4)])
    moreover have "unat (file_byte_size ?g) = max (unat (file_byte_size f)) (unat init + length data)"
      using True u by (simp add: file_byte_size_def)
    moreover have "cluster_cache ?g = ?cs" by simp
    moreover have "disk_view {} d3 x = disk_view {} d x"
      if "outside_tables t x \<and> \<not> in_clusters t (set ?cs) x \<and> (x < e \<or> e + 32 \<le> x)" for x
      using that d3(6) w(5) unfolding stored_def by metis
    ultimately show ?thesis
      using d3(2,3,5) w(5,6) grown_same_tables [OF volume_table [OF t] w(4) d3(4)]
      by (intro exI [of _ d3] exI [of _ ?g] exI [of _ new]) (simp add: stored_def)
  qed
qed

lemma file_read_cached:
  assumes t: "volume_ok t" and f: "file_chain t d f cs" "cs \<noteq> []" and d: "disk_ready (2 * length cs + b) d"
  shows "\<exists>d1. file_read f buffer init t d = file_read (with_chain f cs) buffer init t d1 \<and> disk_ready b d1 \<and> disk_view {} d1 = disk_view {} d"
proof (cases "cluster_cache f = []")
  case False
  then have "with_chain f cs = f" using f with_chain_same [OF f] by (auto simp: file_chain_def split: if_splits)
  moreover have "disk_ready b d" by (rule cached.ok_mono [OF d]) simp
  ultimately show ?thesis by auto
next
  case True
  have chain: "chain_ok t d cs" "hd cs = ucast (file_first_cluster f)" using f by (auto simp: file_chain_def split: if_splits)
  from cache_cluster_chain_ok [OF t chain(1) refl d, of f] obtain d1 where
    d1: "cache_cluster_chain f t (hd cs) d = Some (d1, with_chain f cs)" "disk_ready b d1" "disk_view {} d1 = disk_view {} d"
    using with_chain_same [OF f] by auto
  have "file_read f buffer init t d = file_read (with_chain f cs) buffer init t d1"
    unfolding file_read_def
    by (subst (1 2) file_read_loop.simps) (simp add: True f(2) d1(1) flip: chain(2))
  then show ?thesis using d1(2,3) by blast
qed

lemma file_read_ok:
  assumes "volume_ok t" "file_chain t d f cs" "cs \<noteq> []" "unat (file_byte_size f) \<le> length cs * cluster_size t" "init \<le> file_byte_size f"
    "length buffer < 2 ^ 32" "k = min (length buffer) (unat (file_byte_size f) - unat init)" "disk_ready (2 * length cs + 2 * k + 1 + b) d"
  shows "\<exists>d'. file_read f buffer init t d =
      Some (d', with_chain f cs, file_bytes t cs (disk_view {} d) (unat init) k @ drop k buffer, of_nat k) \<and>
    disk_ready b d' \<and> disk_view {} d' = disk_view {} d"
proof -
  have "disk_ready (2 * length cs + (2 * k + 1 + b)) d" using assms(8) by (simp add: add_ac)
  then obtain d1 where d1: "file_read f buffer init t d = file_read (with_chain f cs) buffer init t d1"
      "disk_ready (2 * k + 1 + b) d1" "disk_view {} d1 = disk_view {} d"
    using file_read_cached [OF assms(1-3)] by blast
  have "chain_ok t d cs" using assms(2,3) by (simp add: file_chain_def split: if_splits)
  then have "list_all (cluster_ok t) cs" by (rule chain_clusters_ok [OF assms(1)])
  moreover have "bytes_per_cluster t \<noteq> 0" using assms(1) by (auto simp: volume_ok_def cluster_size_def)
  ultimately show ?thesis
    using file_read_loop_ok [of t "with_chain f cs" init k "length buffer" buffer 0 init b d1] assms d1 by (simp add: file_read_def)
qed

text \<open>
  (C17) Reading a file. From an offset up to the size of the file, reading returns the bytes of the file from there, as
  many as the buffer holds and the file has, leaves the rest of the buffer alone and changes nothing on the disk.
\<close>

theorem file_read_exact:
  assumes "volume_ok t" "file_chain t d f cs" "cs \<noteq> []" "unat (file_byte_size f) \<le> length cs * cluster_size t" "init \<le> file_byte_size f"
    "length buffer < 2 ^ 32" "k = min (length buffer) (unat (file_byte_size f) - unat init)" "disk_ready (2 * length cs + 2 * k + 1 + b) d"
  shows "\<exists>d'. file_read f buffer init t d =
      Some (d', with_chain f cs, file_bytes t cs (disk_view {} d) (unat init) k @ drop k buffer, of_nat k) \<and>
    disk_ready b d' \<and> disk_view {} d' = disk_view {} d"
  by (rule file_read_ok [OF assms])

lemma floppy_volume: "volume_ok (from_bpb floppy_bpb)" "cluster_size (from_bpb floppy_bpb) = 512"
  "bytes_per_cluster (from_bpb floppy_bpb) = 512"
  using floppy_table_ok(1)
  by (simp_all add: volume_ok_def cluster_size_def bytes_per_cluster_def fat_base_def floppy_table)

lemma floppy_data_cluster: "data_cluster (from_bpb floppy_bpb) c \<longleftrightarrow> 2 \<le> unat c \<and> unat c < 3072"
proof -
  have "n div 2 * 3 + 3 \<le> 4608 \<longleftrightarrow> n < 3072" for n :: nat
  proof -
    have "n div 2 * 3 + 3 \<le> 4608 \<longleftrightarrow> n div 2 < 1536" by (rule iffI) simp_all
    then show ?thesis by (simp add: div_less_iff_less_mult)
  qed
  then show ?thesis
    unfolding data_cluster_def floppy_table_ok(2) word_le_nat_alt word_less_nat_alt by simp linarith
qed

lemma floppy_file_pos: "16896 \<le> file_pos (from_bpb floppy_bpb) cs p"
  by (simp add: file_pos_def cluster_pos_def floppy_table)

definition sample_file :: fat_file where
  "sample_file = \<lparr>f_dir_entry = dir_entry_new\<lparr>first_file_cluster := 2, byte_size := 514\<rparr>, f_dir_entry_disk_offset = 9728, cluster_cache = []\<rparr>"

lemma sample_file_chain: "file_chain (from_bpb floppy_bpb) (disk_access_new sample_disk 65536) sample_file [2, 3, 5]"
  by (simp add: file_chain_def sample_file_def file_first_cluster_def chain_ok_def floppy_data_cluster fat_of_new sample_entries)

theorem file_read_exact_witness:
  "\<exists>d' f'. file_read sample_file [9, 9, 9, 9, 9, 9, 9, 9] 510 (from_bpb floppy_bpb) (disk_access_new sample_disk 65536) =
     Some (d', f', [0, 0, 0, 0, 9, 9, 9, 9], 4)"
proof -
  let ?t = "from_bpb floppy_bpb" and ?d = "disk_access_new sample_disk 65536" and ?buf = "[9, 9, 9, 9, 9, 9, 9, 9] :: u8 list"
  have size: "unat (file_byte_size sample_file) = 514" by (simp add: sample_file_def file_byte_size_def)
  have "sample_disk (file_pos ?t cs p) = 0" for cs p using floppy_file_pos [of cs p] by (simp add: sample_disk_def)
  then have bytes: "file_bytes ?t [2, 3, 5] (disk_view {} ?d) 510 4 = [0, 0, 0, 0]"
    using disk_access_new_ok(2) [of 65536 sample_disk] by (simp add: file_bytes_def upt_rec)
  have ready: "disk_ready (2 * length [2, 3, 5 :: u32] + 2 * 4 + 1 + 0) ?d" by (rule new_disk_ready) simp
  have pre: "[2, 3, 5 :: u32] \<noteq> []" "unat (file_byte_size sample_file) \<le> length [2, 3, 5 :: u32] * cluster_size ?t"
      "510 \<le> file_byte_size sample_file" "length ?buf < 2 ^ 32"
      "4 = min (length ?buf) (unat (file_byte_size sample_file) - unat (510 :: u32))"
    by (simp_all add: size floppy_volume(2) word_le_nat_alt)
  have off: "unat (510 :: u32) = 510" "drop 4 ?buf = [9, 9, 9, 9]" by simp_all
  show ?thesis using file_read_exact [OF floppy_volume(1) sample_file_chain pre ready] unfolding off bytes by fastforce
qed

text \<open>
  (C2) Writing and reading back. Writing to a file, new or existing, with enough free clusters for the end of the
  data, stores all of the data; a read at the same offset returns it. The bytes of the file outside the data are
  unchanged, the size becomes the larger of the old size and the end of the data and is recorded in the
  directory entry, and nothing else on the volume changes outside the tables and the chain of the file.
\<close>

theorem file_write_read_back:
  assumes t: "volume_ok t" and f: "file_chain t d f cs" "entry_ok (f_dir_entry f)" "unat (file_byte_size f) \<le> length cs * cluster_size t"
    and data: "data \<noteq> []" "unat init + length data < 2 ^ 32" "length buffer = length data"
    and room: "unat init + length data \<le> (length cs + card (free_clusters t d)) * cluster_size t"
    and e: "e = unat (f_dir_entry_disk_offset f)" "entry_apart t (set cs \<union> free_clusters t d) e"
    and d: "disk_ready (write_cost t d cs (length data) + (2 * (length cs + card (free_clusters t d)) + 2 * length data + 1)) d"
  shows "\<exists>d' f' d'' new. file_write f data init t d = Some (d', f', of_nat (length data)) \<and>
    file_read f' buffer init t d' = Some (d'', f', data, of_nat (length data)) \<and>
    grown t cs d new d' \<and> file_chain t d' f' (cs @ new) \<and>
    (\<forall>p < unat (file_byte_size f). p < unat init \<or> unat init + length data \<le> p \<longrightarrow>
       disk_view {} d' (file_pos t (cs @ new) p) = disk_view {} d (file_pos t cs p)) \<and>
    unat (file_byte_size f') = max (unat (file_byte_size f)) (unat init + length data) \<and>
    (unat (file_byte_size f) < unat init + length data \<longrightarrow> entry_at (disk_view {} d') e = f_dir_entry f') \<and>
    (\<forall>x. outside_tables t x \<and> \<not> in_clusters t (set (cs @ new)) x \<and> (x < e \<or> e + 32 \<le> x) \<longrightarrow> disk_view {} d' x = disk_view {} d x)"
proof -
  let ?b = "2 * (length cs + card (free_clusters t d)) + 2 * length data + 1"
  from file_write_ok [OF t f(1,2) data(1,2) room e d] obtain d1 f1 new where
    w: "file_write f data init t d = Some (d1, f1, of_nat (length data))" "file_chain t d1 f1 (cs @ new)" "grown t cs d new d1" "cluster_cache f1 = cs @ new"
      "\<forall>p < length (cs @ new) * cluster_size t. disk_view {} d1 (file_pos t (cs @ new) p) =
        (if unat init \<le> p \<and> p < unat init + length data then data ! (p - unat init) else disk_view {} d (file_pos t (cs @ new) p))"
      "unat init + length data \<le> length (cs @ new) * cluster_size t"
      "unat (file_byte_size f1) = max (unat (file_byte_size f)) (unat init + length data)"
      "unat (file_byte_size f) < unat init + length data \<longrightarrow> entry_at (disk_view {} d1) e = f_dir_entry f1"
      "\<forall>x. outside_tables t x \<and> \<not> in_clusters t (set (cs @ new)) x \<and> (x < e \<or> e + 32 \<le> x) \<longrightarrow> disk_view {} d1 x = disk_view {} d x"
      "disk_ready ?b d1" by (elim exE conjE)
  have ne: "cs @ new \<noteq> []" using w(6) data(1) by auto
  have same: "with_chain f1 (cs @ new) = f1" unfolding with_chain_same [OF w(2) ne, symmetric] by (simp flip: w(4))
  have "card (set new) \<le> card (free_clusters t d)" "distinct (cs @ new)"
    using w(3) by (auto simp: grown_def chain_ok_def intro!: card_mono)
  then have "length new \<le> card (free_clusters t d)" by (simp add: distinct_card)
  then have ready: "disk_ready (2 * length (cs @ new) + 2 * length data + 1 + 0) d1" by (intro cached.ok_mono [OF w(10)]) simp
  have size: "unat (file_byte_size f1) \<le> length (cs @ new) * cluster_size t"
    using w(6,7) f(3) by (simp add: add_mult_distrib)
  have "init \<le> file_byte_size f1" "length data = min (length buffer) (unat (file_byte_size f1) - unat init)"
    using w(7) data(3) by (simp_all add: word_le_nat_alt max_def)
  from file_read_ok [OF t w(2) ne size this(1) _ this(2) ready] data(2,3)
  obtain d2 where "file_read f1 buffer init t d1 =
      Some (d2, f1, file_bytes t (cs @ new) (disk_view {} d1) (unat init) (length data), of_nat (length data))"
    by (auto simp: same)
  moreover have "file_bytes t (cs @ new) (disk_view {} d1) (unat init) (length data) = data"
    using w(5,6) by (intro nth_equalityI) (simp_all add: file_bytes_def)
  moreover have "disk_view {} d1 (file_pos t (cs @ new) p) = disk_view {} d (file_pos t cs p)"
    if "p < unat (file_byte_size f)" "p < unat init \<or> unat init + length data \<le> p" for p
  proof -
    have p: "p < length cs * cluster_size t" using that(1) f(3) by linarith
    then have "p < length (cs @ new) * cluster_size t" by (simp add: add_mult_distrib)
    then show ?thesis using w(5) [rule_format, of p] that(2) file_pos_append [OF p, of new] by auto
  qed
  ultimately show ?thesis using w(1-3,7-9) by (intro exI [of _ d1] exI [of _ f1] exI [of _ d2] exI [of _ new]) simp
qed

lemma card_free: "card (free_clusters t d) \<le> 4085"
  by (rule card_clusters [of _ t]) (auto simp: free_clusters_def)

lemma write_cost_le: "write_cost t d cs n \<le> 2 * length cs + 4086 * grow_cost t + 2 * n + 2"
  using mult_le_mono1 [OF card_free, of t d "grow_cost t"] by (simp add: write_cost_def)

lemma entry_apart_root:
  assumes "9728 \<le> e" "e + 32 \<le> 16896" shows "entry_apart (from_bpb floppy_bpb) S e"
  using assms by (auto simp: entry_apart_def outside_tables_def in_clusters_def fat_base_def cluster_pos_def floppy_table)

theorem file_write_read_back_witness:
  "\<exists>d' f' d''. file_write (file_from_dir_entry dir_entry_new 9728) [1, 2, 3] 0 (from_bpb floppy_bpb) (disk_access_new (\<lambda>_. 0) 65536) =
       Some (d', f', 3) \<and>
     file_read f' [0, 0, 0] 0 (from_bpb floppy_bpb) d' = Some (d'', f', [1, 2, 3], 3) \<and>
     byte_size (entry_at (disk_view {} d') 9728) = 3"
proof -
  let ?t = "from_bpb floppy_bpb" and ?d = "disk_access_new (\<lambda>_. 0) 65536" and ?f = "file_from_dir_entry dir_entry_new 9728"
  let ?F = "free_clusters ?t ?d"
  have f: "file_chain ?t ?d ?f []" "entry_ok (f_dir_entry ?f)" "unat (file_byte_size ?f) = 0" "unat (f_dir_entry_disk_offset ?f) = 9728"
    by (simp_all add: file_chain_def file_from_dir_entry_def file_first_cluster_def file_byte_size_def dir_entry_new_def entry_ok_def)
  have "2 \<in> ?F" by (simp add: free_clusters_def floppy_data_cluster fat_of_new fat_entry_def pair_offset_def get_bytes_def pair_value_def pair_entry_def upt_rec)
  then have "0 < card ?F" by (auto simp: card_gt_0_iff)
  then have room: "unat (0 :: u32) + length [1, 2, 3 :: u8] \<le> (length ([] :: u32 list) + card ?F) * cluster_size ?t"
    by (simp add: floppy_volume)
  have apart: "entry_apart ?t (set [] \<union> ?F) 9728" by (rule entry_apart_root) simp_all
  have "write_cost ?t ?d [] 3 + (2 * card ?F + 7) < 2 ^ 32"
    using write_cost_le [of ?t ?d "[]" 3] card_free [of ?t ?d] by (simp add: grow_cost_def floppy_table)
  then have "disk_ready (write_cost ?t ?d [] (length [1, 2, 3 :: u8]) + (2 * (length ([] :: u32 list) + card ?F) + 2 * length [1, 2, 3 :: u8] + 1)) ?d"
    by (intro new_disk_ready) (simp add: numeral_3_eq_3)
  from file_write_read_back [OF floppy_volume(1) f(1,2) _ _ _ _ room f(4) [symmetric] apart this, of "[0, 0, 0]"] f(3)
  obtain d' f' d'' where "file_write ?f [1, 2, 3] 0 ?t ?d = Some (d', f', 3)" "file_read f' [0, 0, 0] 0 ?t d' = Some (d'', f', [1, 2, 3], 3)"
      "unat (file_byte_size f') = 3" "entry_at (disk_view {} d') 9728 = f_dir_entry f'"
    by auto
  then show ?thesis by (auto simp: file_byte_size_def word_unat_eq_iff)
qed

text \<open>
  (C33) Reading behind the end of a file. At an offset larger than the size of the file but still inside its last
  cluster the count of bytes that remain wraps around, and reading returns what the cluster holds there.
\<close>

theorem read_past_end_returns_stale_bytes:
  assumes t: "volume_ok t" and f: "file_chain t d f cs" "cs \<noteq> []" and o: "file_byte_size f < init" "unat init < length cs * cluster_size t"
    and n: "n = min (length buffer) (cluster_size t - unat init mod cluster_size t)" "length buffer < 2 ^ 32"
    and d: "disk_ready (2 * length cs + n + 1 + b) d"
  shows "\<exists>d'. file_read f buffer init t d =
      Some (d', with_chain f cs, file_bytes t cs (disk_view {} d) (unat init) n @ drop n buffer, of_nat n)"
proof -
  let ?s = "cluster_size t" and ?f = "with_chain f cs"
  have s: "0 < ?s" "bytes_per_cluster t \<noteq> 0" using t by (auto simp: volume_ok_def cluster_size_def)
  have i: "unat init div ?s < length cs" using o(2) s(1) by (simp add: div_less_iff_less_mult)
  have chain: "chain_ok t d cs" using f by (simp add: file_chain_def split: if_splits)
  have "disk_ready (2 * length cs + (n + 1 + b)) d" using d by (simp add: add_ac)
  then obtain d1 where d1: "file_read f buffer init t d = file_read ?f buffer init t d1" "disk_ready (n + 1 + b) d1" "disk_view {} d1 = disk_view {} d"
    using file_read_cached [OF t f] by blast
  have "length cs \<le> 4085"
    using card_clusters [of "set cs" t] chain by (simp add: chain_ok_def distinct_card list_all_iff)
  then have "length cs * ?s \<le> 4085 * ?s" by (rule mult_le_mono1)
  moreover have "unat init + (?s - unat init mod ?s) \<le> length cs * ?s"
  proof -
    have "unat init + (?s - unat init mod ?s) = Suc (unat init div ?s) * ?s"
      using div_mult_mod_eq [of "unat init" ?s] mod_less_divisor [OF s(1), of "unat init"] unfolding mult_Suc by linarith
    also have "\<dots> \<le> length cs * ?s" using i by (intro mult_le_mono1) simp
    finally show ?thesis .
  qed
  moreover have "unat (at_first_cluster_location t) + ?s * 4085 + 511 < 2 ^ 32" using t by (simp add: volume_ok_def)
  ultimately have room: "unat init + (?s - unat init mod ?s) < 2 ^ 32" by (simp only: mult.commute [of ?s])
  have "unat (file_byte_size f - init) = unat (file_byte_size f) + 2 ^ 32 - unat init"
    using o(1) by (simp add: unat_sub_if' word_less_nat_alt)
  then have n': "n = min (length buffer - 0) (min (unat (file_byte_size ?f - init)) (?s - unat init mod ?s))"
    using room n(1) by simp
  have u: "unat (of_nat n + init :: u32) = n + unat init"
    using room n by (subst unat_add_u32) (auto simp: unat_of_nat_small min_def)
  have cl: "cluster_cache ?f \<noteq> []" "list_all (cluster_ok t) (cluster_cache ?f)" "unat init div ?s < length (cluster_cache ?f)"
    using f(2) i chain_clusters_ok [OF t chain] by simp_all
  from file_read_step [OF s(2) cl _ n(2) n' d1(2), of init]
  show ?thesis using d1(1,3) o(1) by (auto simp: file_read_def Let_def word_le_nat_alt word_less_nat_alt u)
qed

theorem read_past_end_returns_stale_bytes_witness:
  "file_byte_size sample_file = 514 \<and> (\<exists>d' f'. file_read sample_file [9, 9] 600 (from_bpb floppy_bpb) (disk_access_new sample_disk 65536) =
     Some (d', f', [0, 0], 2))"
proof -
  let ?t = "from_bpb floppy_bpb" and ?d = "disk_access_new sample_disk 65536"
  have size: "file_byte_size sample_file = 514" by (simp add: sample_file_def file_byte_size_def)
  have "sample_disk (file_pos ?t cs p) = 0" for cs p using floppy_file_pos [of cs p] by (simp add: sample_disk_def)
  then have bytes: "file_bytes ?t [2, 3, 5] (disk_view {} ?d) 600 2 = [0, 0]"
    using disk_access_new_ok(2) [of 65536 sample_disk] by (simp add: file_bytes_def upt_rec)
  have ready: "disk_ready (2 * length [2, 3, 5 :: u32] + 2 + 1 + 0) ?d" by (rule new_disk_ready) simp
  have pre: "[2, 3, 5 :: u32] \<noteq> []" "file_byte_size sample_file < 600" "unat (600 :: u32) < length [2, 3, 5 :: u32] * cluster_size ?t"
      "2 = min (length [9, 9 :: u8]) (cluster_size ?t - unat (600 :: u32) mod cluster_size ?t)" "length [9, 9 :: u8] < 2 ^ 32"
    by (simp_all add: size floppy_volume(2) word_less_nat_alt)
  have off: "unat (600 :: u32) = 600" "drop 2 [9, 9 :: u8] = []" by simp_all
  show ?thesis
    using read_past_end_returns_stale_bytes [OF floppy_volume(1) sample_file_chain pre ready] size unfolding off bytes by fastforce
qed

lemma next_cluster_any:
  assumes "unat (at_table_start t) + unat (pair_offset c) + 514 < 2 ^ 32" "disk_ready (2 + b) d"
  shows "\<exists>d'. get_next_cluster t c d = Some (d', if fat_of t 0 d c = 0xfff then None else Some (fat_of t 0 d c)) \<and>
    disk_ready b d' \<and> disk_view {} d' = disk_view {} d"
proof -
  have u: "unat (at_table_start t + pair_offset c) = unat (at_table_start t) + unat (pair_offset c)"
    using assms(1) by (intro unat_add_u32) simp
  have "disk_ready (sectors (at_table_start t + pair_offset c) (length [0, 0, 0 :: u8]) + b) d"
    using sectors_pair [of "at_table_start t + pair_offset c"] by (intro cached.ok_mono [OF assms(2)]) (simp add: numeral_3_eq_3)
  from cached.rd_view [OF this] assms(1) show ?thesis
    by (auto simp: get_next_cluster_def u fat_of_def fat_entry_def fat_base_def numeral_3_eq_3 Let_def)
qed


definition blank_floppy :: "nat \<Rightarrow> u8" where
  "blank_floppy x = (if x = 512 \<or> x = 5120 then 0xF0 else if x = 513 \<or> x = 514 \<or> x = 5121 \<or> x = 5122 then 0xFF else 0)"


end
