(* ===== verification/Fat_Subdir.thy ===== *)
theory Fat_Subdir
  imports Fat_File
begin

text \<open>
  Directories below the root (\<^verbatim>\<open>SubDirectory\<close>, \<^verbatim>\<open>SubdirIter\<close>, \<^verbatim>\<open>is_subdir_empty\<close>, \<^verbatim>\<open>AnyDirectory\<close>, \<^verbatim>\<open>resolve_path\<close> and
  \<^verbatim>\<open>Directory::read\<close> of \<^verbatim>\<open>components/drivers/fatdriver/src/dir.rs\<close>). Their entries fill a chain of clusters, so a
  directory is a file of records: slot \<open>k\<close> lies at position \<open>32 * k\<close> of the file. Loops along the chain are partial
  functions.
\<close>

section \<open>Iteration\<close>

record sub_directory =
  sd_first_cluster :: u32

record subdir_iter =
  si_table :: allocation_table
  si_current_cluster :: u32
  si_current_index_in_cluster :: u32
  si_entries_per_cluster :: u32
  si_current :: dir_entry

definition entries_per_cluster :: "allocation_table \<Rightarrow> u32" where
  "entries_per_cluster t = bytes_per_cluster t div 32"

definition subdir_iter_new :: "sub_directory \<Rightarrow> allocation_table \<Rightarrow> disk_access \<Rightarrow> (disk_access \<times> subdir_iter) option" where
  "subdir_iter_new sub t disk = do {
     let cluster_location = get_cluster_location t (sd_first_cluster sub);
     (disk, current) \<leftarrow> read_entry disk cluster_location;
     Some (disk, \<lparr>si_table = t, si_current_cluster = sd_first_cluster sub, si_current_index_in_cluster = 0,
                  si_entries_per_cluster = entries_per_cluster t, si_current = current\<rparr>)
   }"

definition current_entry_offset :: "subdir_iter \<Rightarrow> u32" where
  "current_entry_offset it = get_cluster_location (si_table it) (si_current_cluster it) + si_current_index_in_cluster it * 32"

text \<open>One turn of the loop in \<^verbatim>\<open>next\<close>: the iterator moves on to the following slot.\<close>

definition subdir_advance :: "subdir_iter \<Rightarrow> disk_access \<Rightarrow> (disk_access \<times> subdir_iter) option" where
  "subdir_advance it disk = do {
     let it = it\<lparr>si_current_index_in_cluster := si_current_index_in_cluster it + 1\<rparr>;
     (disk, it) \<leftarrow>
       (if si_entries_per_cluster it \<le> si_current_index_in_cluster it
        then do {
          (disk, nxt) \<leftarrow> get_next_cluster (si_table it) (si_current_cluster it) disk;
          (case nxt of
             Some c \<Rightarrow> Some (disk, it\<lparr>si_current_cluster := c, si_current_index_in_cluster := 0\<rparr>)
           | None \<Rightarrow> Some (disk, it\<lparr>si_current := (si_current it)\<lparr>file_name := (file_name (si_current it))[0 := 0x00]\<rparr>\<rparr>))
        }
        else Some (disk, it));
     (if file_name (si_current it) ! 0 \<noteq> 0x00
      then do {
        (disk, current) \<leftarrow> read_entry disk (current_entry_offset it);
        Some (disk, it\<lparr>si_current := current\<rparr>)
      }
      else Some (disk, it))
   }"

partial_function (option) subdir_next ::
  "subdir_iter \<Rightarrow> disk_access \<Rightarrow> (disk_access \<times> subdir_iter \<times> (dir_entry \<times> u32) option) option" where
  "subdir_next it disk =
     (if file_name (si_current it) ! 0 = 0x00 then Some (disk, it, None)
      else Option.bind (subdir_advance it disk) (\<lambda>(disk', it').
        if file_name (si_current it) ! 0 = 0xE5 then subdir_next it' disk'
        else Some (disk', it', Some (si_current it, current_entry_offset it))))"

declare subdir_next.simps [code]

partial_function (option) subdir_find_loop ::
  "u8 list \<Rightarrow> u8 list \<Rightarrow> subdir_iter \<Rightarrow> disk_access \<Rightarrow> (disk_access \<times> entity option) option" where
  "subdir_find_loop filename ext it disk =
     Option.bind (subdir_next it disk) (\<lambda>(disk, it, item).
       case item of
         None \<Rightarrow> Some (disk, None)
       | Some (entry, disk_offset) \<Rightarrow>
           if matches_name filename ext entry then Some (disk, Some (entity_of entry disk_offset))
           else subdir_find_loop filename ext it disk)"

declare subdir_find_loop.simps [code]

definition subdir_find_entry ::
  "sub_directory \<Rightarrow> u8 list \<Rightarrow> allocation_table \<Rightarrow> disk_access \<Rightarrow> (disk_access \<times> entity option) option" where
  "subdir_find_entry sub name t disk = do {
     let (short_filename, short_ext) = parse_short_name name;
     (disk, it) \<leftarrow> subdir_iter_new sub t disk;
     subdir_find_loop short_filename short_ext it disk
   }"

partial_function (option) subdir_names_loop :: "subdir_iter \<Rightarrow> disk_access \<Rightarrow> u8 list \<Rightarrow> (disk_access \<times> u8 list) option" where
  "subdir_names_loop it disk entries =
     Option.bind (subdir_next it disk) (\<lambda>(disk, it, item).
       case item of
         None \<Rightarrow> Some (disk, entries)
       | Some (entry, _) \<Rightarrow> subdir_names_loop it disk (entries @ get_full_name entry @ [0]))"

declare subdir_names_loop.simps [code]

section \<open>Changes\<close>

text \<open>The slots of one cluster are searched as those of the root directory.\<close>

partial_function (option) subdir_write_loop ::
  "allocation_table \<Rightarrow> u32 \<Rightarrow> dir_entry \<Rightarrow> disk_access \<Rightarrow> (disk_access \<times> (u32 + u32)) option" where
  "subdir_write_loop t cluster entry disk =
     Option.bind (root_write_loop (get_cluster_location t cluster) (unat (entries_per_cluster t)) 0 entry disk)
       (\<lambda>(disk, written).
         case written of
           Some offset \<Rightarrow> Some (disk, Inr offset)
         | None \<Rightarrow> Option.bind (get_next_cluster t cluster disk) (\<lambda>(disk, nxt).
             case nxt of
               Some c \<Rightarrow> subdir_write_loop t c entry disk
             | None \<Rightarrow> Some (disk, Inl cluster)))"

declare subdir_write_loop.simps [code]

partial_function (option) zero_loop :: "u32 \<Rightarrow> u32 \<Rightarrow> u32 \<Rightarrow> disk_access \<Rightarrow> disk_access option" where
  "zero_loop new_loc bytes_in_cluster off disk =
     (if off < bytes_in_cluster
      then let n = min (bytes_in_cluster - off) 512
           in Option.bind (write_bytes_to_disk disk (new_loc + off) (replicate (unat n) 0))
                (\<lambda>disk. zero_loop new_loc bytes_in_cluster (off + n) disk)
      else Some disk)"

declare zero_loop.simps [code]

definition subdir_write_entry ::
  "sub_directory \<Rightarrow> dir_entry \<Rightarrow> allocation_table \<Rightarrow> disk_access \<Rightarrow> (disk_access \<times> u32 option) option" where
  "subdir_write_entry sub entry t disk = do {
     (disk, res) \<leftarrow> subdir_write_loop t (sd_first_cluster sub) entry disk;
     (case res of
        Inr offset \<Rightarrow> Some (disk, Some offset)
      | Inl cluster \<Rightarrow> do {
          (disk, new) \<leftarrow> allocate_cluster t disk;
          (case new of
             None \<Rightarrow> Some (disk, None)
           | Some new_cluster \<Rightarrow> do {
               disk \<leftarrow> set_cluster_entry t cluster new_cluster disk;
               let new_loc = get_cluster_location t new_cluster;
               disk \<leftarrow> zero_loop new_loc (bytes_per_cluster t) 0 disk;
               disk \<leftarrow> write_entry_at disk new_loc entry;
               Some (disk, Some new_loc)
             })
        })
   }"

definition subdir_add_entry ::
  "sub_directory \<Rightarrow> u8 list \<Rightarrow> u8 list \<Rightarrow> u8 \<Rightarrow> u16 \<Rightarrow> allocation_table \<Rightarrow> u32 \<Rightarrow> disk_access \<Rightarrow> (disk_access \<times> u32 option) option" where
  "subdir_add_entry sub filename ext attributes first_cluster t timestamp disk =
     subdir_write_entry sub (fresh_entry filename ext attributes first_cluster timestamp) t disk"

text \<open>The scan of one cluster: \<open>None\<close> when it goes on to the next one, else the result of the search.\<close>

fun subdir_remove_scan ::
  "u32 \<Rightarrow> nat \<Rightarrow> u32 \<Rightarrow> u8 list \<Rightarrow> u8 list \<Rightarrow> disk_access \<Rightarrow> (disk_access \<times> dir_entry option option) option" where
  "subdir_remove_scan cluster_location 0 i filename ext disk = Some (disk, None)"
| "subdir_remove_scan cluster_location (Suc n) i filename ext disk = do {
     let offset = cluster_location + i * 32;
     (disk, entry) \<leftarrow> read_entry disk offset;
     (if file_name entry ! 0 = 0x00 then Some (disk, Some None)
      else if file_name entry ! 0 = 0xE5 then subdir_remove_scan cluster_location n (i + 1) filename ext disk
      else if matches_name filename ext entry
      then do { disk \<leftarrow> write_entry_at disk offset (mark_deleted entry); Some (disk, Some (Some entry)) }
      else subdir_remove_scan cluster_location n (i + 1) filename ext disk)
   }"

partial_function (option) subdir_remove_loop ::
  "allocation_table \<Rightarrow> u32 \<Rightarrow> u8 list \<Rightarrow> u8 list \<Rightarrow> disk_access \<Rightarrow> (disk_access \<times> dir_entry option) option" where
  "subdir_remove_loop t cluster filename ext disk =
     Option.bind (subdir_remove_scan (get_cluster_location t cluster) (unat (entries_per_cluster t)) 0 filename ext disk)
       (\<lambda>(disk, res).
         case res of
           Some removed \<Rightarrow> Some (disk, removed)
         | None \<Rightarrow> Option.bind (get_next_cluster t cluster disk) (\<lambda>(disk, nxt).
             case nxt of
               Some c \<Rightarrow> subdir_remove_loop t c filename ext disk
             | None \<Rightarrow> Some (disk, None)))"

declare subdir_remove_loop.simps [code]

definition subdir_remove_entry ::
  "sub_directory \<Rightarrow> u8 list \<Rightarrow> u8 list \<Rightarrow> allocation_table \<Rightarrow> disk_access \<Rightarrow> (disk_access \<times> dir_entry option) option" where
  "subdir_remove_entry sub filename ext t disk = subdir_remove_loop t (sd_first_cluster sub) filename ext disk"

fun subdir_empty_scan :: "u32 \<Rightarrow> nat \<Rightarrow> u32 \<Rightarrow> disk_access \<Rightarrow> (disk_access \<times> bool option) option" where
  "subdir_empty_scan loc 0 i disk = Some (disk, None)"
| "subdir_empty_scan loc (Suc n) i disk = do {
     let offset = loc + i * 32;
     (disk, entry) \<leftarrow> read_entry disk offset;
     (if file_name entry ! 0 = 0x00 then Some (disk, Some True)
      else if file_name entry ! 0 = 0xE5 \<or> get_filename entry = [0x2E] \<or> get_filename entry = [0x2E, 0x2E]
      then subdir_empty_scan loc n (i + 1) disk
      else Some (disk, Some False))
   }"

partial_function (option) is_subdir_empty :: "allocation_table \<Rightarrow> u32 \<Rightarrow> disk_access \<Rightarrow> (disk_access \<times> bool) option" where
  "is_subdir_empty t cluster disk =
     Option.bind (subdir_empty_scan (get_cluster_location t cluster) (unat (entries_per_cluster t)) 0 disk)
       (\<lambda>(disk, res).
         case res of
           Some result \<Rightarrow> Some (disk, result)
         | None \<Rightarrow> Option.bind (get_next_cluster t cluster disk) (\<lambda>(disk, nxt).
             case nxt of
               Some c \<Rightarrow> is_subdir_empty t c disk
             | None \<Rightarrow> Some (disk, True)))"

declare is_subdir_empty.simps [code]

section \<open>Any directory\<close>

datatype any_directory = Any_Root root_directory | Any_Sub sub_directory

fun any_first_cluster :: "any_directory \<Rightarrow> u32" where
  "any_first_cluster (Any_Root _) = 0"
| "any_first_cluster (Any_Sub sub) = sd_first_cluster sub"

fun any_find_entry :: "any_directory \<Rightarrow> u8 list \<Rightarrow> allocation_table \<Rightarrow> disk_access \<Rightarrow> (disk_access \<times> entity option) option" where
  "any_find_entry (Any_Root root) name t disk = root_find_entry root name disk"
| "any_find_entry (Any_Sub sub) name t disk = subdir_find_entry sub name t disk"

fun any_add_entry ::
  "any_directory \<Rightarrow> u8 list \<Rightarrow> u8 list \<Rightarrow> u8 \<Rightarrow> u16 \<Rightarrow> allocation_table \<Rightarrow> u32 \<Rightarrow> disk_access \<Rightarrow> (disk_access \<times> u32 option) option" where
  "any_add_entry (Any_Root root) filename ext attributes first_cluster t timestamp disk =
     root_add_entry root filename ext attributes first_cluster timestamp disk"
| "any_add_entry (Any_Sub sub) filename ext attributes first_cluster t timestamp disk =
     subdir_add_entry sub filename ext attributes first_cluster t timestamp disk"

fun any_remove_entry ::
  "any_directory \<Rightarrow> u8 list \<Rightarrow> u8 list \<Rightarrow> allocation_table \<Rightarrow> disk_access \<Rightarrow> (disk_access \<times> dir_entry option) option" where
  "any_remove_entry (Any_Root root) filename ext t disk = root_remove_entry root filename ext disk"
| "any_remove_entry (Any_Sub sub) filename ext t disk = subdir_remove_entry sub filename ext t disk"

fun any_write_entry :: "any_directory \<Rightarrow> dir_entry \<Rightarrow> allocation_table \<Rightarrow> disk_access \<Rightarrow> (disk_access \<times> u32 option) option" where
  "any_write_entry (Any_Root root) entry t disk = root_write_entry root entry disk"
| "any_write_entry (Any_Sub sub) entry t disk = subdir_write_entry sub entry t disk"

section \<open>Paths\<close>

datatype path_error = Path_InvalidArgument | Path_NotFound

fun split_path :: "u8 list \<Rightarrow> u8 list list" where
  "split_path [] = [[]]"
| "split_path (c # cs) =
     (if c = 0x2F \<or> c = 0x5C then [] # split_path cs
      else case split_path cs of
        [] \<Rightarrow> [[c]]
      | component # rest \<Rightarrow> (c # component) # rest)"

fun resolve_loop ::
  "u8 list list \<Rightarrow> any_directory \<Rightarrow> allocation_table \<Rightarrow> disk_access \<Rightarrow> (disk_access \<times> (path_error + any_directory)) option" where
  "resolve_loop [] current t disk = Some (disk, Inr current)"
| "resolve_loop (component # rest) current t disk =
     (if component = [] then resolve_loop rest current t disk
      else do {
        (disk, found) \<leftarrow> any_find_entry current component t disk;
        (case found of
           None \<Rightarrow> Some (disk, Inl Path_NotFound)
         | Some (Entity_File _) \<Rightarrow> Some (disk, Inl Path_NotFound)
         | Some (Entity_Dir d) \<Rightarrow>
             (case dir_type d of
                Dir_Subdir entry \<Rightarrow> resolve_loop rest (Any_Sub \<lparr>sd_first_cluster = ucast (first_file_cluster entry)\<rparr>) t disk
              | Dir_Root _ \<Rightarrow> Some (disk, Inl Path_InvalidArgument)))
      })"

definition split_leaf :: "u8 list \<Rightarrow> u8 list \<times> u8 list" where
  "split_leaf path =
     (case rsplit_once 0x2F path of
        Some pair \<Rightarrow> pair
      | None \<Rightarrow> (case rsplit_once 0x5C path of Some pair \<Rightarrow> pair | None \<Rightarrow> ([], path)))"

definition resolve_path ::
  "u8 list \<Rightarrow> root_directory \<Rightarrow> allocation_table \<Rightarrow> disk_access \<Rightarrow> (disk_access \<times> (path_error + any_directory \<times> u8 list)) option" where
  "resolve_path path root t disk =
     (if path = [] then Some (disk, Inl Path_InvalidArgument)
      else
        let (parent_path, leaf) = split_leaf path
        in if leaf = [] then Some (disk, Inl Path_InvalidArgument)
           else do {
             (disk, res) \<leftarrow> (if parent_path = [] then Some (disk, Inr (Any_Root root))
                            else resolve_loop (split_path parent_path) (Any_Root root) t disk);
             (case res of
                Inl e \<Rightarrow> Some (disk, Inl e)
              | Inr current \<Rightarrow> Some (disk, Inr (current, leaf)))
           })"

section \<open>Listing a directory\<close>

definition subdir_names :: "sub_directory \<Rightarrow> allocation_table \<Rightarrow> disk_access \<Rightarrow> (disk_access \<times> u8 list) option" where
  "subdir_names sub t disk = do {
     (disk, it) \<leftarrow> subdir_iter_new sub t disk;
     subdir_names_loop it disk []
   }"

definition directory_modification_time :: "directory \<Rightarrow> u32" where
  "directory_modification_time d = (case dir_type d of Dir_Root _ \<Rightarrow> 0 | Dir_Subdir entry \<Rightarrow> get_modification_timestamp entry)"

fun copy_entries :: "nat \<Rightarrow> u8 list \<Rightarrow> u32 \<Rightarrow> nat \<Rightarrow> u8 list \<Rightarrow> u8 list option" where
  "copy_entries 0 entries offset bytes_written buffer = Some buffer"
| "copy_entries (Suc n) entries offset bytes_written buffer =
     (let i = unat (offset + of_nat bytes_written)
      in if i < length entries then copy_entries n entries offset (bytes_written + 1) (buffer[bytes_written := entries ! i])
         else None)"

definition directory_fetch :: "directory \<Rightarrow> allocation_table \<Rightarrow> disk_access \<Rightarrow> (disk_access \<times> directory) option" where
  "directory_fetch d t disk =
     (if entries_fetched d then Some (disk, d)
      else do {
        (disk, names) \<leftarrow>
          (case dir_type d of
             Dir_Root root \<Rightarrow> root_names root disk
           | Dir_Subdir entry \<Rightarrow> subdir_names \<lparr>sd_first_cluster = ucast (first_file_cluster entry)\<rparr> t disk);
        Some (disk, d\<lparr>dir_entries := dir_entries d @ names, entries_fetched := True\<rparr>)
      })"

definition directory_read ::
  "directory \<Rightarrow> u8 list \<Rightarrow> u32 \<Rightarrow> allocation_table \<Rightarrow> disk_access \<Rightarrow> (disk_access \<times> directory \<times> u8 list \<times> u32) option" where
  "directory_read d buffer offset t disk = do {
     (disk, d) \<leftarrow> directory_fetch d t disk;
     let bytes_remaining = of_nat (length (dir_entries d)) - offset;
     let bytes_to_write = min (unat bytes_remaining) (length buffer);
     buffer \<leftarrow> copy_entries bytes_to_write (dir_entries d) offset 0 buffer;
     Some (disk, d, buffer, of_nat bytes_to_write)
   }"

section \<open>The slots of a directory\<close>

definition per_cluster :: "allocation_table \<Rightarrow> nat" where
  "per_cluster t = unat (entries_per_cluster t)"

definition sub_slot :: "allocation_table \<Rightarrow> u32 list \<Rightarrow> disk_access \<Rightarrow> nat \<Rightarrow> dir_entry" where
  "sub_slot t cs d k = entry_at (disk_view {} d) (file_pos t cs (32 * k))"

definition sub_offset :: "allocation_table \<Rightarrow> u32 list \<Rightarrow> nat \<Rightarrow> u32" where
  "sub_offset t cs k = get_cluster_location t (cs ! (k div per_cluster t)) + of_nat (k mod per_cluster t) * 32"

definition sub_count :: "allocation_table \<Rightarrow> u32 list \<Rightarrow> nat" where
  "sub_count t cs = length cs * per_cluster t"

lemma cluster_size_entries: "cluster_size t = 32 * per_cluster t"
proof -
  have "unat (bytes_per_cluster t) = unat (at_sectors_per_cluster t) * 512 mod 2 ^ 32"
    by (simp add: bytes_per_cluster_def unat_word_ariths)
  moreover have "(32 :: nat) dvd unat (at_sectors_per_cluster t) * 512 mod 2 ^ 32"
    by (intro dvd_mod dvd_mult) simp_all
  ultimately have "32 dvd unat (bytes_per_cluster t)" by simp
  then show ?thesis by (simp add: cluster_size_def per_cluster_def entries_per_cluster_def unat_div)
qed

lemma per_cluster_pos: "volume_ok t \<Longrightarrow> 0 < per_cluster t"
  using cluster_size_entries [of t] by (simp add: volume_ok_def)

lemma slot_file_pos: "file_pos t cs (32 * k) = cluster_pos t (cs ! (k div per_cluster t)) + 32 * (k mod per_cluster t)"
  by (simp add: file_pos_def cluster_size_entries flip: mult_mod_right)

lemma cluster_slots:
  assumes "volume_ok t" "data_cluster t c"
  shows "unat (get_cluster_location t c) = cluster_pos t c" "slots_ok (get_cluster_location t c) (per_cluster t)"
proof -
  have c: "cluster_ok t c" by (rule data_cluster_ok [OF assms])
  have "0 < cluster_size t" using assms(1) by (simp add: volume_ok_def)
  then show loc: "unat (get_cluster_location t c) = cluster_pos t c" using cluster_location [OF c, of 0] by simp
  show "slots_ok (get_cluster_location t c) (per_cluster t)"
    using c by (simp add: slots_ok_def loc cluster_ok_def cluster_size_entries mult.commute)
qed

lemma sub_slot_at:
  assumes "volume_ok t" "chain_ok t d0 cs" "j < length cs" "i < per_cluster t"
  shows "slot_at d (get_cluster_location t (cs ! j)) i = sub_slot t cs d (j * per_cluster t + i)"
    "unat (get_cluster_location t (cs ! j)) + i * 32 = file_pos t cs (32 * (j * per_cluster t + i))"
    "get_cluster_location t (cs ! j) + of_nat i * 32 = sub_offset t cs (j * per_cluster t + i)"
proof -
  have k: "(j * per_cluster t + i) div per_cluster t = j" "(j * per_cluster t + i) mod per_cluster t = i"
    using assms(4) by (simp_all add: mod_less)
  show pos: "unat (get_cluster_location t (cs ! j)) + i * 32 = file_pos t cs (32 * (j * per_cluster t + i))"
    unfolding slot_file_pos k using cluster_slots(1) [OF assms(1) chain_data [OF assms(2,3)]] by simp
  show "slot_at d (get_cluster_location t (cs ! j)) i = sub_slot t cs d (j * per_cluster t + i)"
    by (simp only: slot_at_def sub_slot_def pos)
  show "get_cluster_location t (cs ! j) + of_nat i * 32 = sub_offset t cs (j * per_cluster t + i)"
    by (simp only: sub_offset_def k)
qed

lemma sub_slot_view: "disk_view {} d' = disk_view {} d \<Longrightarrow> sub_slot t cs d' = sub_slot t cs d"
  by (intro ext) (simp add: sub_slot_def)

lemma sub_slot_ok: "entry_ok (sub_slot t cs d k)"
  by (simp add: sub_slot_def entry_at_ok)

lemma dir_slot_bytes:
  assumes t: "volume_ok t" and k: "k < sub_count t cs"
  shows "get_bytes m (file_pos t cs (32 * k)) 32 = file_bytes t cs m (32 * k) 32" "32 * k + 32 \<le> length cs * cluster_size t"
    "32 \<le> cluster_size t - 32 * k mod cluster_size t" "32 * k div cluster_size t < length cs"
proof -
  have p: "0 < per_cluster t" by (rule per_cluster_pos [OF t])
  show fit: "32 \<le> cluster_size t - 32 * k mod cluster_size t"
    using p by (simp add: cluster_size_entries flip: mult_mod_right) (metis Suc_leI diff_mult_distrib2 mod_less_divisor mult.right_neutral mult_le_mono2 zero_less_diff le_numeral_extra(4) One_nat_def)
  show "get_bytes m (file_pos t cs (32 * k)) 32 = file_bytes t cs m (32 * k) 32"
    using t by (intro file_bytes_contiguous [OF fit]) (simp add: volume_ok_def)
  show "32 * k + 32 \<le> length cs * cluster_size t" using k by (simp add: cluster_size_entries sub_count_def)
  show "32 * k div cluster_size t < length cs" using k p by (simp add: cluster_size_entries sub_count_def div_less_iff_less_mult)
qed

lemma sub_slot_write:
  assumes t: "volume_ok t" and cs: "chain_ok t d0 cs" and k: "k < sub_count t cs" "l < sub_count t cs" and e: "entry_ok e"
    and d': "disk_view {} d' = put_bytes (file_pos t cs (32 * k)) (entry_bytes e) (disk_view {} d)"
  shows "sub_slot t cs d' l = (if l = k then e else sub_slot t cs d l)"
proof -
  have s: "0 < cluster_size t" using t by (simp add: volume_ok_def)
  have len: "length (entry_bytes e) = 32" by (rule length_entry_bytes [OF e])
  have byte: "disk_view {} d' (file_pos t cs p) = (if 32 * k \<le> p \<and> p < 32 * k + 32 then entry_bytes e ! (p - 32 * k) else disk_view {} d (file_pos t cs p))"
    if "p < length cs * cluster_size t" for p
    unfolding d' using file_put [OF s cs, of "32 * k" "entry_bytes e" p] dir_slot_bytes(3,4) [OF t k(1)] that len by simp
  have "get_bytes (disk_view {} d') (file_pos t cs (32 * l)) 32 = (if l = k then entry_bytes e else get_bytes (disk_view {} d) (file_pos t cs (32 * l)) 32)"
    unfolding dir_slot_bytes(1) [OF t k(2)] using dir_slot_bytes(2) [OF t k(2)] len
    by (intro nth_equalityI) (auto simp: file_bytes_def byte)
  then show ?thesis using entry_roundtrip [OF e] by (simp add: sub_slot_def entry_at_def)
qed

section \<open>Along the chain\<close>

lemma fat_chain_nth: "fat_chain f cs \<Longrightarrow> j < length cs \<Longrightarrow> f (cs ! j) = (if Suc j < length cs then cs ! Suc j else 0xfff)"
proof (induction f cs arbitrary: j rule: fat_chain.induct)
  case (3 f c c' cs)
  then show ?case by (cases j) auto
qed auto

lemma chain_next:
  assumes t: "volume_ok t" and cs: "chain_ok t d cs" "j < length cs" and d: "disk_ready (2 + b) d"
  shows "\<exists>d'. get_next_cluster t (cs ! j) d = Some (d', if Suc j < length cs then Some (cs ! Suc j) else None) \<and>
    disk_ready b d' \<and> disk_view {} d' = disk_view {} d"
proof -
  have "data_cluster t (cs ! Suc j)" if "Suc j < length cs" using chain_data [OF cs(1) that] .
  then have mark: "Suc j < length cs \<longrightarrow> cs ! Suc j \<noteq> 0xfff" using cluster_not_mark [of t "cs ! Suc j"] by blast
  have fat: "fat_of t 0 d (cs ! j) = (if Suc j < length cs then cs ! Suc j else 0xfff)"
    using fat_chain_nth [of "fat_of t 0 d" cs j] cs by (simp add: chain_ok_def)
  have "in_table t (cs ! j)" using chain_data [OF cs] by (simp add: data_cluster_def)
  from get_next_cluster_ok [OF volume_table [OF t] this d] show ?thesis using fat mark by auto
qed

text \<open>The accesses spent on one cluster of the directory.\<close>

definition scan_cost :: "allocation_table \<Rightarrow> nat" where
  "scan_cost t = 2 * per_cluster t + 6"

lemma scan_budget: "j < length cs \<Longrightarrow> (length cs - j) * scan_cost t = scan_cost t + (length cs - Suc j) * scan_cost t"
proof -
  assume "j < length cs"
  then have "length cs - j = Suc (length cs - Suc j)" by simp
  then show ?thesis by simp
qed

lemma subdir_write_found:
  assumes t: "volume_ok t" and e: "entry_ok e" and k: "k < sub_count t cs"
    and "chain_ok t d cs" "slot_is_free (sub_slot t cs d k)" "\<forall>l < k. \<not> slot_is_free (sub_slot t cs d l)"
    "j * per_cluster t \<le> k" "j < length cs" "disk_ready ((length cs - j) * scan_cost t + b) d"
  shows "\<exists>d'. subdir_write_loop t (cs ! j) e d = Some (d', Inr (sub_offset t cs k)) \<and> disk_ready b d' \<and>
    disk_view {} d' = put_bytes (file_pos t cs (32 * k)) (entry_bytes e) (disk_view {} d)"
  using assms(4-)
proof (induction "length cs - j" arbitrary: j d)
  case (Suc n)
  let ?p = "per_cluster t" and ?loc = "get_cluster_location t (cs ! j)"
  note base = cluster_slots(2) [OF t chain_data [OF Suc.prems(1,5)]] and slots = sub_slot_at [OF t Suc.prems(1,5)]
  define b' where "b' = (length cs - Suc j) * scan_cost t + b"
  have ready: "disk_ready (2 * ?p + 6 + b') d" using Suc.prems(6) scan_budget [OF Suc.prems(5), of t] by (simp add: b'_def scan_cost_def add.assoc)
  show ?case
  proof (cases "k < Suc j * ?p")
    case True
    define i where "i = k - j * ?p"
    have i: "i < ?p" "k = j * ?p + i" using True Suc.prems(4) by (auto simp: i_def)
    have "disk_ready (2 * i + 4 + b) d" using i(1) by (intro cached.ok_mono [OF ready]) (simp add: b'_def)
    moreover have "slot_is_free (slot_at d ?loc i)" "\<forall>l < i. \<not> slot_is_free (slot_at d ?loc l)"
      using Suc.prems(2,3) i slots(1) by simp_all
    ultimately show ?thesis
      using write_loop_found [OF base e, of 0 ?p i d b] i slots(2,3) [of i]
      by (subst subdir_write_loop.simps) (auto simp: per_cluster_def)
  next
    case False
    then have j: "Suc j * ?p \<le> k" by simp
    have "Suc j * ?p < length cs * ?p" using j k by (simp add: sub_count_def)
    then have j': "Suc j < length cs" by (simp only: mult_less_cancel2)
    have "\<forall>l < ?p. \<not> slot_is_free (slot_at d ?loc l)" using Suc.prems(3) j slots(1) by auto
    moreover have "disk_ready (2 * ?p + (2 + b')) d" by (rule cached.ok_mono [OF ready]) simp
    ultimately obtain d1 where d1: "root_write_loop ?loc ?p 0 e d = Some (d1, None)" "disk_ready (2 + b') d1" "disk_view {} d1 = disk_view {} d"
      using write_loop_full [OF base, of 0 ?p d "2 + b'"] by auto
    have cs1: "chain_ok t d1 cs" using Suc.prems(1) chain_ok_view [OF d1(3)] by simp
    obtain d2 where d2: "get_next_cluster t (cs ! j) d1 = Some (d2, Some (cs ! Suc j))" "disk_ready b' d2" "disk_view {} d2 = disk_view {} d1"
      using chain_next [OF t cs1 Suc.prems(5) d1(2)] j' by auto
    have same: "disk_view {} d2 = disk_view {} d" using d1(3) d2(3) by simp
    have "subdir_write_loop t (cs ! j) e d = subdir_write_loop t (cs ! Suc j) e d2"
      using d1(1) d2(1) by (subst subdir_write_loop.simps) (simp add: per_cluster_def)
    then show ?thesis
      using Suc.hyps(1) [of "Suc j" d2] Suc.hyps(2) Suc.prems(1-3) j j' d2(2) chain_ok_view [OF same] sub_slot_view [OF same]
      by (simp add: b'_def same)
  qed
qed simp

lemma subdir_write_full:
  assumes t: "volume_ok t" and "chain_ok t d cs" "\<forall>l < sub_count t cs. \<not> slot_is_free (sub_slot t cs d l)" "j < length cs"
    "disk_ready ((length cs - j) * scan_cost t + b) d"
  shows "\<exists>d'. subdir_write_loop t (cs ! j) e d = Some (d', Inl (last cs)) \<and> disk_ready b d' \<and> disk_view {} d' = disk_view {} d"
  using assms(2-)
proof (induction "length cs - j" arbitrary: j d)
  case (Suc n)
  let ?p = "per_cluster t" and ?loc = "get_cluster_location t (cs ! j)"
  note base = cluster_slots(2) [OF t chain_data [OF Suc.prems(1,3)]] and slots = sub_slot_at [OF t Suc.prems(1,3)]
  define b' where "b' = (length cs - Suc j) * scan_cost t + b"
  have ready: "disk_ready (2 * ?p + (2 + b')) d"
    using Suc.prems(4) scan_budget [OF Suc.prems(3), of t] by (auto intro: cached.ok_mono simp: b'_def scan_cost_def)
  have "j * ?p + l < sub_count t cs" if "l < ?p" for l
  proof -
    have "j * ?p + l < Suc j * ?p" using that by simp
    also have "\<dots> \<le> sub_count t cs" unfolding sub_count_def using Suc.prems(3) by (intro mult_le_mono1) simp
    finally show ?thesis .
  qed
  then have "\<forall>l < ?p. \<not> slot_is_free (slot_at d ?loc l)" using Suc.prems(2) slots(1) by simp
  then obtain d1 where d1: "root_write_loop ?loc ?p 0 e d = Some (d1, None)" "disk_ready (2 + b') d1" "disk_view {} d1 = disk_view {} d"
    using write_loop_full [OF base, of 0 ?p d "2 + b'"] ready by auto
  have cs1: "chain_ok t d1 cs" using Suc.prems(1) chain_ok_view [OF d1(3)] by simp
  obtain d2 where d2: "get_next_cluster t (cs ! j) d1 = Some (d2, if Suc j < length cs then Some (cs ! Suc j) else None)"
      "disk_ready b' d2" "disk_view {} d2 = disk_view {} d1"
    using chain_next [OF t cs1 Suc.prems(3) d1(2)] by auto
  have same: "disk_view {} d2 = disk_view {} d" using d1(3) d2(3) by simp
  show ?case
  proof (cases "Suc j < length cs")
    case True
    then have "subdir_write_loop t (cs ! j) e d = subdir_write_loop t (cs ! Suc j) e d2"
      using d1(1) d2(1) by (subst subdir_write_loop.simps) (simp add: per_cluster_def)
    then show ?thesis
      using Suc.hyps(1) [of "Suc j" d2] Suc.hyps(2) Suc.prems(1,2) True d2(2) chain_ok_view [OF same] sub_slot_view [OF same]
      by (simp add: b'_def same)
  next
    case False
    then have "cs ! j = last cs" using Suc.prems(3) by (metis Suc_lessI diff_Suc_1 last_conv_nth length_0_conv less_nat_zero_code)
    then show ?thesis
      using d1(1) d2 False same by (subst subdir_write_loop.simps) (auto simp: per_cluster_def b'_def intro: cached.ok_mono)
  qed
qed simp

end
