(* ===== verification/Net_Packet.thy ===== *)
theory Net_Packet
  imports Byte_Order
begin

text \<open>
  The packet headers of the network stack (\<^verbatim>\<open>kernel/src/net/protocol/\<close>: \<^verbatim>\<open>packet.rs\<close>,
  \<^verbatim>\<open>checksum.rs\<close>, \<^verbatim>\<open>ethernet.rs\<close>, \<^verbatim>\<open>arp.rs\<close>, \<^verbatim>\<open>ipv4.rs\<close>, \<^verbatim>\<open>udp.rs\<close>, \<^verbatim>\<open>tcp/header.rs\<close>, and
  \<^verbatim>\<open>net/hardware.rs\<close>).

  A header is a record with one field per field of the packed struct, holding the value the field
  has in memory: a multi-byte field that the code stores with \<^verbatim>\<open>to_be\<close> is stored byte-swapped here
  too. \<^verbatim>\<open>as_u8_buffer\<close> (a cast of the struct to bytes on a little-endian machine) is the function that
  lists the bytes of the fields in order and \<^verbatim>\<open>try_from_u8_buffer\<close> (a cast back) reads them. The
  locale \<open>packet_header\<close> states what the rest of the stack relies on, and every header type of
  the stack interprets it. An arbitrary byte in the \<^verbatim>\<open>protocol\<close> field of an IPv4 header is read as that
  byte.
\<close>

section \<open>Network byte order\<close>

text \<open>\<^verbatim>\<open>to_be\<close> and \<^verbatim>\<open>from_be\<close> on the little-endian target: a swap of the bytes.\<close>

definition to_be16 :: "u16 \<Rightarrow> u16" where
  "to_be16 w = le16 (byte_of 1 w) (byte_of 0 w)"

definition to_be32 :: "u32 \<Rightarrow> u32" where
  "to_be32 w = le32 (byte_of 3 w) (byte_of 2 w) (byte_of 1 w) (byte_of 0 w)"

lemma to_be16_involution [simp]: "to_be16 (to_be16 w) = w"
  by (simp add: to_be16_def)

lemma to_be32_involution [simp]: "to_be32 (to_be32 w) = w"
  by (simp add: to_be32_def)

lemma le16_bytes_be [simp]: "le16_bytes (to_be16 w) = be16_bytes w"
  by (simp add: le16_bytes_def be16_bytes_def to_be16_def)

lemma le32_bytes_be [simp]: "le32_bytes (to_be32 w) = be32_bytes w"
  by (simp add: le32_bytes_def be32_bytes_def to_be32_def)

section \<open>The header interface\<close>

text \<open>A slice of bytes reread as 16-bit words in native order.\<close>

fun u16_slice :: "u8 list \<Rightarrow> u16 list" where
  "u16_slice (a # b # r) = le16 a b # u16_slice r"
| "u16_slice _ = []"

text \<open>The provided methods of the trait, over the size and the bytes of the struct.\<close>

definition try_as_u16_buffer :: "nat \<Rightarrow> u8 list \<Rightarrow> u16 list option" where
  "try_as_u16_buffer size_of bytes = (if size_of mod 2 \<noteq> 0 then None else Some (u16_slice bytes))"

definition copy_to_u8_buffer :: "nat \<Rightarrow> u8 list \<Rightarrow> u8 list \<Rightarrow> (nat \<times> u8 list) option" where
  "copy_to_u8_buffer size_of bytes buffer =
     (if length buffer < size_of then None
      else let location = length buffer - size_of in Some (location, take location buffer @ bytes))"

locale packet_header =
  fixes size_of :: nat
    and as_bytes :: "'h \<Rightarrow> u8 list"
    and from_bytes :: "u8 list \<Rightarrow> 'h option"
  assumes bytes_size: "length (as_bytes h) = size_of"
    and from_as: "from_bytes (as_bytes h @ rest) = Some h"
    and too_short: "length buffer < size_of \<Longrightarrow> from_bytes buffer = None"
    and as_from: "from_bytes buffer = Some h \<Longrightarrow> take size_of buffer = as_bytes h"
begin

lemma from_exact: "from_bytes (as_bytes h) = Some h"
  using from_as [of h "[]"] by simp

lemma as_bytes_inj: "as_bytes g = as_bytes h \<Longrightarrow> g = h"
  by (metis from_exact option.inject)

lemma from_not_short: "from_bytes buffer = Some h \<Longrightarrow> size_of \<le> length buffer"
  by (metis leI option.distinct(1) too_short)

lemma rest_ignored:
  assumes "from_bytes buffer = Some h"
  shows "buffer = as_bytes h @ drop size_of buffer"
  using as_from [OF assms] append_take_drop_id [of size_of buffer] by metis

lemma copy_fits:
  assumes "length buffer = n + size_of"
  shows "copy_to_u8_buffer size_of (as_bytes h) buffer = Some (n, take n buffer @ as_bytes h)"
  using assms by (simp add: copy_to_u8_buffer_def)

end

section \<open>Addresses\<close>

datatype hardware_address = HardwareAddress u8 u8 u8 u8 u8 u8

datatype ipv4_address = Ipv4Address u8 u8 u8 u8

primrec mac_bytes :: "hardware_address \<Rightarrow> u8 list" where
  "mac_bytes (HardwareAddress a b c d e f) = [a, b, c, d, e, f]"

primrec ip_bytes :: "ipv4_address \<Rightarrow> u8 list" where
  "ip_bytes (Ipv4Address a b c d) = [a, b, c, d]"

definition BROADCAST :: hardware_address where
  "BROADCAST = HardwareAddress 0xff 0xff 0xff 0xff 0xff 0xff"

definition ipv4_default :: ipv4_address where
  "ipv4_default = Ipv4Address 0 0 0 0"

fun ipv4_bitand :: "ipv4_address \<Rightarrow> ipv4_address \<Rightarrow> ipv4_address" where
  "ipv4_bitand (Ipv4Address a b c d) (Ipv4Address a' b' c' d') =
     Ipv4Address (a AND a') (b AND b') (c AND c') (d AND d')"

lemma mac_bytes_length [simp]: "length (mac_bytes m) = 6"
  by (cases m) simp

lemma ip_bytes_length [simp]: "length (ip_bytes a) = 4"
  by (cases a) simp

section \<open>Fields at an offset\<close>

definition u16_at :: "u8 list \<Rightarrow> nat \<Rightarrow> u16" where
  "u16_at b i = le16 (b ! i) (b ! (i + 1))"

definition u32_at :: "u8 list \<Rightarrow> nat \<Rightarrow> u32" where
  "u32_at b i = le32 (b ! i) (b ! (i + 1)) (b ! (i + 2)) (b ! (i + 3))"

definition mac_at :: "u8 list \<Rightarrow> nat \<Rightarrow> hardware_address" where
  "mac_at b i = HardwareAddress (b ! i) (b ! (i + 1)) (b ! (i + 2)) (b ! (i + 3)) (b ! (i + 4)) (b ! (i + 5))"

definition ip_at :: "u8 list \<Rightarrow> nat \<Rightarrow> ipv4_address" where
  "ip_at b i = Ipv4Address (b ! i) (b ! (i + 1)) (b ! (i + 2)) (b ! (i + 3))"

lemmas field_at = u16_at_def u32_at_def mac_at_def ip_at_def

lemma take_as_nth: "n \<le> length xs \<Longrightarrow> take n xs = map ((!) xs) [0..<n]"
  by (simp add: list_eq_iff_nth_eq)

lemma upto_sizes:
  "[0..<8] = [0, 1, 2, 3, 4, 5, 6, 7]"
  "[0..<12] = [0, 1, 2, 3, 4, 5, 6, 7, 8, 9, 10, 11]"
  "[0..<14] = [0, 1, 2, 3, 4, 5, 6, 7, 8, 9, 10, 11, 12, 13]"
  "[0..<20] = [0, 1, 2, 3, 4, 5, 6, 7, 8, 9, 10, 11, 12, 13, 14, 15, 16, 17, 18, 19]"
  "[0..<28] = [0, 1, 2, 3, 4, 5, 6, 7, 8, 9, 10, 11, 12, 13, 14, 15, 16, 17, 18, 19, 20, 21, 22, 23, 24, 25, 26, 27]"
  by (simp_all add: upt_rec numeral_eq_Suc)

lemma nth_Suc_numeral: "b ! Suc (Suc 0) = b ! 2" "b ! Suc (Suc (Suc 0)) = b ! 3"
  by (simp_all add: numeral_eq_Suc)

lemmas as_nth = take_as_nth upto_sizes nth_Suc_numeral

section \<open>Ethernet and ARP\<close>

record ethernet_frame_header =
  eh_dest_mac :: hardware_address
  eh_src_mac :: hardware_address
  eh_ethertype :: u16

definition ETHERTYPE_IP :: u16 where "ETHERTYPE_IP = 0x0800"

definition ETHERTYPE_ARP :: u16 where "ETHERTYPE_ARP = 0x0806"

definition ethernet_new :: "hardware_address \<Rightarrow> hardware_address \<Rightarrow> u16 \<Rightarrow> ethernet_frame_header" where
  "ethernet_new src dest ethertype =
     \<lparr> eh_dest_mac = dest, eh_src_mac = src, eh_ethertype = to_be16 ethertype \<rparr>"

definition get_ethertype :: "ethernet_frame_header \<Rightarrow> u16" where
  "get_ethertype h = to_be16 (eh_ethertype h)"

definition broadcast_arp :: "hardware_address \<Rightarrow> ethernet_frame_header" where
  "broadcast_arp src = ethernet_new src BROADCAST ETHERTYPE_ARP"

definition ethernet_new_ipv4 :: "hardware_address \<Rightarrow> hardware_address \<Rightarrow> ethernet_frame_header" where
  "ethernet_new_ipv4 src dest = ethernet_new src dest ETHERTYPE_IP"

definition ethernet_bytes :: "ethernet_frame_header \<Rightarrow> u8 list" where
  "ethernet_bytes h = mac_bytes (eh_dest_mac h) @ mac_bytes (eh_src_mac h) @ le16_bytes (eh_ethertype h)"

definition ethernet_from :: "u8 list \<Rightarrow> ethernet_frame_header option" where
  "ethernet_from b = (if length b < 14 then None
     else Some \<lparr> eh_dest_mac = mac_at b 0, eh_src_mac = mac_at b 6, eh_ethertype = u16_at b 12 \<rparr>)"

interpretation eth: packet_header 14 ethernet_bytes ethernet_from
proof
  fix h :: ethernet_frame_header and rest :: "u8 list"
  obtain d s t where h: "h = \<lparr> eh_dest_mac = d, eh_src_mac = s, eh_ethertype = t \<rparr>"
    by (cases h) auto
  show "length (ethernet_bytes h) = 14"
    by (simp add: ethernet_bytes_def)
  show "ethernet_from (ethernet_bytes h @ rest) = Some h"
    unfolding h by (cases d; cases s) (simp add: ethernet_from_def ethernet_bytes_def field_at le16_bytes_def)
next
  fix b :: "u8 list" and h
  show "ethernet_from b = None" if "length b < 14"
    using that by (simp add: ethernet_from_def)
  show "take 14 b = ethernet_bytes h" if "ethernet_from b = Some h"
    using that by (auto simp: ethernet_from_def ethernet_bytes_def field_at le16_bytes_def as_nth split: if_splits)
qed

record arp_packet =
  arp_hardware_type :: u16
  arp_protocol_type :: u16
  arp_hardware_addr_length :: u8
  arp_protocol_addr_length :: u8
  arp_opcode :: u16
  source_hardware_addr :: hardware_address
  source_protocol_addr :: ipv4_address
  dest_hardware_addr :: hardware_address
  dest_protocol_addr :: ipv4_address

definition arp_request :: "hardware_address \<Rightarrow> ipv4_address \<Rightarrow> ipv4_address \<Rightarrow> arp_packet" where
  "arp_request src_mac src_ip lookup =
     \<lparr> arp_hardware_type = to_be16 1, arp_protocol_type = to_be16 0x0800, arp_hardware_addr_length = 6,
       arp_protocol_addr_length = 4, arp_opcode = to_be16 1, source_hardware_addr = src_mac,
       source_protocol_addr = src_ip, dest_hardware_addr = HardwareAddress 0 0 0 0 0 0,
       dest_protocol_addr = lookup \<rparr>"

definition arp_response ::
  "hardware_address \<Rightarrow> ipv4_address \<Rightarrow> hardware_address \<Rightarrow> ipv4_address \<Rightarrow> arp_packet" where
  "arp_response src_mac src_ip dest_mac dest_ip =
     \<lparr> arp_hardware_type = to_be16 1, arp_protocol_type = to_be16 0x0800, arp_hardware_addr_length = 6,
       arp_protocol_addr_length = 4, arp_opcode = to_be16 2, source_hardware_addr = src_mac,
       source_protocol_addr = src_ip, dest_hardware_addr = dest_mac, dest_protocol_addr = dest_ip \<rparr>"

definition arp_announce :: "hardware_address \<Rightarrow> ipv4_address \<Rightarrow> arp_packet" where
  "arp_announce mac ip = arp_request mac ip ip"

definition arp_respond_to :: "arp_packet \<Rightarrow> hardware_address \<Rightarrow> ipv4_address \<Rightarrow> arp_packet option" where
  "arp_respond_to request mac ip =
     (if arp_opcode request \<noteq> to_be16 1 then None
      else Some (arp_response mac ip (source_hardware_addr request) (source_protocol_addr request)))"

definition arp_is_request :: "arp_packet \<Rightarrow> bool" where
  "arp_is_request p \<longleftrightarrow> arp_opcode p = to_be16 1"

definition arp_bytes :: "arp_packet \<Rightarrow> u8 list" where
  "arp_bytes p = le16_bytes (arp_hardware_type p) @ le16_bytes (arp_protocol_type p) @
     [arp_hardware_addr_length p, arp_protocol_addr_length p] @ le16_bytes (arp_opcode p) @
     mac_bytes (source_hardware_addr p) @ ip_bytes (source_protocol_addr p) @
     mac_bytes (dest_hardware_addr p) @ ip_bytes (dest_protocol_addr p)"

definition arp_from :: "u8 list \<Rightarrow> arp_packet option" where
  "arp_from b = (if length b < 28 then None
     else Some \<lparr> arp_hardware_type = u16_at b 0, arp_protocol_type = u16_at b 2,
       arp_hardware_addr_length = b ! 4, arp_protocol_addr_length = b ! 5, arp_opcode = u16_at b 6,
       source_hardware_addr = mac_at b 8, source_protocol_addr = ip_at b 14,
       dest_hardware_addr = mac_at b 18, dest_protocol_addr = ip_at b 24 \<rparr>)"

interpretation arp: packet_header 28 arp_bytes arp_from
proof
  fix h :: arp_packet and rest :: "u8 list"
  show "length (arp_bytes h) = 28"
    by (simp add: arp_bytes_def)
  show "arp_from (arp_bytes h @ rest) = Some h"
    by (cases "source_hardware_addr h"; cases "source_protocol_addr h"; cases "dest_hardware_addr h";
        cases "dest_protocol_addr h") (simp add: arp_from_def arp_bytes_def field_at le16_bytes_def)
next
  fix b :: "u8 list" and h
  show "arp_from b = None" if "length b < 28"
    using that by (simp add: arp_from_def)
  show "take 28 b = arp_bytes h" if "arp_from b = Some h"
    using that by (auto simp: arp_from_def arp_bytes_def field_at le16_bytes_def as_nth split: if_splits)
qed

section \<open>Checksums\<close>

text \<open>\<^verbatim>\<open>Checksum(u32)\<close>: a running 32-bit sum of 16-bit words.\<close>

definition add_u16 :: "u32 \<Rightarrow> u16 \<Rightarrow> u32" where
  "add_u16 s value = s + ucast value"

definition checksum_compute :: "u32 \<Rightarrow> u16" where
  "checksum_compute s =
     (let carry = drop_bit 16 s;
          running_sum = (s AND 0xffff) + carry;
          running_sum = (if running_sum AND 0xffff0000 \<noteq> 0 then running_sum + 1 else running_sum)
      in ucast (NOT running_sum))"

record ip_checksum_header =
  ck_source_ip :: ipv4_address
  ck_dest_ip :: ipv4_address
  ck_zeroes :: u8
  ck_protocol :: u8
  ck_udp_length :: u16

definition ip_checksum_bytes :: "ip_checksum_header \<Rightarrow> u8 list" where
  "ip_checksum_bytes h = ip_bytes (ck_source_ip h) @ ip_bytes (ck_dest_ip h) @
     [ck_zeroes h, ck_protocol h] @ le16_bytes (ck_udp_length h)"

definition add_words :: "u32 \<Rightarrow> u16 list \<Rightarrow> u32" where
  "add_words s ws = fold (\<lambda>w s. add_u16 s w) ws s"

text \<open>The loop that adds the payload two bytes at a time, padding an odd last byte with zero.\<close>

fun payload_words :: "u8 list \<Rightarrow> u16 list" where
  "payload_words [] = []"
| "payload_words [low] = [le16 low 0]"
| "payload_words (low # high # r) = le16 low high # payload_words r"

section \<open>IPv4 headers\<close>

definition IP_TCP :: u8 where "IP_TCP = 0x06"

definition IP_UDP :: u8 where "IP_UDP = 0x11"

definition IP_ICMP :: u8 where "IP_ICMP = 0x01"

record ipv4_header =
  version_header_len :: u8
  diff_services :: u8
  ih_total_length :: u16
  identification :: u16
  fragment :: u16
  ih_ttl :: u8
  ih_protocol :: u8
  ih_checksum :: u16
  ih_source :: ipv4_address
  ih_dest :: ipv4_address

definition ipv4_bytes :: "ipv4_header \<Rightarrow> u8 list" where
  "ipv4_bytes h = [version_header_len h, diff_services h] @ le16_bytes (ih_total_length h) @
     le16_bytes (identification h) @ le16_bytes (fragment h) @ [ih_ttl h, ih_protocol h] @
     le16_bytes (ih_checksum h) @ ip_bytes (ih_source h) @ ip_bytes (ih_dest h)"

definition ipv4_from :: "u8 list \<Rightarrow> ipv4_header option" where
  "ipv4_from b = (if length b < 20 then None
     else Some \<lparr> version_header_len = b ! 0, diff_services = b ! 1, ih_total_length = u16_at b 2,
       identification = u16_at b 4, fragment = u16_at b 6, ih_ttl = b ! 8, ih_protocol = b ! 9,
       ih_checksum = u16_at b 10, ih_source = ip_at b 12, ih_dest = ip_at b 16 \<rparr>)"

definition ipv4_compute_checksum :: "ipv4_header \<Rightarrow> u16 option" where
  "ipv4_compute_checksum h = map_option (\<lambda>slice. checksum_compute (add_words 0 slice))
     (try_as_u16_buffer 20 (ipv4_bytes h))"

definition ipv4_new ::
  "ipv4_address \<Rightarrow> ipv4_address \<Rightarrow> u16 \<Rightarrow> u8 \<Rightarrow> u8 \<Rightarrow> ipv4_header option" where
  "ipv4_new source dest content_len ttl protocol =
     (let header = \<lparr> version_header_len = 0x45, diff_services = 0,
        ih_total_length = to_be16 (20 + content_len), identification = 0, fragment = 0, ih_ttl = ttl,
        ih_protocol = protocol, ih_checksum = 0, ih_source = source, ih_dest = dest \<rparr>
      in map_option (\<lambda>c. header \<lparr> ih_checksum := c \<rparr>) (ipv4_compute_checksum header))"

definition ipv4_new_udp :: "ipv4_address \<Rightarrow> ipv4_address \<Rightarrow> u16 \<Rightarrow> u8 \<Rightarrow> ipv4_header option" where
  "ipv4_new_udp source dest content_len ttl = ipv4_new source dest content_len ttl IP_UDP"

definition ipv4_new_tcp :: "ipv4_address \<Rightarrow> ipv4_address \<Rightarrow> u16 \<Rightarrow> u8 \<Rightarrow> ipv4_header option" where
  "ipv4_new_tcp source dest content_len ttl = ipv4_new source dest content_len ttl IP_TCP"

interpretation ipv4: packet_header 20 ipv4_bytes ipv4_from
proof
  fix h :: ipv4_header and rest :: "u8 list"
  show "length (ipv4_bytes h) = 20"
    by (simp add: ipv4_bytes_def)
  show "ipv4_from (ipv4_bytes h @ rest) = Some h"
    by (cases "ih_source h"; cases "ih_dest h")
      (simp add: ipv4_from_def ipv4_bytes_def field_at le16_bytes_def)
next
  fix b :: "u8 list" and h
  show "ipv4_from b = None" if "length b < 20"
    using that by (simp add: ipv4_from_def)
  show "take 20 b = ipv4_bytes h" if "ipv4_from b = Some h"
    using that by (auto simp: ipv4_from_def ipv4_bytes_def field_at le16_bytes_def as_nth split: if_splits)
qed

section \<open>UDP headers\<close>

record udp_header =
  uh_source_port :: u16
  uh_dest_port :: u16
  uh_length :: u16
  uh_checksum :: u16

definition udp_bytes :: "udp_header \<Rightarrow> u8 list" where
  "udp_bytes h = le16_bytes (uh_source_port h) @ le16_bytes (uh_dest_port h) @
     le16_bytes (uh_length h) @ le16_bytes (uh_checksum h)"

definition udp_from :: "u8 list \<Rightarrow> udp_header option" where
  "udp_from b = (if length b < 8 then None
     else Some \<lparr> uh_source_port = u16_at b 0, uh_dest_port = u16_at b 2, uh_length = u16_at b 4,
       uh_checksum = u16_at b 6 \<rparr>)"

definition udp_new :: "u16 \<Rightarrow> u16 \<Rightarrow> nat \<Rightarrow> udp_header" where
  "udp_new source_port dest_port data_size =
     \<lparr> uh_source_port = to_be16 source_port, uh_dest_port = to_be16 dest_port,
       uh_length = to_be16 (of_nat (8 + data_size)), uh_checksum = to_be16 0 \<rparr>"

definition udp_compute_checksum ::
  "udp_header \<Rightarrow> ipv4_address \<Rightarrow> ipv4_address \<Rightarrow> u8 list \<Rightarrow> u16 option" where
  "udp_compute_checksum h source_ip dest_ip payload =
     map_option (\<lambda>slice. checksum_compute
       (add_words (add_u16 (add_u16 (add_u16 (add_words 0 slice) (uh_source_port h)) (uh_dest_port h)) (uh_length h))
         (payload_words payload)))
     (try_as_u16_buffer 12 (ip_checksum_bytes
        \<lparr> ck_source_ip = source_ip, ck_dest_ip = dest_ip, ck_zeroes = 0, ck_protocol = IP_UDP,
          ck_udp_length = to_be16 (of_nat (8 + length payload)) \<rparr>))"

interpretation udp: packet_header 8 udp_bytes udp_from
proof
  fix h :: udp_header and rest :: "u8 list"
  show "length (udp_bytes h) = 8"
    by (simp add: udp_bytes_def)
  show "udp_from (udp_bytes h @ rest) = Some h"
    by (simp add: udp_from_def udp_bytes_def field_at le16_bytes_def)
next
  fix b :: "u8 list" and h
  show "udp_from b = None" if "length b < 8"
    using that by (simp add: udp_from_def)
  show "take 8 b = udp_bytes h" if "udp_from b = Some h"
    using that by (auto simp: udp_from_def udp_bytes_def field_at le16_bytes_def as_nth split: if_splits)
qed

text \<open>
  \<^verbatim>\<open>create_datagram\<close>: a zeroed buffer of the total size that is filled from its end: the payload, the
  UDP header before it, the IPv4 header before that; the assertion that nothing is left in front.
\<close>

definition create_datagram ::
  "ipv4_address \<Rightarrow> u16 \<Rightarrow> ipv4_address \<Rightarrow> u16 \<Rightarrow> u8 list \<Rightarrow> u8 list option" where
  "create_datagram source_ip source_port dest_ip dest_port payload =
     (let total_size = length payload + 8 + 20;
          buffer = replicate total_size 0;
          data_start_offset = total_size - length payload;
          buffer = take data_start_offset buffer @ payload;
          header = udp_new source_port dest_port (length payload)
      in case udp_compute_checksum header source_ip dest_ip payload of None \<Rightarrow> None
       | Some checksum \<Rightarrow>
      (case copy_to_u8_buffer 8 (udp_bytes (header \<lparr> uh_checksum := checksum \<rparr>)) (take data_start_offset buffer) of
         None \<Rightarrow> None
       | Some (udp_start_offset, front) \<Rightarrow>
      (let buffer = front @ drop data_start_offset buffer;
           udp_size = of_nat (8 + length payload)
       in case ipv4_new_udp source_ip dest_ip udp_size 64 of None \<Rightarrow> None
        | Some ip_header \<Rightarrow>
       (case copy_to_u8_buffer 20 (ipv4_bytes ip_header) (take udp_start_offset buffer) of None \<Rightarrow> None
        | Some (ip_start_offset, front) \<Rightarrow>
          if ip_start_offset \<noteq> 0 then None else Some (front @ drop udp_start_offset buffer)))))"

section \<open>TCP headers\<close>

record tcp_header =
  th_source_port :: u16
  th_dest_port :: u16
  sequence_number :: u32
  ack_number :: u32
  data_offset :: u8
  th_flags :: u8
  window_size :: u16
  th_checksum :: u16
  urgent_pointer :: u16

definition FLAG_FIN :: u8 where "FLAG_FIN = 0x01"

definition FLAG_SYN :: u8 where "FLAG_SYN = 0x02"

definition FLAG_RST :: u8 where "FLAG_RST = 0x04"

definition FLAG_PSH :: u8 where "FLAG_PSH = 0x08"

definition FLAG_ACK :: u8 where "FLAG_ACK = 0x10"

lemmas tcp_flag_defs = FLAG_FIN_def FLAG_SYN_def FLAG_RST_def FLAG_PSH_def FLAG_ACK_def

definition tcp_byte_size :: "tcp_header \<Rightarrow> nat" where
  "tcp_byte_size h = unat (drop_bit 4 (data_offset h)) * 4"

definition is_syn :: "tcp_header \<Rightarrow> bool" where
  "is_syn h \<longleftrightarrow> th_flags h AND FLAG_SYN \<noteq> 0"

definition is_ack :: "tcp_header \<Rightarrow> bool" where
  "is_ack h \<longleftrightarrow> th_flags h AND FLAG_ACK \<noteq> 0"

definition is_fin :: "tcp_header \<Rightarrow> bool" where
  "is_fin h \<longleftrightarrow> th_flags h AND FLAG_FIN \<noteq> 0"

definition is_rst :: "tcp_header \<Rightarrow> bool" where
  "is_rst h \<longleftrightarrow> th_flags h AND FLAG_RST \<noteq> 0"

definition tcp_bytes :: "tcp_header \<Rightarrow> u8 list" where
  "tcp_bytes h = le16_bytes (th_source_port h) @ le16_bytes (th_dest_port h) @
     le32_bytes (sequence_number h) @ le32_bytes (ack_number h) @ [data_offset h, th_flags h] @
     le16_bytes (window_size h) @ le16_bytes (th_checksum h) @ le16_bytes (urgent_pointer h)"

definition tcp_from :: "u8 list \<Rightarrow> tcp_header option" where
  "tcp_from b = (if length b < 20 then None
     else Some \<lparr> th_source_port = u16_at b 0, th_dest_port = u16_at b 2, sequence_number = u32_at b 4,
       ack_number = u32_at b 8, data_offset = b ! 12, th_flags = b ! 13, window_size = u16_at b 14,
       th_checksum = u16_at b 16, urgent_pointer = u16_at b 18 \<rparr>)"

definition tcp_compute_checksum ::
  "tcp_header \<Rightarrow> ipv4_address \<Rightarrow> ipv4_address \<Rightarrow> u8 list \<Rightarrow> u16 option" where
  "tcp_compute_checksum h source_ip dest_ip payload =
     map_option (\<lambda>slice. checksum_compute
       (add_words (add_words (add_words 0 slice) (u16_slice (tcp_bytes h))) (payload_words payload)))
     (try_as_u16_buffer 12 (ip_checksum_bytes
        \<lparr> ck_source_ip = source_ip, ck_dest_ip = dest_ip, ck_zeroes = 0, ck_protocol = IP_TCP,
          ck_udp_length = to_be16 (of_nat (20 + length payload)) \<rparr>))"

definition create_packet ::
  "ipv4_address \<Rightarrow> u16 \<Rightarrow> ipv4_address \<Rightarrow> u16 \<Rightarrow> u32 \<Rightarrow> u32 \<Rightarrow> u8 \<Rightarrow> u8 list \<Rightarrow> u8 list option" where
  "create_packet source_ip source_port dest_ip dest_port seq_number ack_num flags payload =
     (let total_size = 20 + 20 + length payload;
          buffer = replicate total_size 0;
          header = \<lparr> th_source_port = to_be16 source_port, th_dest_port = to_be16 dest_port,
            sequence_number = to_be32 seq_number, ack_number = to_be32 ack_num,
            data_offset = push_bit 4 (of_nat (20 div 4)), th_flags = flags, window_size = 0xffff,
            th_checksum = 0, urgent_pointer = 0 \<rparr>
      in case tcp_compute_checksum header source_ip dest_ip payload of None \<Rightarrow> None
       | Some checksum \<Rightarrow>
      (let data_start = total_size - length payload;
           buffer = take data_start buffer @ payload
       in case copy_to_u8_buffer 20 (tcp_bytes (header \<lparr> th_checksum := checksum \<rparr>)) (take data_start buffer) of
         None \<Rightarrow> None
       | Some (tcp_start, front) \<Rightarrow>
      (let buffer = front @ drop data_start buffer;
           tcp_size = of_nat (20 + length payload)
       in case ipv4_new_tcp source_ip dest_ip tcp_size 127 of None \<Rightarrow> None
        | Some ip_header \<Rightarrow>
       (case copy_to_u8_buffer 20 (ipv4_bytes ip_header) (take tcp_start buffer) of None \<Rightarrow> None
        | Some (ip_start, front) \<Rightarrow>
          if ip_start \<noteq> 0 then None else Some (front @ drop tcp_start buffer)))))"

interpretation tcp: packet_header 20 tcp_bytes tcp_from
proof
  fix h :: tcp_header and rest :: "u8 list"
  show "length (tcp_bytes h) = 20"
    by (simp add: tcp_bytes_def)
  show "tcp_from (tcp_bytes h @ rest) = Some h"
    by (simp add: tcp_from_def tcp_bytes_def field_at le16_bytes_def le32_bytes_def)
next
  fix b :: "u8 list" and h
  show "tcp_from b = None" if "length b < 20"
    using that by (simp add: tcp_from_def)
  show "take 20 b = tcp_bytes h" if "tcp_from b = Some h"
    using that by (auto simp: tcp_from_def tcp_bytes_def field_at le16_bytes_def le32_bytes_def as_nth
        split: if_splits)
qed

section \<open>What the checksum is\<close>

text \<open>
  The specification of the Internet checksum: the 16-bit words of a checked block, the stored checksum
  among them, add up to a positive multiple of 65535 (in one's complement arithmetic, to all ones).
\<close>

definition word_sum :: "u16 list \<Rightarrow> nat" where
  "word_sum ws = sum_list (map unat ws)"

definition checksum_valid :: "u16 list \<Rightarrow> bool" where
  "checksum_valid ws \<longleftrightarrow> 0 < word_sum ws \<and> word_sum ws mod 65535 = 0"

lemma word_sum_append [simp]: "word_sum (xs @ ys) = word_sum xs + word_sum ys"
  by (simp add: word_sum_def)

lemma word_sum_Cons [simp]: "word_sum (w # ws) = unat w + word_sum ws" and
  word_sum_Nil [simp]: "word_sum [] = 0"
  by (simp_all add: word_sum_def)

lemma unat_u16: "unat (w :: u16) < 65536"
  using unsigned_less [of w, where ?'a = nat] by simp

lemma word_sum_bound: "word_sum ws \<le> 65535 * length ws"
proof (induction ws)
  case (Cons w ws)
  have "unat w \<le> 65535" using unat_u16 [of w] by simp
  then show ?case using Cons by simp
qed simp

lemma add_words_append [simp]: "add_words s (xs @ ys) = add_words (add_words s xs) ys"
  by (simp add: add_words_def)

lemma add_words_Cons [simp]: "add_words s (w # ws) = add_words (add_u16 s w) ws" and
  add_words_Nil [simp]: "add_words s [] = s"
  by (simp_all add: add_words_def)

lemma add_words_sum: "add_words s ws = s + of_nat (word_sum ws)"
  by (induction ws arbitrary: s) (simp_all add: add_u16_def algebra_simps)

lemma folded_sum:
  fixes n :: nat
  assumes "r = n mod 65536 + n div 65536" "f = (if r < 65536 then r else r - 65535)"
  shows "f mod 65535 = n mod 65535" "f = 0 \<longleftrightarrow> n = 0"
proof -
  have "n = 65535 * (n div 65536) + r"
    using assms(1) div_mult_mod_eq [of n 65536] by simp
  then have "n mod 65535 = r mod 65535"
    by (metis mod_mult_self4)
  moreover have "f mod 65535 = r mod 65535"
    using assms(2) by (auto simp: le_mod_geq)
  ultimately show "f mod 65535 = n mod 65535" by simp
  show "f = 0 \<longleftrightarrow> n = 0"
    using assms by auto
qed

lemma minus_mod_0: "0 < k \<Longrightarrow> (r :: nat) - r mod k = 0 \<longleftrightarrow> r < k"
proof -
  assume "0 < k"
  then have "r mod k < k" by simp
  then show ?thesis by (cases "r < k") (simp_all del: mod_less_divisor)
qed

lemma unat_not_u32: "unat (NOT (v :: u32)) = 4294967295 - unat v"
proof -
  have "NOT v = - 1 - v" by (simp add: not_eq_complement)
  moreover have "unat (- 1 - v) = unat (- 1 :: u32) - unat v"
    by (rule unat_sub) simp
  ultimately show ?thesis by (simp add: unsigned_minus_1_eq_mask mask_eq_exp_minus_1)
qed

lemma unat_ucast_not: "unat (ucast (NOT (v :: u32)) :: u16) = 65535 - unat v mod 65536"
proof -
  have "(4294967295 - n) mod 65536 = 65535 - n mod 65536" if "n < 4294967296" for n :: nat
  proof -
    have n: "n = 65536 * (n div 65536) + n mod 65536" by simp
    have q: "n div 65536 \<le> 65535" using that by (simp add: less_mult_imp_div_less less_Suc_eq_le [symmetric])
    have m: "n mod 65536 \<le> 65535" by (simp add: less_Suc_eq_le [symmetric])
    have e: "4294967295 - n = 65536 * (65535 - n div 65536) + (65535 - n mod 65536)"
      using q m by (subst n) (simp add: diff_mult_distrib2)
    have "(65536 * a + b) mod 65536 = b" if "b < 65536" for a b :: nat
      using that by simp
    then show ?thesis unfolding e by (simp only: less_imp_diff_less)
  qed
  then show ?thesis
    by (simp add: unsigned_ucast_eq take_bit_eq_mod unat_not_u32)
qed

lemma halves_bound: "(n :: nat) < 4294967296 \<Longrightarrow> n mod 65536 + n div 65536 \<le> 131070"
proof -
  assume "n < 4294967296"
  then have "n div 65536 < 65536" by (simp add: less_mult_imp_div_less)
  moreover have "n mod 65536 < 65536" by simp
  ultimately show ?thesis by linarith
qed

lemma unat_compute:
  assumes "r = unat s mod 65536 + unat s div 65536"
  shows "unat (checksum_compute s) = 65535 - (if r < 65536 then r else r - 65535)"
proof -
  define w where "w = (s AND 0xffff) + drop_bit 16 s"
  have lo: "unat (s AND 0xffff) = unat s mod 65536"
    using unat_and_mask [of s 16] by (simp add: mask_eq_exp_minus_1)
  have small: "r \<le> 131070"
    using assms halves_bound [OF unat_less_max32 [of s]] by simp
  then have r: "unat w = r"
    using assms by (simp add: w_def unat_word_ariths lo)
  have "(0xffff0000 :: u32) = NOT (mask 16)" by (simp add: mask_eq_exp_minus_1)
  then have "unat (w AND 0xffff0000) = r - r mod 65536"
    using unat_and_not_mask [of w 16] r by simp
  then have high: "w AND 0xffff0000 = 0 \<longleftrightarrow> r < 65536"
    using minus_mod_0 [of 65536 r] by (metis unat_eq_zero zero_less_numeral)
  show ?thesis
  proof (cases "r < 65536")
    case True
    then show ?thesis
      using r high by (simp add: checksum_compute_def w_def [symmetric] Let_def unat_ucast_not)
  next
    case False
    moreover have "r - 65535 < 65536" using small by simp
    ultimately have "unat (w + 1) = r + 1" "(r + 1) mod 65536 = r - 65535"
      using r small by (simp_all add: unat_word_ariths le_mod_geq mod_less)
    then show ?thesis
      using False high by (simp add: checksum_compute_def w_def [symmetric] Let_def unat_ucast_not)
  qed
qed

text \<open>
  Storing the computed checksum among the summed words gives a valid block, as long as the 32-bit sum
  did not overflow.
\<close>

lemma checksum_completes:
  assumes "word_sum ws < 2 ^ 32"
  shows "0 < word_sum ws + unat (checksum_compute (of_nat (word_sum ws)))"
    and "(word_sum ws + unat (checksum_compute (of_nat (word_sum ws)))) mod 65535 = 0"
proof -
  define n where "n = word_sum ws"
  define r where "r = n mod 65536 + n div 65536"
  define f where "f = (if r < 65536 then r else r - 65535)"
  have u: "unat (of_nat n :: u32) = n"
    using assms by (intro unat_of_nat_small) (simp add: n_def)
  have c: "unat (checksum_compute (of_nat n)) = 65535 - f"
    using unat_compute [of r "of_nat n"] by (simp add: u r_def f_def)
  have f: "f mod 65535 = n mod 65535" "f = 0 \<longleftrightarrow> n = 0"
    using folded_sum [OF r_def f_def] by simp_all
  have "r \<le> 131070"
    using halves_bound [of n] assms by (simp add: r_def n_def)
  then have "f \<le> 65535"
    by (simp add: f_def le_diff_conv)
  then have "(f + (65535 - f)) mod 65535 = 0"
    by simp
  then have "(n + (65535 - f)) mod 65535 = 0"
    using f(1) by (metis mod_add_left_eq)
  then show "(word_sum ws + unat (checksum_compute (of_nat (word_sum ws)))) mod 65535 = 0"
    by (simp add: c n_def [symmetric])
  show "0 < word_sum ws + unat (checksum_compute (of_nat (word_sum ws)))"
    using f(2) by (auto simp: c n_def [symmetric])
qed

lemma u16_slice_append: "even (length xs) \<Longrightarrow> u16_slice (xs @ ys) = u16_slice xs @ u16_slice ys"
  by (induction xs rule: u16_slice.induct) auto

lemma u16_slice_le16 [simp]: "u16_slice (le16_bytes w @ r) = w # u16_slice r" "u16_slice (le16_bytes w) = [w]"
  by (simp_all add: le16_bytes_def)

lemma u16_slice_length: "length (u16_slice xs) = length xs div 2"
  by (induction xs rule: u16_slice.induct) auto

lemma payload_words_length: "length (payload_words xs) = (length xs + 1) div 2"
  by (induction xs rule: payload_words.induct) auto

section \<open>Packets on the wire\<close>

lemma ipv4_sum_checksum:
  "word_sum (u16_slice (ipv4_bytes (h \<lparr> ih_checksum := c \<rparr>))) =
   word_sum (u16_slice (ipv4_bytes (h \<lparr> ih_checksum := 0 \<rparr>))) + unat c"
  by (cases "ih_source h"; cases "ih_dest h") (simp add: ipv4_bytes_def)

lemma tcp_sum_checksum:
  "word_sum (u16_slice (tcp_bytes (h \<lparr> th_checksum := c \<rparr>))) =
   word_sum (u16_slice (tcp_bytes (h \<lparr> th_checksum := 0 \<rparr>))) + unat c"
  by (simp add: tcp_bytes_def le32_bytes_def)

lemma slice_sum_bound: "word_sum (u16_slice xs) \<le> 65535 * (length xs div 2)"
  using word_sum_bound [of "u16_slice xs"] by (simp add: u16_slice_length)

lemma ipv4_new_ok:
  obtains h where "ipv4_new source dest content_len ttl protocol = Some h"
    "checksum_valid (u16_slice (ipv4_bytes h))" "ih_total_length h = to_be16 (20 + content_len)"
    "ih_source h = source" "ih_dest h = dest" "ih_protocol h = protocol" "ih_ttl h = ttl"
    "version_header_len h = 0x45"
proof -
  define g where "g = \<lparr> version_header_len = 0x45, diff_services = 0,
        ih_total_length = to_be16 (20 + content_len), identification = 0, fragment = 0, ih_ttl = ttl,
        ih_protocol = protocol, ih_checksum = 0, ih_source = source, ih_dest = dest \<rparr>"
  define ws where "ws = u16_slice (ipv4_bytes g)"
  define c where "c = checksum_compute (of_nat (word_sum ws))"
  have e: "ipv4_new source dest content_len ttl protocol = Some (g \<lparr> ih_checksum := c \<rparr>)"
    by (simp add: ipv4_new_def ipv4_compute_checksum_def try_as_u16_buffer_def add_words_sum
        c_def ws_def g_def)
  have "g \<lparr> ih_checksum := 0 \<rparr> = g"
    by (simp add: g_def)
  then have s: "word_sum (u16_slice (ipv4_bytes (g \<lparr> ih_checksum := c \<rparr>))) = word_sum ws + unat c"
    by (simp add: ipv4_sum_checksum [where h = g and c = c] ws_def)
  have "word_sum ws < 2 ^ 32"
    using slice_sum_bound [of "ipv4_bytes g"] by (simp add: ws_def ipv4.bytes_size)
  then have "checksum_valid (u16_slice (ipv4_bytes (g \<lparr> ih_checksum := c \<rparr>)))"
    using checksum_completes [of ws] by (simp add: checksum_valid_def s c_def [symmetric])
  then show ?thesis
    using e that by (simp add: g_def)
qed

text \<open>The words of the pseudo header that UDP and TCP checksums cover.\<close>

definition pseudo_words :: "ipv4_address \<Rightarrow> ipv4_address \<Rightarrow> u8 \<Rightarrow> u16 \<Rightarrow> u16 list" where
  "pseudo_words source dest protocol len = u16_slice (ip_checksum_bytes
     \<lparr> ck_source_ip = source, ck_dest_ip = dest, ck_zeroes = 0, ck_protocol = protocol,
       ck_udp_length = to_be16 len \<rparr>)"

lemma pseudo_words_length [simp]: "length (pseudo_words source dest protocol len) = 6"
  by (simp add: pseudo_words_def u16_slice_length ip_checksum_bytes_def)

lemma udp_checksum_ok:
  assumes "length payload \<le> 65507"
    "udp_compute_checksum h source dest payload = Some c"
  shows "checksum_valid (pseudo_words source dest IP_UDP (of_nat (8 + length payload)) @
    u16_slice (udp_bytes (h \<lparr> uh_checksum := c \<rparr>)) @ payload_words payload)"
proof -
  define ws where "ws = pseudo_words source dest IP_UDP (of_nat (8 + length payload)) @
    [uh_source_port h, uh_dest_port h, uh_length h] @ payload_words payload"
  have c: "c = checksum_compute (of_nat (word_sum ws))"
    using assms(2)
    by (simp add: udp_compute_checksum_def try_as_u16_buffer_def add_words_sum ws_def pseudo_words_def
        add_u16_def add_ac)
  have "length ws \<le> 65536"
    using assms(1) by (simp add: ws_def payload_words_length)
  then have "word_sum ws < 2 ^ 32"
    using word_sum_bound [of ws] by simp
  then show ?thesis
    using checksum_completes [of ws] c
    by (simp add: checksum_valid_def ws_def udp_bytes_def add_ac)
qed

lemma tcp_checksum_ok:
  assumes "length payload \<le> 65495" "th_checksum h = 0"
    "tcp_compute_checksum h source dest payload = Some c"
  shows "checksum_valid (pseudo_words source dest IP_TCP (of_nat (20 + length payload)) @
    u16_slice (tcp_bytes (h \<lparr> th_checksum := c \<rparr>)) @ payload_words payload)"
proof -
  define ws where "ws = pseudo_words source dest IP_TCP (of_nat (20 + length payload)) @
    u16_slice (tcp_bytes h) @ payload_words payload"
  have c: "c = checksum_compute (of_nat (word_sum ws))"
    using assms(3)
    by (simp add: tcp_compute_checksum_def try_as_u16_buffer_def add_words_sum ws_def pseudo_words_def add_ac)
  have "length ws \<le> 65536"
    using assms(1) by (simp add: ws_def payload_words_length u16_slice_length tcp.bytes_size)
  then have "word_sum ws < 2 ^ 32"
    using word_sum_bound [of ws] by simp
  moreover have "h \<lparr> th_checksum := 0 \<rparr> = h"
    using assms(2) by simp
  ultimately show ?thesis
    using checksum_completes [of ws] c tcp_sum_checksum [where h = h and c = c]
    by (simp add: checksum_valid_def ws_def add_ac)
qed

text \<open>The shape of the packets: IPv4 header, protocol header, payload, nothing else.\<close>

lemma create_datagram_shape:
  assumes "ipv4_new_udp source dest (of_nat (8 + length payload)) 64 = Some ip"
    "udp_compute_checksum (udp_new sp dp (length payload)) source dest payload = Some c"
  shows "create_datagram source sp dest dp payload =
    Some (ipv4_bytes ip @ udp_bytes (udp_new sp dp (length payload) \<lparr> uh_checksum := c \<rparr>) @ payload)"
proof -
  define n where "n = length payload"
  have "replicate (n + 8 + 20) (0::u8) = replicate 20 0 @ replicate 8 0 @ replicate n 0"
    by (simp add: replicate_add [symmetric])
  then show ?thesis
    using assms
    by (simp add: create_datagram_def Let_def n_def [symmetric] copy_to_u8_buffer_def udp.bytes_size)
qed

lemma create_packet_shape:
  assumes "ipv4_new_tcp source dest (of_nat (20 + length payload)) 127 = Some ip"
    "h = \<lparr> th_source_port = to_be16 sp, th_dest_port = to_be16 dp,
            sequence_number = to_be32 sq, ack_number = to_be32 ak,
            data_offset = 0x50, th_flags = flags, window_size = 0xffff,
            th_checksum = 0, urgent_pointer = 0 \<rparr>"
    "tcp_compute_checksum h source dest payload = Some c"
  shows "create_packet source sp dest dp sq ak flags payload =
    Some (ipv4_bytes ip @ tcp_bytes (h \<lparr> th_checksum := c \<rparr>) @ payload)"
proof -
  define n where "n = length payload"
  have "replicate (20 + 20 + n) (0::u8) = replicate 20 0 @ replicate 20 0 @ replicate n 0"
    by (simp add: replicate_add [symmetric])
  then show ?thesis
    using assms
    by (simp add: create_packet_def Let_def n_def [symmetric] copy_to_u8_buffer_def tcp.bytes_size
        push_bit_eq_mult)
qed

lemma datagram_ok:
  assumes "length payload \<le> 65507"
  obtains ip udp where
    "create_datagram source sp dest dp payload = Some (ipv4_bytes ip @ udp_bytes udp @ payload)"
    "checksum_valid (u16_slice (ipv4_bytes ip))"
    "unat (to_be16 (ih_total_length ip)) = 28 + length payload"
    "ih_source ip = source" "ih_dest ip = dest" "ih_protocol ip = IP_UDP"
    "to_be16 (uh_source_port udp) = sp" "to_be16 (uh_dest_port udp) = dp"
    "unat (to_be16 (uh_length udp)) = 8 + length payload"
    "checksum_valid (pseudo_words source dest IP_UDP (of_nat (8 + length payload)) @
       u16_slice (udp_bytes udp) @ payload_words payload)"
proof -
  obtain ip where ip: "ipv4_new source dest (of_nat (8 + length payload)) 64 IP_UDP = Some ip"
    "checksum_valid (u16_slice (ipv4_bytes ip))"
    "ih_total_length ip = to_be16 (20 + of_nat (8 + length payload))"
    "ih_source ip = source" "ih_dest ip = dest" "ih_protocol ip = IP_UDP"
    by (rule ipv4_new_ok)
  define h where "h = udp_new sp dp (length payload)"
  obtain c where c: "udp_compute_checksum h source dest payload = Some c"
    by (simp add: udp_compute_checksum_def try_as_u16_buffer_def)
  have len: "unat (20 + of_nat (8 + length payload) :: u16) = 28 + length payload"
    using unat_of_nat_small [of "28 + length payload", where 'a = 16] assms by (simp add: add.assoc)
  have ulen: "unat (of_nat (8 + length payload) :: u16) = 8 + length payload"
    using assms by (intro unat_of_nat_small) simp
  show ?thesis
  proof (rule that [of ip "h \<lparr> uh_checksum := c \<rparr>"])
    show "create_datagram source sp dest dp payload =
        Some (ipv4_bytes ip @ udp_bytes (h \<lparr> uh_checksum := c \<rparr>) @ payload)"
      using create_datagram_shape ip(1) c by (simp add: h_def ipv4_new_udp_def)
    show "unat (to_be16 (ih_total_length ip)) = 28 + length payload"
      using len by (simp only: ip(3) to_be16_involution)
    show "unat (to_be16 (uh_length (h \<lparr> uh_checksum := c \<rparr>))) = 8 + length payload"
      using ulen by (simp add: h_def udp_new_def)
    show "checksum_valid (pseudo_words source dest IP_UDP (of_nat (8 + length payload)) @
       u16_slice (udp_bytes (h \<lparr> uh_checksum := c \<rparr>)) @ payload_words payload)"
      by (rule udp_checksum_ok [OF assms c])
  qed (simp_all add: ip h_def udp_new_def)
qed

lemma segment_ok:
  assumes "length payload \<le> 65495"
  obtains ip tcp where
    "create_packet source sp dest dp sq ak flags payload = Some (ipv4_bytes ip @ tcp_bytes tcp @ payload)"
    "checksum_valid (u16_slice (ipv4_bytes ip))"
    "unat (to_be16 (ih_total_length ip)) = 40 + length payload"
    "ih_source ip = source" "ih_dest ip = dest" "ih_protocol ip = IP_TCP"
    "to_be16 (th_source_port tcp) = sp" "to_be16 (th_dest_port tcp) = dp"
    "to_be32 (sequence_number tcp) = sq" "to_be32 (ack_number tcp) = ak" "th_flags tcp = flags"
    "tcp_byte_size tcp = 20"
    "checksum_valid (pseudo_words source dest IP_TCP (of_nat (20 + length payload)) @
       u16_slice (tcp_bytes tcp) @ payload_words payload)"
proof -
  obtain ip where ip: "ipv4_new source dest (of_nat (20 + length payload)) 127 IP_TCP = Some ip"
    "checksum_valid (u16_slice (ipv4_bytes ip))"
    "ih_total_length ip = to_be16 (20 + of_nat (20 + length payload))"
    "ih_source ip = source" "ih_dest ip = dest" "ih_protocol ip = IP_TCP"
    by (rule ipv4_new_ok)
  define h where "h = \<lparr> th_source_port = to_be16 sp, th_dest_port = to_be16 dp,
            sequence_number = to_be32 sq, ack_number = to_be32 ak,
            data_offset = 0x50, th_flags = flags, window_size = 0xffff,
            th_checksum = 0, urgent_pointer = 0 \<rparr>"
  obtain c where c: "tcp_compute_checksum h source dest payload = Some c"
    by (simp add: tcp_compute_checksum_def try_as_u16_buffer_def)
  have len: "unat (20 + of_nat (20 + length payload) :: u16) = 40 + length payload"
    using unat_of_nat_small [of "40 + length payload", where 'a = 16] assms by (simp add: add.assoc)
  show ?thesis
  proof (rule that [of ip "h \<lparr> th_checksum := c \<rparr>"])
    show "create_packet source sp dest dp sq ak flags payload =
        Some (ipv4_bytes ip @ tcp_bytes (h \<lparr> th_checksum := c \<rparr>) @ payload)"
      using create_packet_shape [OF _ h_def c] ip(1) by (simp add: ipv4_new_tcp_def)
    show "unat (to_be16 (ih_total_length ip)) = 40 + length payload"
      using len by (simp only: ip(3) to_be16_involution)
    show "checksum_valid (pseudo_words source dest IP_TCP (of_nat (20 + length payload)) @
       u16_slice (tcp_bytes (h \<lparr> th_checksum := c \<rparr>)) @ payload_words payload)"
      by (rule tcp_checksum_ok [OF assms _ c]) (simp add: h_def)
  qed (simp_all add: ip h_def tcp_byte_size_def)
qed

section \<open>IPv4 addresses as text\<close>

text \<open>
  \<^verbatim>\<open>parse_octet\<close>: the loop over the leading digits gives the value and the number of digits, or fails
  on a fourth digit or a value above 255. The outer option is the panic of \<^verbatim>\<open>bytes[0]\<close> on an empty slice.
\<close>

fun octet_loop :: "u8 list \<Rightarrow> u16 \<Rightarrow> nat \<Rightarrow> (u16 \<times> nat) option" where
  "octet_loop [] v digit_count = Some (v, digit_count)"
| "octet_loop (b # r) v digit_count =
     (if 48 \<le> b \<and> b \<le> 57 then
        let v' = v * 10 + ucast (b - 48) in
        if 3 < digit_count + 1 \<or> 255 < v' then None else octet_loop r v' (digit_count + 1)
      else Some (v, digit_count))"

definition parse_octet :: "u8 list \<Rightarrow> u8 option option" where
  "parse_octet bytes = (case bytes of [] \<Rightarrow> None
     | b # _ \<Rightarrow> Some (case octet_loop bytes 0 0 of None \<Rightarrow> None
         | Some (v, digit_count) \<Rightarrow> if b = 48 \<and> 1 < digit_count then None else Some (ucast v)))"

text \<open>
  \<^verbatim>\<open>Ipv4Address::parse_bytes\<close>: the loop has \<open>k\<close> octets to go, the next one at \<open>index\<close>.
\<close>

fun parse_loop :: "nat \<Rightarrow> u8 list \<Rightarrow> nat \<Rightarrow> u8 list \<Rightarrow> (nat \<times> u8 list) option option" where
  "parse_loop 0 bytes index octets = Some (Some (index, octets))"
| "parse_loop (Suc k) bytes index octets =
     (if length bytes < index then None
      else case parse_octet (drop index bytes) of None \<Rightarrow> None | Some None \<Rightarrow> Some None
      | Some (Some v) \<Rightarrow>
        (let index = index + 1;
             index = (if 9 < v then index + 1 else index);
             index = (if 99 < v then index + 1 else index)
         in if 0 < k then
              if length bytes - 1 \<le> index then Some None
              else if bytes ! index \<noteq> 46 then Some None
              else parse_loop k bytes (index + 1) (octets @ [v])
            else parse_loop k bytes index (octets @ [v])))"

definition parse_bytes :: "u8 list \<Rightarrow> ipv4_address option option" where
  "parse_bytes bytes =
     (if length bytes < 7 \<or> 15 < length bytes then Some None
      else case parse_loop 4 bytes 0 [] of None \<Rightarrow> None | Some None \<Rightarrow> Some None
      | Some (Some (index, octets)) \<Rightarrow>
          if index \<noteq> length bytes then Some None else Some (Some (ip_at octets 0)))"

text \<open>\<^verbatim>\<open>Display\<close>: the decimal digits of the four octets, separated by dots.\<close>

fun decimal :: "nat \<Rightarrow> u8 list" where
  "decimal n = (if n < 10 then [48 + of_nat n] else decimal (n div 10) @ [48 + of_nat (n mod 10)])"

declare decimal.simps [simp del]

fun ipv4_display :: "ipv4_address \<Rightarrow> u8 list" where
  "ipv4_display (Ipv4Address a b c d) =
     decimal (unat a) @ [46] @ decimal (unat b) @ [46] @ decimal (unat c) @ [46] @ decimal (unat d)"

lemma decimal_cases:
  "n < 10 \<Longrightarrow> decimal n = [48 + of_nat n]"
  "10 \<le> n \<Longrightarrow> n < 100 \<Longrightarrow> decimal n = [48 + of_nat (n div 10), 48 + of_nat (n mod 10)]"
  "100 \<le> n \<Longrightarrow> n < 1000 \<Longrightarrow>
     decimal n = [48 + of_nat (n div 100), 48 + of_nat (n div 10 mod 10), 48 + of_nat (n mod 10)]"
proof -
  show "n < 10 \<Longrightarrow> decimal n = [48 + of_nat n]"
    by (simp add: decimal.simps)
  have two: "decimal m = [48 + of_nat (m div 10), 48 + of_nat (m mod 10)]" if "10 \<le> m" "m < 100" for m
  proof -
    have "m div 10 < 10" using that by (simp add: less_mult_imp_div_less)
    then show ?thesis using that by (simp add: decimal.simps [of m] decimal.simps [of "m div 10"])
  qed
  then show "10 \<le> n \<Longrightarrow> n < 100 \<Longrightarrow> decimal n = [48 + of_nat (n div 10), 48 + of_nat (n mod 10)]" .
  have div_div: "n div 10 div 10 = n div 100"
    by (simp add: div_mult2_eq [symmetric])
  show "decimal n = [48 + of_nat (n div 100), 48 + of_nat (n div 10 mod 10), 48 + of_nat (n mod 10)]"
    if "100 \<le> n" "n < 1000"
    using that two [of "n div 10"] by (simp add: decimal.simps [of n] div_div)
qed

lemma octet_loop_digit:
  assumes "d < 10" "v \<le> 255"
  shows "octet_loop ((48 + of_nat d) # r) (of_nat v) k =
    (if 3 \<le> k \<or> 255 < v * 10 + d then None else octet_loop r (of_nat (v * 10 + d)) (k + 1))"
proof -
  have b: "unat (48 + of_nat d :: u8) = 48 + d" "unat (of_nat d :: u8) = d"
    using assms by (simp_all add: unat_word_ariths unat_of_nat)
  have "ucast (of_nat d :: u8) = (of_nat d :: u16)"
    using b(2) by (simp add: word_unat_eq_iff unsigned_ucast_eq unat_of_nat take_bit_nat_eq_self assms)
  then have v: "of_nat v * 10 + ucast (48 + of_nat d - 48 :: u8) = (of_nat (v * 10 + d) :: u16)"
    by simp
  have "unat (of_nat (v * 10 + d) :: u16) = v * 10 + d"
    using assms by (intro unat_of_nat_small) simp
  then show ?thesis
    unfolding octet_loop.simps v Let_def using assms(1) by (simp add: word_le_nat_alt word_less_nat_alt b)
qed

lemma octet_loop_stop: "rest = [] \<or> hd rest = 46 \<Longrightarrow> octet_loop rest v k = Some (v, k)"
  by (cases rest) simp_all

lemma parse_octet_decimal:
  assumes "rest = [] \<or> hd rest = 46"
  shows "parse_octet (decimal (unat v) @ rest) = Some (Some v)"
proof -
  define n where "n = unat v"
  have n: "n < 256" "of_nat n = v"
    using unsigned_less [of v, where ?'a = nat] by (simp_all add: n_def)
  have u: "ucast (of_nat n :: u16) = v"
    using n by (simp add: word_unat_eq_iff unsigned_ucast_eq unsigned_take_bit_eq unat_of_nat
        take_bit_nat_eq_self n_def)
  have zero: "48 + of_nat d = (48 :: u8) \<longleftrightarrow> d = 0" if "d < 10" for d :: nat
    using that by (simp add: word_unat_eq_iff unat_word_ariths unat_of_nat)
  consider "n < 10" | "10 \<le> n" "n < 100" | "100 \<le> n" by linarith
  then have "parse_octet (decimal n @ rest) = Some (Some v)"
  proof cases
    case 1
    then show ?thesis
      using octet_loop_digit [of n 0 rest 0] octet_loop_stop [OF assms]
      by (simp add: decimal_cases parse_octet_def u)
  next
    case 2
    then have q: "n div 10 < 10" "0 < n div 10" "n mod 10 < 10" "n div 10 * 10 + n mod 10 = n"
      by (simp_all add: less_mult_imp_div_less)
    then show ?thesis
      using 2 octet_loop_digit [of "n div 10" 0 "(48 + of_nat (n mod 10)) # rest" 0]
        octet_loop_digit [of "n mod 10" "n div 10" rest 1] octet_loop_stop [OF assms] zero [OF q(1)]
      by (simp add: decimal_cases parse_octet_def u)
  next
    case 3
    define x y z where "x = n div 100" and "y = n div 10 mod 10" and "z = n mod 10"
    have "n div 10 div 10 = x"
      by (simp add: x_def div_mult2_eq [symmetric])
    then have q: "y < 10" "z < 10" "x * 10 + y = n div 10" "n div 10 * 10 + z = n"
      using div_mult_mod_eq [of "n div 10" 10] by (simp_all add: y_def z_def)
    then have "x < 10" "0 < x" "x \<le> 255" "n div 10 \<le> 255"
      using 3 n(1) by (simp_all add: x_def div_less_iff_less_mult)
    note q = q this
    have "octet_loop ((48 + of_nat x) # (48 + of_nat y) # (48 + of_nat z) # rest) 0 0 =
        octet_loop ((48 + of_nat y) # (48 + of_nat z) # rest) (of_nat x) 1"
      using octet_loop_digit [of x 0] q by (simp del: octet_loop.simps)
    also have "\<dots> = octet_loop ((48 + of_nat z) # rest) (of_nat (n div 10)) 2"
      using octet_loop_digit [of y x] q by (simp add: numeral_2_eq_2 del: octet_loop.simps)
    also have "\<dots> = Some (of_nat n, 3)"
      using octet_loop_digit [of z "n div 10"] q n(1) octet_loop_stop [OF assms]
      by (simp del: octet_loop.simps)
    finally show ?thesis
      using 3 n(1) zero [OF q(5)] q(6)
      by (simp add: decimal_cases parse_octet_def u x_def y_def z_def del: octet_loop.simps)
  qed
  then show ?thesis by (simp add: n_def)
qed

lemma decimal_length:
  "length (decimal (unat (v :: u8))) =
     (let index = 1; index = (if 9 < v then index + 1 else index) in if 99 < v then index + 1 else index)"
proof -
  have "unat v < 256" using unsigned_less [of v, where ?'a = nat] by simp
  moreover consider "unat v < 10" | "10 \<le> unat v" "unat v < 100" | "100 \<le> unat v" by linarith
  ultimately show ?thesis
    by cases (auto simp: decimal_cases word_less_nat_alt)
qed

lemma parse_loop_octet:
  assumes "bytes = pre @ decimal (unat v) @ rest" "k = 0 \<and> rest = [] \<or> 0 < k \<and> rest = 46 # r \<and> r \<noteq> []"
  shows "parse_loop (Suc k) bytes (length pre) octets =
    parse_loop k bytes (length pre + length (decimal (unat v)) + (if 0 < k then 1 else 0)) (octets @ [v])"
proof -
  have "parse_octet (drop (length pre) bytes) = Some (Some v)"
    using assms parse_octet_decimal [of rest v] by auto
  moreover have "length bytes = length pre + length (decimal (unat v)) + length rest"
    using assms by simp
  moreover have "bytes ! (length pre + length (decimal (unat v))) = 46" if "0 < k"
    using assms that by (simp add: nth_append)
  moreover have "0 < length r" if "0 < k"
    using assms that by simp
  ultimately show ?thesis
    using assms(2) by (auto simp: decimal_length Let_def)
qed

lemma decimal_nonempty [simp]: "decimal n \<noteq> []"
  by (subst decimal.simps) simp

text \<open>
  Every IPv4 address, printed by \<^verbatim>\<open>Display\<close>, is parsed back to itself by \<^verbatim>\<open>parse_bytes\<close>, the routine
  behind \<^verbatim>\<open>from_str\<close>; in particular none of its slice accesses panics there.
\<close>

theorem ipv4_parse_display: "parse_bytes (ipv4_display a) = Some (Some a)"
proof (cases a)
  case (Ipv4Address p q r s)
  define P Q R S where "P = decimal (unat p)" and "Q = decimal (unat q)"
    and "R = decimal (unat r)" and "S = decimal (unat s)"
  define bytes where "bytes = P @ 46 # Q @ 46 # R @ 46 # S"
  have d: "ipv4_display a = bytes"
    by (simp add: Ipv4Address bytes_def P_def Q_def R_def S_def)
  have len: "1 \<le> length (decimal (unat v))" "length (decimal (unat v)) \<le> 3" for v :: u8
    by (simp_all add: decimal_length Let_def)
  have total: "length bytes = length P + length Q + length R + length S + 3"
    by (simp add: bytes_def)
  have "7 \<le> length bytes" "length bytes \<le> 15"
    using len [of p] len [of q] len [of r] len [of s] unfolding total P_def Q_def R_def S_def
    by linarith+
  moreover have "parse_loop 4 bytes 0 [] = Some (Some (length bytes, [p, q, r, s]))"
    using parse_loop_octet [of bytes "[]" p "46 # Q @ 46 # R @ 46 # S" 3 "Q @ 46 # R @ 46 # S" "[]"]
      parse_loop_octet [of bytes "P @ [46]" q "46 # R @ 46 # S" 2 "R @ 46 # S" "[p]"]
      parse_loop_octet [of bytes "P @ 46 # Q @ [46]" r "46 # S" 1 S "[p, q]"]
      parse_loop_octet [of bytes "P @ 46 # Q @ 46 # R @ [46]" s "[]" 0 "[]" "[p, q, r]"]
    by (simp add: bytes_def P_def Q_def R_def S_def numeral_eq_Suc add.assoc del: parse_loop.simps(2))
  ultimately show ?thesis
    unfolding d by (simp add: parse_bytes_def Ipv4Address ip_at_def)
qed

text \<open>
  Neither routine can panic: the headers have an even number of bytes, the buffer has exactly the room
  the three parts need. \<open>datagram\<close> and \<open>segment\<close> name the packet they return.
\<close>

lemma create_datagram_total: "\<exists>p. create_datagram source sp dest dp payload = Some p"
proof -
  obtain ip where "ipv4_new source dest (of_nat (8 + length payload)) 64 IP_UDP = Some ip"
    by (rule ipv4_new_ok)
  moreover obtain c where "udp_compute_checksum (udp_new sp dp (length payload)) source dest payload = Some c"
    by (simp add: udp_compute_checksum_def try_as_u16_buffer_def)
  ultimately show ?thesis
    using create_datagram_shape by (simp add: ipv4_new_udp_def)
qed

lemma create_packet_total: "\<exists>p. create_packet source sp dest dp sq ak flags payload = Some p"
proof -
  obtain ip where ip: "ipv4_new source dest (of_nat (20 + length payload)) 127 IP_TCP = Some ip"
    by (rule ipv4_new_ok)
  define h where "h = \<lparr> th_source_port = to_be16 sp, th_dest_port = to_be16 dp,
            sequence_number = to_be32 sq, ack_number = to_be32 ak,
            data_offset = 0x50, th_flags = flags, window_size = 0xffff,
            th_checksum = 0, urgent_pointer = 0 \<rparr>"
  obtain c where c: "tcp_compute_checksum h source dest payload = Some c"
    by (simp add: tcp_compute_checksum_def try_as_u16_buffer_def)
  show ?thesis
    using create_packet_shape [OF _ h_def c] ip by (simp add: ipv4_new_tcp_def)
qed

definition datagram :: "ipv4_address \<Rightarrow> u16 \<Rightarrow> ipv4_address \<Rightarrow> u16 \<Rightarrow> u8 list \<Rightarrow> u8 list" where
  "datagram source sp dest dp payload =
     (case create_datagram source sp dest dp payload of Some p \<Rightarrow> p | None \<Rightarrow> [])"

definition segment ::
  "ipv4_address \<Rightarrow> u16 \<Rightarrow> ipv4_address \<Rightarrow> u16 \<Rightarrow> u32 \<Rightarrow> u32 \<Rightarrow> u8 \<Rightarrow> u8 list \<Rightarrow> u8 list" where
  "segment source sp dest dp sq ak flags payload =
     (case create_packet source sp dest dp sq ak flags payload of Some p \<Rightarrow> p | None \<Rightarrow> [])"

end
