(* ===== verification/Tcp_Connection.thy ===== *)
theory Tcp_Connection
  imports Net_Packet
begin

text \<open>
  A TCP connection (\<^verbatim>\<open>kernel/src/net/protocol/tcp/connection.rs\<close>): the handshake states, the
  acknowledgement of written data, the receive stream and the reads that wait for it.

  What an operation does outside the connection is a list of effects, in the order the code performs
  them: a packet handed to \<^verbatim>\<open>net_respond\<close>, bytes stored through the physical address of a waiting reader's
  buffer, an asynchronous operation completed with \<^verbatim>\<open>complete_op\<close>, and, for an accepted connection, the
  socket handle that is created in the accepting task (\<^verbatim>\<open>SocketIOProvider::create_tcp\<close> and the task's
  handle table), whose number completes the accept, and the request to open an outbound connection
  (\<^verbatim>\<open>net_open_tcp\<close>, used by the socket layer). Sequence numbers are 32-bit words and wrap.
\<close>

section \<open>State\<close>

datatype tcp_state = SynSent | SynReceived | Established | LastAck

datatype tcp_action = Enqueue | Discard | Close | Reset | FinAck | Connect | ConnectAck

text \<open>\<^verbatim>\<open>AsyncCallback\<close>: the task, the index in its IO table and the operation.\<close>

type_synonym async_callback = "u32 \<times> u32 \<times> u32"

datatype net_io_error = OperationFailed | InvalidArgument | ResourceInUse | ResourceLimitExceeded
  | FileHandleInvalid | UnsupportedOperation

type_synonym net_io_result = "net_io_error + u32"

datatype net_effect =
    NetRespond ipv4_address "u8 list"
  | StoreBuffer u32 "u8 list"
  | CompleteOp async_callback net_io_result
  | AcceptHandle async_callback u32
  | OpenTcp u16 "u8 list" u16

record pending_read =
  pr_buffer_paddr :: u32
  pr_buffer_len :: nat
  pr_callback :: async_callback

record pending_write =
  end_sequence :: u32
  pw_total_len :: u32
  pw_callback :: async_callback

record tcp_connection =
  own_id :: u32
  local_address :: ipv4_address
  tc_local_port :: u16
  remote_address :: ipv4_address
  tc_remote_port :: u16
  tc_state :: tcp_state
  last_sequence_sent :: u32
  last_sequence_received :: u32
  on_connect :: "(async_callback \<times> bool) option"
  pending_reads :: "pending_read list"
  pending_writes :: "pending_write list"
  available_data :: "u8 list"

definition tcp_connection_new ::
  "u32 \<Rightarrow> u16 \<Rightarrow> ipv4_address \<Rightarrow> u16 \<Rightarrow> bool \<Rightarrow> (async_callback \<times> bool) option \<Rightarrow> tcp_connection" where
  "tcp_connection_new own local_port remote_addr remote_port is_outbound connect =
     \<lparr> own_id = own, local_address = Ipv4Address 0 0 0 0, tc_local_port = local_port,
       remote_address = remote_addr, tc_remote_port = remote_port,
       tc_state = (if is_outbound then SynSent else SynReceived), last_sequence_sent = 0,
       last_sequence_received = 0, on_connect = connect, pending_reads = [], pending_writes = [],
       available_data = [] \<rparr>"

section \<open>Operations\<close>

definition action_for_tcp_packet :: "tcp_connection \<Rightarrow> tcp_header \<Rightarrow> tcp_action" where
  "action_for_tcp_packet c header =
     (if is_rst header then Close
      else case tc_state c of
        SynSent \<Rightarrow> if \<not> is_syn header \<or> \<not> is_ack header then Reset else ConnectAck
      | SynReceived \<Rightarrow>
          if \<not> is_ack header then Reset
          else let ack = to_be32 (ack_number header) in
            if ack \<noteq> last_sequence_sent c + 1 then Reset else Connect
      | Established \<Rightarrow> if is_fin header then FinAck else if is_syn header then Reset else Enqueue
      | LastAck \<Rightarrow> Close)"

text \<open>
  \<^verbatim>\<open>process_ack\<close>: writes at the front of the queue that the acknowledgement covers, by the wrapping
  comparison of sequence numbers, are completed.
\<close>

fun process_ack_loop :: "u32 \<Rightarrow> pending_write list \<Rightarrow> pending_write list \<times> net_effect list" where
  "process_ack_loop ack [] = ([], [])"
| "process_ack_loop ack (front # writes) =
     (if ack - end_sequence front < 0x80000000 then
        let (rest, fx) = process_ack_loop ack writes
        in (rest, CompleteOp (pw_callback front) (Inr (pw_total_len front)) # fx)
      else (front # writes, []))"

definition process_ack :: "tcp_connection \<Rightarrow> u32 \<Rightarrow> tcp_connection \<times> net_effect list" where
  "process_ack c ack = (let (writes, fx) = process_ack_loop ack (pending_writes c)
     in (c \<lparr> pending_writes := writes \<rparr>, fx))"

text \<open>The loops that complete every waiting read with end of file, and every waiting write with an error.\<close>

definition fail_reads :: "tcp_connection \<Rightarrow> tcp_connection \<times> net_effect list" where
  "fail_reads c = (c \<lparr> pending_reads := [] \<rparr>,
     map (\<lambda>r. CompleteOp (pr_callback r) (Inr 0)) (pending_reads c))"

definition fail_writes :: "tcp_connection \<Rightarrow> tcp_connection \<times> net_effect list" where
  "fail_writes c = (c \<lparr> pending_writes := [] \<rparr>,
     map (\<lambda>w. CompleteOp (pw_callback w) (Inl OperationFailed)) (pending_writes c))"

text \<open>
  In-order data goes to the first waiting read, up to the end of the page its buffer starts in; what
  does not fit, or everything when no read waits, is kept in \<^verbatim>\<open>available_data\<close>.
\<close>

definition usable_len :: "pending_read \<Rightarrow> nat" where
  "usable_len r = min (pr_buffer_len r) (0x1000 - unat (pr_buffer_paddr r AND 0xfff))"

definition deliver_data :: "tcp_connection \<Rightarrow> u8 list \<Rightarrow> tcp_connection \<times> net_effect list" where
  "deliver_data c payload =
     (case pending_reads c of
        [] \<Rightarrow> (c \<lparr> available_data := available_data c @ payload \<rparr>, [])
      | r # reads \<Rightarrow>
          let write_length = min (length payload) (usable_len r) in
          (c \<lparr> pending_reads := reads,
              available_data := (if write_length < length payload
                then available_data c @ drop write_length payload else available_data c) \<rparr>,
           [StoreBuffer (pr_buffer_paddr r) (take write_length payload),
            CompleteOp (pr_callback r) (Inr (of_nat write_length))]))"

text \<open>A packet to the remote end with the connection's ports.\<close>

definition respond_packet ::
  "tcp_connection \<Rightarrow> ipv4_address \<Rightarrow> ipv4_address \<Rightarrow> u32 \<Rightarrow> u8 \<Rightarrow> net_effect" where
  "respond_packet c local_addr remote_addr ack flags =
     NetRespond remote_addr (segment local_addr (tc_local_port c) remote_addr (tc_remote_port c)
       (last_sequence_sent c) ack flags [])"

text \<open>
  The branches of \<^verbatim>\<open>handle_packet\<close>. \<open>alive\<close> tells which tasks \<^verbatim>\<open>get_task\<close> finds; a vanished task ends
  the branch early.
\<close>

definition handle_close :: "tcp_connection \<Rightarrow> tcp_connection \<times> net_effect list" where
  "handle_close c = (let (c, fx) = fail_reads c; (c, fx') = fail_writes c in (c, fx @ fx'))"

definition handle_connect ::
  "(u32 \<Rightarrow> bool) \<Rightarrow> tcp_connection \<Rightarrow> ipv4_address \<Rightarrow> ipv4_address \<Rightarrow> tcp_header \<Rightarrow> bool
     \<Rightarrow> tcp_connection \<times> net_effect list" where
  "handle_connect alive c local_addr remote_addr header send_ack =
     (let sq = to_be32 (sequence_number header);
          callback = on_connect c;
          c = c \<lparr> tc_state := Established, local_address := local_addr, remote_address := remote_addr,
                last_sequence_sent := last_sequence_sent c + 1,
                last_sequence_received := (if send_ack then sq + 1 else sq), on_connect := None \<rparr>;
          ack = (if send_ack then [respond_packet c local_addr remote_addr (sq + 1) FLAG_ACK] else [])
      in case callback of
           None \<Rightarrow> (c, ack)
         | Some (cb, should_create_provider) \<Rightarrow>
             if should_create_provider then
               if alive (fst cb) then (c, AcceptHandle cb (own_id c) # ack) else (c, [])
             else (c, CompleteOp cb (Inr (own_id c)) # ack))"

definition handle_enqueue ::
  "tcp_connection \<Rightarrow> ipv4_address \<Rightarrow> ipv4_address \<Rightarrow> tcp_header \<Rightarrow> u8 list
     \<Rightarrow> tcp_connection \<times> net_effect list" where
  "handle_enqueue c local_addr remote_addr header payload =
     (let (c, fx) = (if is_ack header then process_ack c (to_be32 (ack_number header)) else (c, []))
      in if payload = [] then (c, fx)
         else let actual_seq = to_be32 (sequence_number header) in
           if actual_seq \<noteq> last_sequence_received c then
             (c, fx @ [respond_packet c local_addr remote_addr (last_sequence_received c) FLAG_ACK])
           else
             let (c, fx') = deliver_data c payload;
                 c = c \<lparr> last_sequence_received := actual_seq + of_nat (length payload) \<rparr>
             in (c, fx @ fx' @ [respond_packet c local_addr remote_addr (last_sequence_received c) FLAG_ACK]))"

definition handle_fin ::
  "tcp_connection \<Rightarrow> ipv4_address \<Rightarrow> ipv4_address \<Rightarrow> tcp_header \<Rightarrow> u8 list
     \<Rightarrow> tcp_connection \<times> net_effect list" where
  "handle_fin c local_addr remote_addr header payload =
     (let (c, fx) = (if is_ack header then process_ack c (to_be32 (ack_number header)) else (c, []));
          actual_seq = to_be32 (sequence_number header);
          (c, fx') = (if payload = [] \<or> actual_seq \<noteq> last_sequence_received c then (c, [])
            else let (c, fx') = deliver_data c payload
              in (c \<lparr> last_sequence_received := actual_seq + of_nat (length payload) \<rparr>, fx'));
          c = c \<lparr> tc_state := LastAck \<rparr>;
          (c, fx'') = fail_reads c
      in (c, fx @ fx' @ fx'' @
            [respond_packet c local_addr remote_addr (last_sequence_received c + 1) (FLAG_FIN OR FLAG_ACK)]))"

definition tcp_handle_packet ::
  "(u32 \<Rightarrow> bool) \<Rightarrow> tcp_connection \<Rightarrow> ipv4_address \<Rightarrow> ipv4_address \<Rightarrow> tcp_header \<Rightarrow> u8 list
     \<Rightarrow> tcp_connection \<times> net_effect list" where
  "tcp_handle_packet alive c local_addr remote_addr header payload =
     (case action_for_tcp_packet c header of
        Close \<Rightarrow> handle_close c
      | Connect \<Rightarrow> handle_connect alive c local_addr remote_addr header False
      | ConnectAck \<Rightarrow> handle_connect alive c local_addr remote_addr header True
      | Discard \<Rightarrow> (c, [])
      | Enqueue \<Rightarrow> handle_enqueue c local_addr remote_addr header payload
      | FinAck \<Rightarrow> handle_fin c local_addr remote_addr header payload
      | Reset \<Rightarrow> (c, [respond_packet c local_addr remote_addr (to_be32 (sequence_number header) + 1)
                     (FLAG_RST OR FLAG_ACK)]))"

definition MSS :: nat where "MSS = 1460"

text \<open>\<^verbatim>\<open>write\<close>: the loop sends the data in segments of at most \<^verbatim>\<open>MSS\<close> bytes, pushing the last one.\<close>

function write_loop :: "tcp_connection \<Rightarrow> u8 list \<Rightarrow> nat \<Rightarrow> tcp_connection \<times> net_effect list" where
  "write_loop c buf offset =
     (if length buf \<le> offset then (c, [])
      else
        let stop = min (offset + MSS) (length buf);
            chunk = take (stop - offset) (drop offset buf);
            is_last = (stop = length buf);
            flags = (if is_last then FLAG_ACK OR FLAG_PSH else FLAG_ACK);
            packet = segment (local_address c) (tc_local_port c) (remote_address c) (tc_remote_port c)
              (last_sequence_sent c) (last_sequence_received c) flags chunk;
            c = c \<lparr> last_sequence_sent := last_sequence_sent c + of_nat (length chunk) \<rparr>;
            (c, fx) = write_loop c buf stop
        in (c, NetRespond (remote_address c) packet # fx))"
  by pat_completeness auto
termination
  by (relation "measure (\<lambda>(c, buf, offset). length buf - offset)") (auto simp: MSS_def)

declare write_loop.simps [simp del]

definition tcp_write ::
  "tcp_connection \<Rightarrow> u8 list \<Rightarrow> async_callback \<Rightarrow> tcp_connection \<times> net_effect list \<times> net_io_result option" where
  "tcp_write c buf callback =
     (if tc_state c \<noteq> Established then (c, [], Some (Inl OperationFailed))
      else let (c, fx) = write_loop c buf 0;
               w = \<lparr> end_sequence = last_sequence_sent c, pw_total_len = of_nat (length buf), pw_callback = callback \<rparr>
           in (c \<lparr> pending_writes := pending_writes c @ [w] \<rparr>, fx, None))"

definition tcp_close :: "tcp_connection \<Rightarrow> tcp_connection \<times> net_effect list" where
  "tcp_close c =
     (let (c, fx) = fail_reads c; (c, fx') = fail_writes c in
      (c, fx @ fx' @ (if tc_state c = Established then
          [NetRespond (remote_address c) (segment (local_address c) (tc_local_port c) (remote_address c)
             (tc_remote_port c) (last_sequence_sent c) (last_sequence_received c) (FLAG_FIN OR FLAG_ACK) [])]
        else [])))"

text \<open>
  \<^verbatim>\<open>read\<close>: the caller's buffer has the given length and its start the given physical address (\<open>None\<close>
  when \<^verbatim>\<open>get_current_physical_address\<close> fails, where \<^verbatim>\<open>unwrap\<close> panics). The result carries the bytes
  copied to the buffer.
\<close>

definition tcp_read ::
  "tcp_connection \<Rightarrow> nat \<Rightarrow> u32 option \<Rightarrow> async_callback
     \<Rightarrow> (tcp_connection \<times> u8 list \<times> net_io_result option) option" where
  "tcp_read c buffer_len buffer_paddr callback =
     (if available_data c \<noteq> [] then
        let copy_len = min buffer_len (length (available_data c)) in
        Some (c \<lparr> available_data := drop copy_len (available_data c) \<rparr>,
              take copy_len (available_data c), Some (Inr (of_nat copy_len)))
      else if tc_state c = LastAck then Some (c, [], Some (Inr 0))
      else case buffer_paddr of None \<Rightarrow> None
        | Some paddr \<Rightarrow>
            Some (c \<lparr> pending_reads := pending_reads c @
              [\<lparr> pr_buffer_paddr = paddr, pr_buffer_len = buffer_len, pr_callback = callback \<rparr>] \<rparr>, [], None))"

section \<open>The receive stream\<close>

text \<open>
  What happens to a connection after its handshake: packets arrive and the owner reads. A run collects
  the bytes the owner's buffers receive, in order, whether a read returns them at once or they are
  stored later. \<open>None\<close> is the panic of a read whose buffer is not mapped.
\<close>

datatype tcp_event =
    Packet ipv4_address ipv4_address tcp_header "u8 list"
  | Read nat "u32 option" async_callback

fun stored_bytes :: "net_effect list \<Rightarrow> u8 list" where
  "stored_bytes [] = []"
| "stored_bytes (StoreBuffer paddr bs # fx) = bs @ stored_bytes fx"
| "stored_bytes (_ # fx) = stored_bytes fx"

fun tcp_run :: "(u32 \<Rightarrow> bool) \<Rightarrow> tcp_connection \<Rightarrow> tcp_event list \<Rightarrow> (tcp_connection \<times> u8 list) option" where
  "tcp_run alive c [] = Some (c, [])"
| "tcp_run alive c (Packet la ra h payload # evs) =
     (let (c, fx) = tcp_handle_packet alive c la ra h payload
      in map_option (\<lambda>(c, out). (c, stored_bytes fx @ out)) (tcp_run alive c evs))"
| "tcp_run alive c (Read n paddr cb # evs) =
     (case tcp_read c n paddr cb of None \<Rightarrow> None
      | Some (c, bs, res) \<Rightarrow> map_option (\<lambda>(c, out). (c, bs @ out)) (tcp_run alive c evs))"

text \<open>The owner waits for a read before it issues the next one.\<close>

fun one_read :: "(u32 \<Rightarrow> bool) \<Rightarrow> tcp_connection \<Rightarrow> tcp_event list \<Rightarrow> bool" where
  "one_read alive c [] \<longleftrightarrow> True"
| "one_read alive c (Packet la ra h payload # evs) \<longleftrightarrow>
     one_read alive (fst (tcp_handle_packet alive c la ra h payload)) evs"
| "one_read alive c (Read n paddr cb # evs) \<longleftrightarrow>
     pending_reads c = [] \<and>
     (case tcp_read c n paddr cb of None \<Rightarrow> True | Some (c, bs, res) \<Rightarrow> one_read alive c evs)"

text \<open>
  Every packet carries a piece of the remote end's stream, at the sequence number of that piece:
  packets may be lost, repeated or reordered.
\<close>

fun from_stream :: "u8 list \<Rightarrow> u32 \<Rightarrow> tcp_event \<Rightarrow> bool" where
  "from_stream stream isn (Packet la ra h payload) \<longleftrightarrow>
     (\<exists>off \<le> length stream. payload = take (length payload) (drop off stream) \<and>
        to_be32 (sequence_number h) = isn + of_nat off)"
| "from_stream stream isn (Read n paddr cb) \<longleftrightarrow> True"

definition stream_inv :: "u8 list \<Rightarrow> u32 \<Rightarrow> tcp_connection \<Rightarrow> nat \<Rightarrow> bool" where
  "stream_inv stream isn c k \<longleftrightarrow> tc_state c \<in> {Established, LastAck} \<and>
     k + length (available_data c) \<le> length stream \<and>
     available_data c = take (length (available_data c)) (drop k stream) \<and>
     last_sequence_received c = isn + of_nat (k + length (available_data c)) \<and>
     length (pending_reads c) \<le> 1 \<and> (pending_reads c = [] \<or> available_data c = [])"

lemma stored_bytes_append [simp]: "stored_bytes (xs @ ys) = stored_bytes xs @ stored_bytes ys"
  by (induction xs rule: stored_bytes.induct) simp_all

lemma process_ack_frame:
  assumes "process_ack c ack = (c', fx)"
  shows "c' = c \<lparr> pending_writes := pending_writes c' \<rparr>" "stored_bytes fx = []"
proof -
  have "stored_bytes (snd (process_ack_loop ack ws)) = []" for ws
    by (induction ws) (auto split: prod.splits)
  then show "c' = c \<lparr> pending_writes := pending_writes c' \<rparr>" "stored_bytes fx = []"
    using assms by (auto simp: process_ack_def split: prod.splits) (metis snd_conv)
qed

lemma stored_completions [simp]: "stored_bytes (map (\<lambda>x. CompleteOp (f x) (g x)) xs) = []"
  by (induction xs) simp_all

lemma deliver_ok:
  assumes inv: "stream_inv stream isn c k" and d: "deliver_data c payload = (c', fx)"
    and piece: "payload = take (length payload) (drop (k + length (available_data c)) stream)"
  shows "stream_inv stream isn (c' \<lparr> last_sequence_received :=
      last_sequence_received c + of_nat (length payload) \<rparr>) (k + length (stored_bytes fx))"
    and "stored_bytes fx = take (length (stored_bytes fx)) (drop k stream)"
proof -
  have room: "k + length (available_data c) + length payload \<le> length stream"
  proof -
    have "length payload \<le> length stream - (k + length (available_data c))"
      using arg_cong [OF piece, of length] by (simp only: length_take length_drop)
    then show ?thesis using inv by (auto simp: stream_inv_def)
  qed
  show "stored_bytes fx = take (length (stored_bytes fx)) (drop k stream)"
  proof (cases "pending_reads c")
    case Nil
    then show ?thesis using d by (auto simp: deliver_data_def)
  next
    case (Cons r reads)
    define w where "w = min (length payload) (usable_len r)"
    have e: "stored_bytes fx = take w payload" "available_data c = []"
      using d inv Cons by (auto simp: deliver_data_def Let_def stream_inv_def w_def)
    have p: "payload = take (length payload) (drop k stream)"
      using piece e(2) by simp
    have w: "w \<le> length payload" by (simp add: w_def)
    have "take w payload = take w (drop k stream)"
      by (subst p) (simp add: w min_absorb1)
    moreover have "length (stored_bytes fx) = w"
      using w by (simp add: e(1) min_absorb2)
    ultimately show ?thesis
      by (simp only: e(1))
  qed
  show "stream_inv stream isn (c' \<lparr> last_sequence_received :=
      last_sequence_received c + of_nat (length payload) \<rparr>) (k + length (stored_bytes fx))"
  proof (cases "pending_reads c")
    case Nil
    then have c': "c' = c \<lparr> available_data := available_data c @ payload \<rparr>" "fx = []"
      using d by (auto simp: deliver_data_def)
    define n where "n = length (available_data c)"
    have "take (n + length payload) (drop k stream) = take n (drop k stream) @ take (length payload) (drop n (drop k stream))"
      by (rule take_add)
    also have "\<dots> = available_data c @ payload"
      using inv piece by (simp add: stream_inv_def n_def add.commute)
    finally have "available_data c @ payload = take (n + length payload) (drop k stream)" by simp
    then show ?thesis
      using inv room Nil by (simp add: stream_inv_def c' n_def add_ac)
  next
    case (Cons r reads)
    define w where "w = min (length payload) (usable_len r)"
    have e: "reads = []" "available_data c = []"
      using inv Cons by (auto simp: stream_inv_def)
    have p: "payload = take (length payload) (drop k stream)"
      using piece e(2) by simp
    have c': "c' = c \<lparr> pending_reads := [], available_data := drop w payload \<rparr>"
        "stored_bytes fx = take w payload"
      using d Cons e by (auto simp: deliver_data_def Let_def w_def)
    have w: "w \<le> length payload" by (simp add: w_def)
    have "drop w payload = take (length payload - w) (drop (k + w) stream)"
      by (subst p) (simp add: drop_take add.commute)
    then show ?thesis
      using inv room e w by (simp add: stream_inv_def c' add_ac of_nat_diff)
  qed
qed

lemma of_nat_u32_inj:
  assumes "m < 2 ^ 32" "n < 2 ^ 32" "(of_nat m :: u32) = of_nat n"
  shows "m = n"
proof -
  have "unat (of_nat m :: u32) = m" "unat (of_nat n :: u32) = n"
    using assms(1,2) by (intro unat_of_nat_small; simp)+
  then show ?thesis using assms(3) by metis
qed

lemma stream_inv_writes: "stream_inv stream isn (c \<lparr> pending_writes := ws \<rparr>) k = stream_inv stream isn c k"
  by (simp add: stream_inv_def)

lemma stream_inv_last_ack: "stream_inv stream isn c k \<Longrightarrow> stream_inv stream isn (c \<lparr> tc_state := LastAck \<rparr>) k"
  by (simp add: stream_inv_def)

lemma stream_inv_no_reads: "stream_inv stream isn c k \<Longrightarrow> stream_inv stream isn (c \<lparr> pending_reads := [] \<rparr>) k"
  by (simp add: stream_inv_def)

lemmas stream_inv_keep = stream_inv_writes stream_inv_last_ack stream_inv_no_reads

lemma maybe_ack_frame:
  assumes "(if is_ack h then process_ack c a else (c, [])) = (c', fx)"
  shows "c' = c \<lparr> pending_writes := pending_writes c' \<rparr>" "stored_bytes fx = []"
  using assms process_ack_frame [of c a c' fx] by (auto split: if_splits)

lemma piece_at:
  assumes "from_stream stream isn (Packet la ra h payload)" "stream_inv stream isn c k"
    "length stream < 2 ^ 32" "to_be32 (sequence_number h) = last_sequence_received c"
  shows "payload = take (length payload) (drop (k + length (available_data c)) stream)"
proof -
  obtain off where off: "off \<le> length stream" "payload = take (length payload) (drop off stream)"
    "to_be32 (sequence_number h) = isn + of_nat off"
    using assms(1) by auto
  have "(of_nat off :: u32) = of_nat (k + length (available_data c))"
    using assms(2,4) off(3) by (simp add: stream_inv_def)
  then have "off = k + length (available_data c)"
    using assms(2,3) off(1) by (intro of_nat_u32_inj) (auto simp: stream_inv_def)
  then show ?thesis using off(2) by simp
qed

lemma enqueue_ok:
  assumes inv: "stream_inv stream isn c k" and "length stream < 2 ^ 32"
    and st: "from_stream stream isn (Packet la ra h payload)"
    and e: "handle_enqueue c la ra h payload = (c', fx)"
  shows "stream_inv stream isn c' (k + length (stored_bytes fx)) \<and>
    stored_bytes fx = take (length (stored_bytes fx)) (drop k stream)"
proof -
  obtain c1 fx1 where a: "(if is_ack h then process_ack c (to_be32 (ack_number h)) else (c, [])) = (c1, fx1)"
    by (metis surj_pair)
  note fr = maybe_ack_frame [OF a]
  have inv1: "stream_inv stream isn c1 k"
    using inv fr(1) stream_inv_writes by metis
  show ?thesis
  proof (cases "payload = [] \<or> to_be32 (sequence_number h) \<noteq> last_sequence_received c1")
    case True
    then have "handle_enqueue c la ra h payload = (c1, fx1 @ (if payload = [] then []
        else [respond_packet c1 la ra (last_sequence_received c1) FLAG_ACK]))"
      unfolding handle_enqueue_def a by (cases "payload = []") (simp_all add: Let_def)
    then show ?thesis
      using e fr(2) inv1 by (auto simp: respond_packet_def)
  next
    case False
    obtain c2 fx2 where d: "deliver_data c1 payload = (c2, fx2)" by (metis surj_pair)
    define c3 where "c3 = c2 \<lparr> last_sequence_received := last_sequence_received c1 + of_nat (length payload) \<rparr>"
    have "handle_enqueue c la ra h payload =
        (c3, fx1 @ fx2 @ [respond_packet c3 la ra (last_sequence_received c3) FLAG_ACK])"
      using False unfolding handle_enqueue_def a by (simp add: Let_def d c3_def)
    then have "c' = c3" "stored_bytes fx = stored_bytes fx2"
      using e fr(2) by (auto simp: respond_packet_def)
    then show ?thesis
      using deliver_ok [OF inv1 d] piece_at [OF st inv1 assms(2)] False by (simp add: c3_def)
  qed
qed

lemma fin_ok:
  assumes inv: "stream_inv stream isn c k" and "length stream < 2 ^ 32"
    and st: "from_stream stream isn (Packet la ra h payload)"
    and e: "handle_fin c la ra h payload = (c', fx)"
  shows "stream_inv stream isn c' (k + length (stored_bytes fx)) \<and>
    stored_bytes fx = take (length (stored_bytes fx)) (drop k stream)"
proof -
  obtain c1 fx1 where a: "(if is_ack h then process_ack c (to_be32 (ack_number h)) else (c, [])) = (c1, fx1)"
    by (metis surj_pair)
  note fr = maybe_ack_frame [OF a]
  have inv1: "stream_inv stream isn c1 k"
    using inv fr(1) stream_inv_writes by metis
  define fin where "fin c2 = c2 \<lparr> tc_state := LastAck, pending_reads := [] \<rparr>" for c2 :: tcp_connection
  have fin: "stream_inv stream isn (fin c2) j" if "stream_inv stream isn c2 j" for c2 j
    using that by (simp add: fin_def stream_inv_def)
  define reply where "reply c2 = map (\<lambda>r. CompleteOp (pr_callback r) (Inr 0)) (pending_reads c2) @
    [respond_packet (fin c2) la ra (last_sequence_received (fin c2) + 1) (FLAG_FIN OR FLAG_ACK)]"
    for c2 :: tcp_connection
  have reply: "stored_bytes (reply c2) = []" for c2
    by (simp add: reply_def respond_packet_def)
  show ?thesis
  proof (cases "payload = [] \<or> to_be32 (sequence_number h) \<noteq> last_sequence_received c1")
    case True
    then have "handle_fin c la ra h payload = (fin c1, fx1 @ reply c1)"
      unfolding handle_fin_def a by (simp add: Let_def fail_reads_def fin_def reply_def)
    then show ?thesis
      using e fr(2) fin [OF inv1] by (auto simp: reply)
  next
    case False
    obtain c2 fx2 where d: "deliver_data c1 payload = (c2, fx2)" by (metis surj_pair)
    define c3 where "c3 = c2 \<lparr> last_sequence_received := last_sequence_received c1 + of_nat (length payload) \<rparr>"
    have "handle_fin c la ra h payload = (fin c3, fx1 @ fx2 @ reply c3)"
      using False unfolding handle_fin_def a by (simp add: Let_def d c3_def fail_reads_def fin_def reply_def)
    then have "c' = fin c3" "stored_bytes fx = stored_bytes fx2"
      using e fr(2) by (auto simp: reply)
    then show ?thesis
      using deliver_ok [OF inv1 d] piece_at [OF st inv1 assms(2)] False fin by (simp add: c3_def)
  qed
qed

lemma packet_step_ok:
  assumes "stream_inv stream isn c k" "length stream < 2 ^ 32"
    "from_stream stream isn (Packet la ra h payload)"
    "tcp_handle_packet alive c la ra h payload = (c', fx)"
  shows "stream_inv stream isn c' (k + length (stored_bytes fx)) \<and>
    stored_bytes fx = take (length (stored_bytes fx)) (drop k stream)"
proof -
  have "action_for_tcp_packet c h \<in> {Close, Enqueue, FinAck, Reset}"
    using assms(1) by (auto simp: action_for_tcp_packet_def stream_inv_def)
  then consider "action_for_tcp_packet c h = Close" | "action_for_tcp_packet c h = Enqueue"
    | "action_for_tcp_packet c h = FinAck" | "action_for_tcp_packet c h = Reset" by blast
  then show ?thesis
  proof cases
    case 1
    then have "c' = c \<lparr> pending_reads := [], pending_writes := [] \<rparr>" "stored_bytes fx = []"
      using assms(4) by (auto simp: tcp_handle_packet_def handle_close_def fail_reads_def fail_writes_def)
    then show ?thesis
      using assms(1) by (simp add: stream_inv_def)
  next
    case 2
    then show ?thesis
      using assms(4) by (intro enqueue_ok [OF assms(1-3)]) (simp add: tcp_handle_packet_def)
  next
    case 3
    then show ?thesis
      using assms(4) by (intro fin_ok [OF assms(1-3)]) (simp add: tcp_handle_packet_def)
  next
    case 4
    then show ?thesis
      using assms(1,4) by (auto simp: tcp_handle_packet_def respond_packet_def)
  qed
qed

lemma read_step_ok:
  assumes "stream_inv stream isn c k" "pending_reads c = []" "tcp_read c n paddr cb = Some (c', bs, res)"
  shows "stream_inv stream isn c' (k + length bs) \<and> bs = take (length bs) (drop k stream)"
proof (cases "available_data c = []")
  case True
  then show ?thesis
    using assms by (auto simp: tcp_read_def stream_inv_def split: if_splits option.splits)
next
  case False
  define m where "m = min n (length (available_data c))"
  define l where "l = length (available_data c)"
  have c': "c' = c \<lparr> available_data := drop m (available_data c) \<rparr>" "bs = take m (available_data c)"
    using assms(3) False by (auto simp: tcp_read_def Let_def m_def)
  have a: "available_data c = take l (drop k stream)" and m: "m \<le> l" and kl: "k + l \<le> length stream"
    using assms(1) by (simp_all add: stream_inv_def l_def m_def)
  then have bs: "length bs = m" "bs = take m (drop k stream)"
    by (simp_all add: c' m_def l_def [symmetric] min_absorb1)
  moreover have "drop m (available_data c) = take (l - m) (drop (k + m) stream)"
    by (subst a) (simp add: drop_take add.commute)
  ultimately show ?thesis
    using assms(1,2) m kl by (simp add: stream_inv_def c' l_def [symmetric] of_nat_diff)
qed

lemma take_pieces:
  "xs = take (length xs) (drop k s) \<Longrightarrow> ys = take (length ys) (drop (k + length xs) s) \<Longrightarrow>
   xs @ ys = take (length (xs @ ys)) (drop k s)"
  using take_add [of "length xs" "length ys" "drop k s"] by (simp add: add.commute)

lemma inv_pieces:
  assumes "xs = take (length xs) (drop k s)"
    "P (k + length xs + length ys) \<and> ys = take (length ys) (drop (k + length xs) s)"
  shows "P (k + length (xs @ ys)) \<and> xs @ ys = take (length (xs @ ys)) (drop k s)"
proof
  show "P (k + length (xs @ ys))"
    using conjunct1 [OF assms(2)] by (simp only: length_append add.assoc)
  show "xs @ ys = take (length (xs @ ys)) (drop k s)"
    by (rule take_pieces [OF assms(1) conjunct2 [OF assms(2)]])
qed

lemma run_ok:
  assumes "stream_inv stream isn c k" "length stream < 2 ^ 32" "one_read alive c evs"
    "\<forall>ev \<in> set evs. from_stream stream isn ev" "tcp_run alive c evs = Some (c', out)"
  shows "stream_inv stream isn c' (k + length out) \<and> out = take (length out) (drop k stream)"
  using assms(1,3-5)
proof (induction alive c evs arbitrary: k c' out rule: tcp_run.induct)
  case (1 alive c)
  then show ?case by simp
next
  case (2 alive c la ra h payload evs)
  obtain c1 fx where p: "tcp_handle_packet alive c la ra h payload = (c1, fx)" by (metis surj_pair)
  obtain out1 where r: "tcp_run alive c1 evs = Some (c', out1)" "out = stored_bytes fx @ out1"
    using "2.prems"(4) by (auto simp: p)
  have st: "stream_inv stream isn c1 (k + length (stored_bytes fx))"
      "stored_bytes fx = take (length (stored_bytes fx)) (drop k stream)"
    using packet_step_ok [OF "2.prems"(1) assms(2) _ p] "2.prems"(3) by simp_all
  have "stream_inv stream isn c' (k + length (stored_bytes fx) + length out1) \<and>
      out1 = take (length out1) (drop (k + length (stored_bytes fx)) stream)"
    using "2.prems"(2,3) by (intro "2.IH" [OF p [symmetric] refl st(1)]) (simp_all add: p r)
  then show ?case
    unfolding r(2) by (rule inv_pieces [OF st(2)])
next
  case (3 alive c n paddr cb evs)
  obtain c1 bs res out1 where p: "tcp_read c n paddr cb = Some (c1, bs, res)"
      and r: "tcp_run alive c1 evs = Some (c', out1)" "out = bs @ out1"
    using "3.prems"(4) by (auto split: option.splits)
  have st: "stream_inv stream isn c1 (k + length bs)" "bs = take (length bs) (drop k stream)"
    using read_step_ok [OF "3.prems"(1) _ p] "3.prems"(2) by simp_all
  have "stream_inv stream isn c' (k + length bs + length out1) \<and>
      out1 = take (length out1) (drop (k + length bs) stream)"
    using "3.prems"(2,3) by (intro "3.IH" [OF p refl refl st(1)]) (simp_all add: p r)
  then show ?case
    unfolding r(2) by (rule inv_pieces [OF st(2)])
qed

text \<open>
  The receive stream of an established connection. Packets carrying pieces of the remote end's stream
  may arrive lost, repeated, cut differently or out of order, interleaved with reads; as long as the
  owner has at most one read waiting, the bytes its buffers receive followed by the bytes kept for
  later are exactly an initial piece of the stream, without loss, repetition or reordering, and the
  connection acknowledges exactly that many.
\<close>

theorem tcp_receive_in_order:
  assumes "tc_state c = Established" "pending_reads c = []" "available_data c = []"
    "last_sequence_received c = isn" "length stream < 2 ^ 32" "one_read alive c evs"
    "\<forall>ev \<in> set evs. from_stream stream isn ev" "tcp_run alive c evs = Some (c', out)"
  shows "out @ available_data c' = take (length (out @ available_data c')) stream \<and>
    last_sequence_received c' = isn + of_nat (length (out @ available_data c'))"
proof -
  have "stream_inv stream isn c 0"
    using assms(1-4) by (simp add: stream_inv_def)
  then have r: "stream_inv stream isn c' (length out)" "out = take (length out) (drop 0 stream)"
    using run_ok [of stream isn c 0] assms by simp_all
  moreover have "available_data c' = take (length (available_data c')) (drop (0 + length out) stream)"
    using r(1) by (simp add: stream_inv_def)
  ultimately have "out @ available_data c' = take (length (out @ available_data c')) (drop 0 stream)"
    by (intro take_pieces)
  then show ?thesis
    using r(1) by (simp add: stream_inv_def)
qed

text \<open>A connection and its peer's stream for the concrete runs below.\<close>

definition sample_connection :: tcp_connection where
  "sample_connection = (tcp_connection_new 7 49152 (Ipv4Address 10 0 0 2) 80 True None)
     \<lparr> tc_state := Established, last_sequence_sent := 1, last_sequence_received := 0xFFFFFFFE \<rparr>"

definition sample_header :: "u32 \<Rightarrow> u8 \<Rightarrow> tcp_header" where
  "sample_header sq flags = \<lparr> th_source_port = to_be16 80, th_dest_port = to_be16 49152,
     sequence_number = to_be32 sq, ack_number = to_be32 1, data_offset = 0x50, th_flags = flags,
     window_size = 0xffff, th_checksum = 0, urgent_pointer = 0 \<rparr>"

definition sample_events :: "tcp_event list" where
  "sample_events = (let ip = Ipv4Address 10 0 0 2 in
     [Read 2 (Some 0x5000) (1, 2, 3), Packet ip ip (sample_header 1 FLAG_ACK) [4, 5],
      Packet ip ip (sample_header 0xFFFFFFFE FLAG_ACK) [1, 2, 3],
      Packet ip ip (sample_header 0xFFFFFFFE FLAG_ACK) [1, 2, 3],
      Packet ip ip (sample_header 1 FLAG_ACK) [4, 5], Read 9 None (1, 2, 4)])"

lemma stored_respond [simp]: "stored_bytes (respond_packet c la ra a fl # fx) = stored_bytes fx"
  by (simp add: respond_packet_def)

lemma sample_packet:
  assumes "tc_state c = Established" "pending_writes c = []"
  shows "tcp_handle_packet alive c la ra (sample_header sq FLAG_ACK) payload =
    (if payload = [] then (c, [])
     else if sq \<noteq> last_sequence_received c
       then (c, [respond_packet c la ra (last_sequence_received c) FLAG_ACK])
     else case deliver_data c payload of (c', fx) \<Rightarrow>
       let c' = c' \<lparr> last_sequence_received := sq + of_nat (length payload) \<rparr>
       in (c', fx @ [respond_packet c' la ra (sq + of_nat (length payload)) FLAG_ACK]))"
proof -
  have "process_ack c a = (c, [])" for a
    using assms(2) by (simp add: process_ack_def)
  then show ?thesis
    using assms
    by (simp add: tcp_handle_packet_def action_for_tcp_packet_def handle_enqueue_def
        is_rst_def is_syn_def is_fin_def is_ack_def tcp_flag_defs sample_header_def Let_def split: prod.split)
qed

lemmas tcp_eval = sample_connection_def tcp_connection_new_def sample_packet deliver_data_def
  usable_len_def tcp_read_def

theorem tcp_receive_in_order_witness:
  "\<exists>c'. tcp_run (\<lambda>_. True) sample_connection sample_events = Some (c', [1, 2, 3, 4, 5]) \<and>
     [1, 2, 3, 4, 5] @ available_data c' = take (length ([1, 2, 3, 4, 5] @ available_data c')) [1, 2, 3, 4, 5, 6] \<and>
     last_sequence_received c' = 0xFFFFFFFE + of_nat (length ([1, 2, 3, 4, 5 :: u8] @ available_data c'))"
proof -
  have o: "one_read (\<lambda>_. True) sample_connection sample_events"
    by (simp add: sample_events_def Let_def tcp_eval)
  obtain c' where r: "tcp_run (\<lambda>_. True) sample_connection sample_events = Some (c', [1, 2, 3, 4, 5])"
    by (simp add: sample_events_def Let_def tcp_eval)
  have "from_stream [1, 2, 3, 4, 5, 6] 0xFFFFFFFE (Packet la ra (sample_header 0xFFFFFFFE fl) [1, 2, 3])" for la ra fl
    by (auto simp: sample_header_def intro: exI [of _ 0])
  moreover have "from_stream [1, 2, 3, 4, 5, 6] 0xFFFFFFFE (Packet la ra (sample_header 1 fl) [4, 5])" for la ra fl
    by (auto simp: sample_header_def intro!: exI [of _ 3])
  ultimately have "\<forall>ev \<in> set sample_events. from_stream [1, 2, 3, 4, 5, 6] 0xFFFFFFFE ev"
    by (simp add: sample_events_def Let_def)
  then show ?thesis
    using tcp_receive_in_order [OF _ _ _ _ _ o _ r, of "0xFFFFFFFE" "[1, 2, 3, 4, 5, 6]"] r
    by (simp add: sample_connection_def tcp_connection_new_def)
qed

text \<open>
  With two reads waiting, the order is lost: the end of a packet that does not fit the first buffer is
  set aside, and the next packet goes to the second buffer ahead of it.
\<close>

theorem two_reads_reorder:
  "\<exists>c'. tcp_run (\<lambda>_. True) sample_connection
     [Read 2 (Some 0x5000) (1, 2, 3), Read 2 (Some 0x6000) (1, 2, 4),
      Packet ip ip (sample_header 0xFFFFFFFE FLAG_ACK) [1, 2, 3],
      Packet ip ip (sample_header 1 FLAG_ACK) [4, 5]] = Some (c', [1, 2, 4, 5]) \<and>
    available_data c' = [3] \<and> last_sequence_received c' = 3"
  by (simp add: Let_def tcp_eval)

section \<open>Sending\<close>

text \<open>
  What the receiver of a packet sees of it: the header after the 20 bytes of the IPv4 header, and the
  payload after it. \<open>receive_all\<close> hands the packets among the effects of one end to the other end, in
  order.
\<close>

fun receive_all ::
  "(u32 \<Rightarrow> bool) \<Rightarrow> ipv4_address \<Rightarrow> tcp_connection \<Rightarrow> net_effect list \<Rightarrow> tcp_connection" where
  "receive_all alive src p [] = p"
| "receive_all alive src p (NetRespond dest packet # fx) =
     (case tcp_from (drop 20 packet) of
        None \<Rightarrow> receive_all alive src p fx
      | Some h \<Rightarrow> receive_all alive src (fst (tcp_handle_packet alive p dest src h (drop 40 packet))) fx)"
| "receive_all alive src p (_ # fx) = receive_all alive src p fx"

lemma segment_parts:
  assumes "length payload \<le> 65495"
  obtains h where "tcp_from (drop 20 (segment src sp dest dp sq ak flags payload)) = Some h"
    "drop 40 (segment src sp dest dp sq ak flags payload) = payload"
    "to_be32 (sequence_number h) = sq" "to_be32 (ack_number h) = ak" "th_flags h = flags"
proof -
  obtain ip h where s: "create_packet src sp dest dp sq ak flags payload = Some (ipv4_bytes ip @ tcp_bytes h @ payload)"
    "to_be32 (sequence_number h) = sq" "to_be32 (ack_number h) = ak" "th_flags h = flags"
    by (rule segment_ok [OF assms, of src sp dest dp sq ak flags])
  then show ?thesis
    using that [of h] by (simp add: segment_def ipv4.bytes_size tcp.bytes_size tcp.from_as)
qed

lemma data_flags:
  assumes "th_flags h = FLAG_ACK OR FLAG_PSH \<or> th_flags h = FLAG_ACK"
  shows "\<not> is_rst h" "\<not> is_syn h" "\<not> is_fin h" "is_ack h"
  using assms by (auto simp: is_rst_def is_syn_def is_fin_def is_ack_def tcp_flag_defs)

text \<open>An established peer with no read waiting that receives the next piece of data.\<close>

definition in_sync :: "tcp_connection \<Rightarrow> u32 \<Rightarrow> bool" where
  "in_sync p sq \<longleftrightarrow> tc_state p = Established \<and> pending_reads p = [] \<and> last_sequence_received p = sq"

lemma peer_takes_data:
  assumes "in_sync p sq" "th_flags h = FLAG_ACK OR FLAG_PSH \<or> th_flags h = FLAG_ACK"
    "to_be32 (sequence_number h) = sq" "payload \<noteq> []"
  shows "in_sync (fst (tcp_handle_packet alive p la ra h payload)) (sq + of_nat (length payload))"
    "available_data (fst (tcp_handle_packet alive p la ra h payload)) = available_data p @ payload"
proof -
  obtain p1 fx1 where a: "process_ack p (to_be32 (ack_number h)) = (p1, fx1)" by (metis surj_pair)
  have p1: "p1 = p \<lparr> pending_writes := pending_writes p1 \<rparr>"
    by (rule process_ack_frame [OF a])
  have "pending_reads p1 = []" "last_sequence_received p1 = sq" "tc_state p1 = Established"
      "available_data p1 = available_data p"
    using assms(1) by (subst p1, simp add: in_sync_def)+
  note p1 = this
  define p2 where "p2 = p1 \<lparr> available_data := available_data p1 @ payload,
      last_sequence_received := sq + of_nat (length payload) \<rparr>"
  have "action_for_tcp_packet p h = Enqueue"
    using assms(1) data_flags [OF assms(2)] by (simp add: action_for_tcp_packet_def in_sync_def)
  then have "fst (tcp_handle_packet alive p la ra h payload) = p2"
    using assms(3,4) data_flags(4) [OF assms(2)]
    by (simp add: tcp_handle_packet_def handle_enqueue_def a p1 deliver_data_def Let_def p2_def)
  then show "in_sync (fst (tcp_handle_packet alive p la ra h payload)) (sq + of_nat (length payload))"
    "available_data (fst (tcp_handle_packet alive p la ra h payload)) = available_data p @ payload"
    by (simp_all add: p2_def in_sync_def p1)
qed

lemma write_loop_received:
  assumes "in_sync p (last_sequence_sent c)" "offset \<le> length buf" "write_loop c buf offset = (c', fx)"
  shows "c' = c \<lparr> last_sequence_sent := last_sequence_sent c + of_nat (length buf - offset) \<rparr> \<and>
    in_sync (receive_all alive src p fx) (last_sequence_sent c') \<and>
    available_data (receive_all alive src p fx) = available_data p @ drop offset buf \<and>
    (\<forall>e \<in> set fx. \<exists>packet. e = NetRespond (remote_address c) packet \<and> length packet \<le> 1500)"
  using assms
proof (induction c buf offset arbitrary: p c' fx rule: write_loop.induct)
  case (1 c buf offset)
  show ?case
  proof (cases "length buf \<le> offset")
    case True
    then show ?thesis
      using "1.prems" by (simp add: write_loop.simps [of c])
  next
    case False
    define stop where "stop = min (offset + MSS) (length buf)"
    define chunk where "chunk = take (stop - offset) (drop offset buf)"
    define flags where "flags = (if stop = length buf then FLAG_ACK OR FLAG_PSH else FLAG_ACK)"
    define packet where "packet = segment (local_address c) (tc_local_port c) (remote_address c) (tc_remote_port c)
              (last_sequence_sent c) (last_sequence_received c) flags chunk"
    define c1 where "c1 = c \<lparr> last_sequence_sent := last_sequence_sent c + of_nat (length chunk) \<rparr>"
    obtain c2 fx2 where rec: "write_loop c1 buf stop = (c2, fx2)" by (metis surj_pair)
    have bounds: "offset < stop" "stop \<le> length buf" "stop \<le> offset + 1460"
      using False by (auto simp: stop_def MSS_def)
    then have chunk: "length chunk = stop - offset" "chunk \<noteq> []" "length chunk \<le> 1460"
      using False by (auto simp: chunk_def)
    have split: "drop offset buf = chunk @ drop stop buf"
      using bounds append_take_drop_id [of "stop - offset" "drop offset buf"] by (simp add: chunk_def)
    have w: "write_loop c buf offset = (c2, NetRespond (remote_address c2) packet # fx2)"
      using False by (subst write_loop.simps)
        (simp add: Let_def stop_def [symmetric] chunk_def [symmetric] flags_def [symmetric]
          packet_def [symmetric] c1_def [symmetric] rec del: length_take length_drop)
    have c': "c' = c2" "fx = NetRespond (remote_address c2) packet # fx2"
      using trans [OF w [symmetric] "1.prems"(3)] by auto
    obtain h where h: "tcp_from (drop 20 packet) = Some h" "drop 40 packet = chunk"
        "to_be32 (sequence_number h) = last_sequence_sent c" "th_flags h = flags"
      unfolding packet_def by (rule segment_parts [of chunk]) (use chunk in auto)
    have fl: "th_flags h = FLAG_ACK OR FLAG_PSH \<or> th_flags h = FLAG_ACK"
      by (simp add: h(4) flags_def)
    define p1 where "p1 = fst (tcp_handle_packet alive p (remote_address c) src h chunk)"
    have p1: "in_sync p1 (last_sequence_sent c1)" "available_data p1 = available_data p @ chunk"
      using peer_takes_data [OF "1.prems"(1) fl h(3) chunk(2)] by (simp_all add: p1_def c1_def)
    have IH: "c2 = c1 \<lparr> last_sequence_sent := last_sequence_sent c1 + of_nat (length buf - stop) \<rparr> \<and>
        in_sync (receive_all alive src p1 fx2) (last_sequence_sent c2) \<and>
        available_data (receive_all alive src p1 fx2) = available_data p1 @ drop stop buf \<and>
        (\<forall>e \<in> set fx2. \<exists>packet. e = NetRespond (remote_address c1) packet \<and> length packet \<le> 1500)"
      by (rule "1.IH" [OF False stop_def chunk_def refl flags_def packet_def c1_def p1(1) bounds(2) rec])
    have "length packet - 40 = length chunk" "20 \<le> length packet - 20"
      using tcp.from_not_short [OF h(1)] arg_cong [OF h(2), of length] by (simp_all only: length_drop)
    then have "length packet = 40 + length chunk"
      by linarith
    moreover have "of_nat (length chunk) + of_nat (length buf - stop) = (of_nat (length buf - offset) :: u32)"
      using bounds by (simp add: chunk(1) of_nat_add [symmetric] del: of_nat_add)
    ultimately show ?thesis
      using IH h(1,2) p1(2) chunk(3) by (auto simp: c' p1_def [symmetric] split c1_def add.assoc)
  qed
qed

lemma process_ack_all:
  assumes "\<forall>w \<in> set ws. ack - end_sequence w < 0x80000000"
  shows "process_ack_loop ack ws = ([], map (\<lambda>w. CompleteOp (pw_callback w) (Inr (pw_total_len w))) ws)"
  using assms by (induction ws) simp_all

text \<open>
  Data written to an established connection arrives: whatever its length, \<^verbatim>\<open>write\<close> cuts it into packets
  of at most 1500 bytes whose payloads, received in order by a peer that is in step, extend the peer's
  stream by exactly the written bytes; both ends are in step again afterwards, across the wrap-around
  of sequence numbers, and the peer's last acknowledgement number completes the write with its length,
  together with all the writes waiting before it.
\<close>

theorem written_data_arrives:
  assumes "tc_state c = Established" "in_sync p (last_sequence_sent c)"
    "tcp_write c buf cb = (c', fx, res)"
    "\<forall>w \<in> set (pending_writes c). last_sequence_sent c' - end_sequence w < 0x80000000"
  shows "res = None \<and>
    (let p' = receive_all alive src p fx in
     available_data p' = available_data p @ buf \<and> in_sync p' (last_sequence_sent c') \<and>
     last_sequence_sent c' = last_sequence_sent c + of_nat (length buf) \<and>
     (\<forall>e \<in> set fx. \<exists>packet. e = NetRespond (remote_address c) packet \<and> length packet \<le> 1500) \<and>
     (\<exists>c'' acks. process_ack c' (last_sequence_received p') = (c'', acks) \<and> pending_writes c'' = [] \<and>
        last acks = CompleteOp cb (Inr (of_nat (length buf)))))"
proof -
  obtain c1 where w: "write_loop c buf 0 = (c1, fx)" and r: "res = None"
    and c': "c' = c1 \<lparr> pending_writes := pending_writes c1 @ [\<lparr> end_sequence = last_sequence_sent c1,
        pw_total_len = of_nat (length buf), pw_callback = cb \<rparr>] \<rparr>"
    using assms(1,3) by (auto simp: tcp_write_def split: prod.splits)
  have ok: "c1 = c \<lparr> last_sequence_sent := last_sequence_sent c + of_nat (length buf) \<rparr>"
      "in_sync (receive_all alive src p fx) (last_sequence_sent c1)"
      "available_data (receive_all alive src p fx) = available_data p @ buf"
      "\<forall>e \<in> set fx. \<exists>packet. e = NetRespond (remote_address c) packet \<and> length packet \<le> 1500"
    using write_loop_received [OF assms(2) _ w, of alive src] by auto
  have "\<forall>w \<in> set (pending_writes c'). last_sequence_sent c1 - end_sequence w < 0x80000000"
    using assms(4) by (auto simp: c' ok(1))
  then have a: "process_ack c' (last_sequence_sent c1) = (c' \<lparr> pending_writes := [] \<rparr>,
      map (\<lambda>w. CompleteOp (pw_callback w) (Inr (pw_total_len w))) (pending_writes c'))"
    by (simp add: process_ack_def process_ack_all)
  have l: "last (map (\<lambda>w. CompleteOp (pw_callback w) (Inr (pw_total_len w))) (pending_writes c')) =
      CompleteOp cb (Inr (of_nat (length buf)))"
    by (simp add: c')
  have p: "last_sequence_received (receive_all alive src p fx) = last_sequence_sent c1"
    using ok(2) by (simp add: in_sync_def)
  show ?thesis
    using ok r a l p by (simp add: Let_def c')
qed

theorem written_data_arrives_witness:
  "\<exists>c' fx. tcp_write sample_connection (replicate 3000 0x41) (1, 2, 3) = (c', fx, None) \<and>
     available_data (receive_all (\<lambda>_. True) (Ipv4Address 10 0 0 1)
       (sample_connection \<lparr> last_sequence_received := 1 \<rparr>) fx) = replicate 3000 0x41 \<and>
     last_sequence_sent c' = 3001"
proof -
  obtain c' fx res where w: "tcp_write sample_connection (replicate 3000 0x41) (1, 2, 3) = (c', fx, res)"
    using prod_cases3 by blast
  have s: "tc_state sample_connection = Established"
      "in_sync (sample_connection \<lparr> last_sequence_received := 1 \<rparr>) (last_sequence_sent sample_connection)"
      "pending_writes sample_connection = []" "last_sequence_sent sample_connection = 1"
      "available_data sample_connection = []"
    by (simp_all add: sample_connection_def tcp_connection_new_def in_sync_def)
  show ?thesis
    using written_data_arrives [OF s(1,2) w, of "\<lambda>_. True" "Ipv4Address 10 0 0 1"] w
    by (simp add: Let_def s)
qed

text \<open>
  A reset that answers the connection request is not reported to the task that waits for the
  connection: the packet produces no effect at all and the callback stays where it is.
\<close>

theorem refused_connection_unreported:
  "is_rst h \<Longrightarrow>
   tcp_handle_packet alive (tcp_connection_new own lp ra rp True (Some (cb, False))) la ra' h payload =
   (tcp_connection_new own lp ra rp True (Some (cb, False)), [])"
  by (simp add: tcp_handle_packet_def action_for_tcp_packet_def handle_close_def fail_reads_def
      fail_writes_def tcp_connection_new_def)

theorem refused_connection_unreported_witness:
  "tcp_handle_packet (\<lambda>_. True) (tcp_connection_new 7 49152 (Ipv4Address 10 0 0 2) 80 True (Some ((1, 2, 3), False)))
     (Ipv4Address 10 0 0 1) (Ipv4Address 10 0 0 2) (sample_header 0 (FLAG_RST OR FLAG_ACK)) [] =
   (tcp_connection_new 7 49152 (Ipv4Address 10 0 0 2) 80 True (Some ((1, 2, 3), False)), [])"
  by (rule refused_connection_unreported) (simp add: is_rst_def sample_header_def tcp_flag_defs)

end
