(* ===== verification/Utf8.thy ===== *)
theory Utf8
  imports Idos_Prelude
begin

text \<open>
  \<^verbatim>\<open>String::from_utf8_lossy\<close> of Rust's standard library, which the network code applies to bytes that
  come from a task or from a packet: well-formed UTF-8 is kept, and every maximal piece of a sequence
  that cannot be completed is replaced by the three bytes of U+FFFD. A string is the list of its bytes.
\<close>

definition replacement :: "u8 list" where
  "replacement = [0xEF, 0xBF, 0xBD]"

text \<open>How many continuation bytes a lead byte asks for, and which second bytes it allows.\<close>

definition utf8_more :: "u8 \<Rightarrow> nat option" where
  "utf8_more b = (if b < 0x80 then Some 0
     else if 0xC2 \<le> b \<and> b \<le> 0xDF then Some 1
     else if 0xE0 \<le> b \<and> b \<le> 0xEF then Some 2
     else if 0xF0 \<le> b \<and> b \<le> 0xF4 then Some 3 else None)"

definition utf8_second :: "u8 \<Rightarrow> u8 \<Rightarrow> bool" where
  "utf8_second b c \<longleftrightarrow>
     (if b = 0xE0 then 0xA0 else if b = 0xF0 then 0x90 else 0x80) \<le> c \<and>
     c \<le> (if b = 0xED then 0x9F else if b = 0xF4 then 0x8F else 0xBF)"

text \<open>The number of bytes of the tail, at most \<open>n\<close>, that continue the sequence.\<close>

fun continuations :: "nat \<Rightarrow> u8 list \<Rightarrow> nat" where
  "continuations (Suc n) (c # r) = (if 0x80 \<le> c \<and> c \<le> 0xBF then Suc (continuations n r) else 0)"
| "continuations _ _ = 0"

definition sequence_tail :: "u8 \<Rightarrow> nat \<Rightarrow> u8 list \<Rightarrow> nat" where
  "sequence_tail b n r = (case (n, r) of
     (Suc m, c # r') \<Rightarrow> if utf8_second b c then Suc (continuations m r') else 0
   | _ \<Rightarrow> 0)"

function utf8_lossy :: "u8 list \<Rightarrow> u8 list" where
  "utf8_lossy [] = []"
| "utf8_lossy (b # r) = (case utf8_more b of
     None \<Rightarrow> replacement @ utf8_lossy r
   | Some n \<Rightarrow>
       let k = sequence_tail b n r in
       if k = n then b # take n r @ utf8_lossy (drop n r)
       else replacement @ utf8_lossy (drop k r))"
  by pat_completeness auto
termination
  by (relation "measure length") auto

lemma utf8_lossy_ascii: "\<forall>b \<in> set bs. b < 0x80 \<Longrightarrow> utf8_lossy bs = bs"
  by (induction bs) (simp_all add: utf8_more_def sequence_tail_def)

end
