(* ===== verification/Net_Sockets.thy ===== *)
theory Net_Sockets
  imports Tcp_Connection BTree_Map Utf8
begin

text \<open>
  The socket layer (\<^verbatim>\<open>kernel/src/net/socket/\<close>: \<^verbatim>\<open>mod.rs\<close>, \<^verbatim>\<open>listen.rs\<close>, \<^verbatim>\<open>port.rs\<close>): the tables of
  bound ports and of sockets, UDP sockets, TCP listeners, and the routing of packets to them. The
  statics of the module are the fields of one record; every operation returns it updated, with the
  effects of \<open>Tcp_Connection\<close> in the order the code performs them. \<open>None\<close> is a panic.
\<close>

section \<open>Ordered keys\<close>

text \<open>
  The derived order of \<^verbatim>\<open>Ipv4Address\<close> and of \<^verbatim>\<open>RemoteEndpoint\<close>, which the listener's \<^verbatim>\<open>BTreeMap\<close> uses:
  lexicographic on the four octets, then on the port.
\<close>

primrec ip_rank :: "ipv4_address \<Rightarrow> nat" where
  "ip_rank (Ipv4Address a b c d) = ((unat a * 256 + unat b) * 256 + unat c) * 256 + unat d"

lemma mixed_radix_inj:
  "(a :: nat) * k + b = a' * k + b' \<Longrightarrow> b < k \<Longrightarrow> b' < k \<Longrightarrow> a = a' \<and> b = b'"
proof -
  assume e: "a * k + b = a' * k + b'" and b: "b < k" "b' < k"
  have "(a * k + b) div k = a" "(a' * k + b') div k = a'" "(a * k + b) mod k = b" "(a' * k + b') mod k = b'"
    using b by simp_all
  then show ?thesis using e by metis
qed

lemma unat_u8: "unat (b :: u8) < 256"
  using unsigned_less [of b, where ?'a = nat] by simp

lemma ip_rank_inj:
  assumes "ip_rank x = ip_rank y"
  shows "x = y"
proof -
  obtain a b c d a' b' c' d' where xy: "x = Ipv4Address a b c d" "y = Ipv4Address a' b' c' d'"
    by (cases x, cases y) blast
  note e = assms [unfolded xy ip_rank.simps]
  note f = mixed_radix_inj [OF e unat_u8 unat_u8]
  note g = mixed_radix_inj [OF conjunct1 [OF f] unat_u8 unat_u8]
  note h = mixed_radix_inj [OF conjunct1 [OF g] unat_u8 unat_u8]
  show ?thesis
    using f g h by (simp add: xy word_unat_eq_iff)
qed

instantiation ipv4_address :: linorder
begin

definition less_eq_ipv4_address :: "ipv4_address \<Rightarrow> ipv4_address \<Rightarrow> bool" where
  "less_eq_ipv4_address x y \<longleftrightarrow> ip_rank x \<le> ip_rank y"

definition less_ipv4_address :: "ipv4_address \<Rightarrow> ipv4_address \<Rightarrow> bool" where
  "less_ipv4_address x y \<longleftrightarrow> ip_rank x < ip_rank y"

instance
  by standard (auto simp: less_eq_ipv4_address_def less_ipv4_address_def intro: ip_rank_inj)

end

datatype remote_endpoint = RemoteEndpoint (re_address: ipv4_address) (re_port: u16)

instantiation remote_endpoint :: linorder
begin

definition less_remote_endpoint :: "remote_endpoint \<Rightarrow> remote_endpoint \<Rightarrow> bool" where
  "less_remote_endpoint x y \<longleftrightarrow> re_address x < re_address y \<or> re_address x = re_address y \<and> re_port x < re_port y"

definition less_eq_remote_endpoint :: "remote_endpoint \<Rightarrow> remote_endpoint \<Rightarrow> bool" where
  "less_eq_remote_endpoint x y \<longleftrightarrow> re_address x < re_address y \<or> re_address x = re_address y \<and> re_port x \<le> re_port y"

instance
  by standard (auto simp: less_eq_remote_endpoint_def less_remote_endpoint_def remote_endpoint.expand)

end

section \<open>UDP sockets\<close>

record udp_listener =
  ul_port :: u16
  ul_pending_reads :: "pending_read list"
  buffered_datagrams :: "u8 list list"

definition udp_listener_new :: "u16 \<Rightarrow> udp_listener" where
  "udp_listener_new port = \<lparr> ul_port = port, ul_pending_reads = [], buffered_datagrams = [] \<rparr>"

definition deliver_to_buffer :: "pending_read \<Rightarrow> u8 list \<Rightarrow> nat \<times> net_effect list" where
  "deliver_to_buffer r bytes =
     (let write_length = min (length bytes) (usable_len r)
      in (write_length, [StoreBuffer (pr_buffer_paddr r) (take write_length bytes)]))"

definition udp_handle_packet ::
  "udp_listener \<Rightarrow> ipv4_address \<Rightarrow> u16 \<Rightarrow> u8 list \<Rightarrow> udp_listener \<times> net_effect list" where
  "udp_handle_packet l remote_addr remote_port payload =
     (let packet = ip_bytes remote_addr @ be16_bytes remote_port @ payload
      in case ul_pending_reads l of
        [] \<Rightarrow> (l \<lparr> buffered_datagrams := buffered_datagrams l @ [packet] \<rparr>, [])
      | r # reads \<Rightarrow>
          let (written, fx) = deliver_to_buffer r packet
          in (l \<lparr> ul_pending_reads := reads \<rparr>, fx @ [CompleteOp (pr_callback r) (Inr (of_nat written))]))"

definition udp_read ::
  "udp_listener \<Rightarrow> nat \<Rightarrow> u32 option \<Rightarrow> async_callback
     \<Rightarrow> (udp_listener \<times> u8 list \<times> net_io_result option) option" where
  "udp_read l buffer_len buffer_paddr callback =
     (case buffered_datagrams l of
        d # ds \<Rightarrow>
          let copy_len = min buffer_len (length d) in
          Some (l \<lparr> buffered_datagrams := ds \<rparr>, take copy_len d, Some (Inr (of_nat copy_len)))
      | [] \<Rightarrow> (case buffer_paddr of None \<Rightarrow> None
          | Some paddr \<Rightarrow> Some (l \<lparr> ul_pending_reads := ul_pending_reads l @
              [\<lparr> pr_buffer_paddr = paddr, pr_buffer_len = buffer_len, pr_callback = callback \<rparr>] \<rparr>, [], None)))"

record pending_udp_write =
  puw_source_port :: u16
  puw_dest_ip :: ipv4_address
  puw_dest_port :: u16
  puw_payload :: "u8 list"
  puw_callback :: async_callback

text \<open>\<^verbatim>\<open>UdpListener::write\<close>: the write to queue, if the local address is not known yet.\<close>

definition udp_write ::
  "udp_listener \<Rightarrow> u8 list \<Rightarrow> ipv4_address option \<Rightarrow> async_callback
     \<Rightarrow> pending_udp_write option \<times> net_effect list \<times> net_io_result option" where
  "udp_write l buffer local_ip callback =
     (if length buffer < 6 then (None, [], Some (Inl InvalidArgument))
      else
        let dest_ip = ip_at buffer 0;
            dest_port = le16 (buffer ! 5) (buffer ! 4);
            payload = drop 6 buffer
        in case local_ip of
            Some src_ip \<Rightarrow>
              (None, [NetRespond dest_ip (datagram src_ip (ul_port l) dest_ip dest_port payload),
                      CompleteOp callback (Inr (of_nat (length payload)))],
               Some (Inr (of_nat (length payload))))
          | None \<Rightarrow>
              (Some \<lparr> puw_source_port = ul_port l, puw_dest_ip = dest_ip, puw_dest_port = dest_port,
                     puw_payload = payload, puw_callback = callback \<rparr>, [], None))"

section \<open>TCP listeners\<close>

type_synonym listener_connections = "(remote_endpoint, u32) btree_map"

definition connections_add :: "listener_connections \<Rightarrow> ipv4_address \<Rightarrow> u16 \<Rightarrow> u32 \<Rightarrow> listener_connections" where
  "connections_add m addr port socket_id = bt_insert (RemoteEndpoint addr port) socket_id m"

definition connections_remove ::
  "listener_connections \<Rightarrow> ipv4_address \<Rightarrow> u16 \<Rightarrow> listener_connections \<times> u32 option" where
  "connections_remove m addr port =
     (bt_remove (RemoteEndpoint addr port) m, bt_get (RemoteEndpoint addr port) m)"

definition connections_find :: "listener_connections \<Rightarrow> ipv4_address \<Rightarrow> u16 \<Rightarrow> u32 option" where
  "connections_find m addr port = bt_get (RemoteEndpoint addr port) m"

definition all_connection_ids :: "listener_connections \<Rightarrow> u32 list" where
  "all_connection_ids m = map snd m"

record tcp_listener =
  tl_local_port :: u16
  tl_connections :: listener_connections
  pending_syn :: "(ipv4_address \<times> ipv4_address \<times> u16 \<times> u32) list"
  pending_accept :: "async_callback list"

definition tcp_listener_new :: "u16 \<Rightarrow> tcp_listener" where
  "tcp_listener_new port = \<lparr> tl_local_port = port, tl_connections = [], pending_syn = [], pending_accept = [] \<rparr>"

text \<open>
  \<^verbatim>\<open>init_connection\<close> takes the next socket id, which the caller gets back incremented
  (\<^verbatim>\<open>NEXT_SOCKET_ID.fetch_add\<close>).
\<close>

definition init_connection ::
  "u32 \<Rightarrow> tcp_listener \<Rightarrow> ipv4_address \<Rightarrow> ipv4_address \<Rightarrow> u16 \<Rightarrow> u32 \<Rightarrow> async_callback
     \<Rightarrow> u32 \<times> tcp_listener \<times> tcp_connection \<times> net_effect list" where
  "init_connection socket_id l local_addr remote_addr remote_port last_seq callback =
     (let is_outbound = (last_seq = 0);
          connection = (tcp_connection_new socket_id (tl_local_port l) remote_addr remote_port is_outbound
            (Some (callback, \<not> is_outbound))) \<lparr> last_sequence_received := last_seq \<rparr>;
          l = l \<lparr> tl_connections := connections_add (tl_connections l) remote_addr remote_port socket_id \<rparr>;
          flags = (if is_outbound then FLAG_SYN else FLAG_SYN OR FLAG_ACK)
      in (socket_id + 1, l, connection,
          [NetRespond remote_addr (segment local_addr (tl_local_port l) remote_addr remote_port
             (last_sequence_sent connection) (last_sequence_received connection + 1) flags [])]))"

text \<open>\<^verbatim>\<open>TcpListener::handle_packet\<close>; the connection it may start is paired with its socket id.\<close>

definition listener_handle_packet ::
  "u32 \<Rightarrow> tcp_listener \<Rightarrow> ipv4_address \<Rightarrow> ipv4_address \<Rightarrow> tcp_header
     \<Rightarrow> (u32 \<times> tcp_listener \<times> (u32 \<times> tcp_connection) option \<times> net_effect list) option" where
  "listener_handle_packet next_id l local_addr remote_addr header =
     (let remote_port = to_be16 (th_source_port header) in
      case connections_find (tl_connections l) remote_addr remote_port of
        Some _ \<Rightarrow> None
      | None \<Rightarrow>
          if is_syn header then
            case pending_accept l of
              [] \<Rightarrow> Some (next_id, l \<lparr> pending_syn := pending_syn l @
                [(local_addr, remote_addr, remote_port, to_be32 (sequence_number header))] \<rparr>, None, [])
            | callback # accepts \<Rightarrow>
                let (next_id', l, connection, fx) = init_connection next_id (l \<lparr> pending_accept := accepts \<rparr>)
                  local_addr remote_addr remote_port (to_be32 (sequence_number header)) callback
                in Some (next_id', l, Some (next_id, connection), fx)
          else Some (next_id, l, None, []))"

definition listener_accept ::
  "u32 \<Rightarrow> tcp_listener \<Rightarrow> async_callback
     \<Rightarrow> u32 \<times> tcp_listener \<times> (u32 \<times> tcp_connection) option \<times> net_effect list" where
  "listener_accept next_id l callback =
     (case pending_syn l of
        [] \<Rightarrow> (next_id, l \<lparr> pending_accept := pending_accept l @ [callback] \<rparr>, None, [])
      | (local_addr, remote_addr, remote_port, sq) # syns \<Rightarrow>
          let (next_id', l, connection, fx) = init_connection next_id (l \<lparr> pending_syn := syns \<rparr>)
            local_addr remote_addr remote_port sq callback
          in (next_id', l, Some (next_id, connection), fx))"

section \<open>The socket tables\<close>

datatype socket_type = UdpSocket udp_listener | ListenerSocket tcp_listener | ConnectionSocket tcp_connection

datatype socket_protocol = UdpProtocol | TcpProtocol

record socket_tables =
  next_socket_id :: u32
  active_connections :: "(u16, u32) btree_map"
  socket_map :: "(u32, socket_type) btree_map"
  pending_udp_writes :: "pending_udp_write list"
  resolved_local_ip :: "ipv4_address option"

definition socket_tables_new :: socket_tables where
  "socket_tables_new = \<lparr> next_socket_id = 1, active_connections = [], socket_map = [],
     pending_udp_writes = [], resolved_local_ip = None \<rparr>"

definition create_dns_socket :: "socket_tables \<Rightarrow> u16 \<Rightarrow> socket_tables" where
  "create_dns_socket s port = s \<lparr> next_socket_id := next_socket_id s + 1,
     active_connections := bt_insert port (next_socket_id s) (active_connections s) \<rparr>"

text \<open>\<^verbatim>\<open>get_ephemeral_port\<close>: the first unused port of the dynamic range, 65535 excluded.\<close>

function ephemeral_loop :: "socket_tables \<Rightarrow> nat \<Rightarrow> u16 option" where
  "ephemeral_loop s test_port =
     (if 65535 \<le> test_port then None
      else if bt_get (of_nat test_port) (active_connections s) = None then Some (of_nat test_port)
      else ephemeral_loop s (test_port + 1))"
  by pat_completeness auto
termination
  by (relation "measure (\<lambda>(s, p). 65535 - p)") auto

declare ephemeral_loop.simps [simp del]

definition get_ephemeral_port :: "socket_tables \<Rightarrow> u16 option" where
  "get_ephemeral_port s = ephemeral_loop s 49152"

section \<open>Socket operations\<close>

definition is_local_address :: "ipv4_address \<Rightarrow> bool" where
  "is_local_address addr \<longleftrightarrow> addr = Ipv4Address 0 0 0 0 \<or> addr = Ipv4Address 127 0 0 1"

text \<open>Binding a local port: the branch that UDP sockets and TCP listeners share.\<close>

definition bind_local ::
  "socket_tables \<Rightarrow> u16 \<Rightarrow> socket_type \<Rightarrow> socket_tables \<times> net_effect list \<times> net_io_result option" where
  "bind_local s port sock =
     (if bt_get port (active_connections s) \<noteq> None then (s, [], Some (Inl ResourceInUse))
      else let socket_id = next_socket_id s in
        (s \<lparr> next_socket_id := socket_id + 1,
             active_connections := bt_insert port socket_id (active_connections s),
             socket_map := bt_insert socket_id sock (socket_map s) \<rparr>, [], Some (Inr socket_id)))"

definition bind_remote ::
  "socket_tables \<Rightarrow> u8 list \<Rightarrow> ipv4_address option \<Rightarrow> u16 \<Rightarrow> async_callback
     \<Rightarrow> socket_tables \<times> net_effect list \<times> net_io_result option" where
  "bind_remote s addr_string parsed remote_port callback =
     (case get_ephemeral_port s of
        None \<Rightarrow> (s, [], Some (Inl ResourceLimitExceeded))
      | Some local_port \<Rightarrow>
          let socket_id = next_socket_id s;
              remote_addr = (case parsed of Some addr \<Rightarrow> addr | None \<Rightarrow> Ipv4Address 255 255 255 255);
              conn = tcp_connection_new socket_id local_port remote_addr remote_port True (Some (callback, False))
          in (s \<lparr> next_socket_id := socket_id + 1,
                  active_connections := bt_insert local_port socket_id (active_connections s),
                  socket_map := bt_insert socket_id (ConnectionSocket conn) (socket_map s) \<rparr>,
              [OpenTcp local_port (utf8_lossy addr_string) remote_port], None))"

definition socket_io_bind ::
  "socket_tables \<Rightarrow> socket_protocol \<Rightarrow> u8 list \<Rightarrow> u16 \<Rightarrow> async_callback
     \<Rightarrow> (socket_tables \<times> net_effect list \<times> net_io_result option) option" where
  "socket_io_bind s protocol addr_string port callback =
     (case parse_bytes addr_string of None \<Rightarrow> None
      | Some parsed \<Rightarrow> Some
          (case protocol of
             UdpProtocol \<Rightarrow>
               (case parsed of
                  None \<Rightarrow> (s, [], Some (Inl InvalidArgument))
                | Some addr \<Rightarrow>
                    if \<not> is_local_address addr then (s, [], Some (Inl InvalidArgument))
                    else bind_local s port (UdpSocket (udp_listener_new port)))
           | TcpProtocol \<Rightarrow>
               (case parsed of
                  Some addr \<Rightarrow>
                    if is_local_address addr then bind_local s port (ListenerSocket (tcp_listener_new port))
                    else bind_remote s addr_string parsed port callback
                | None \<Rightarrow> bind_remote s addr_string parsed port callback)))"

definition put_socket :: "u32 \<Rightarrow> socket_type \<Rightarrow> socket_tables \<Rightarrow> socket_tables" where
  "put_socket socket_id sock s = s \<lparr> socket_map := bt_insert socket_id sock (socket_map s) \<rparr>"

text \<open>A connection that a listener may have started enters the socket map.\<close>

definition put_new_connection :: "(u32 \<times> tcp_connection) option \<Rightarrow> socket_tables \<Rightarrow> socket_tables" where
  "put_new_connection new s = (case new of None \<Rightarrow> s
     | Some (socket_id, conn) \<Rightarrow> put_socket socket_id (ConnectionSocket conn) s)"

text \<open>\<^verbatim>\<open>socket_io_read\<close>; the result has the bytes copied to the caller's buffer at once.\<close>

definition socket_io_read ::
  "socket_tables \<Rightarrow> u32 \<Rightarrow> nat \<Rightarrow> u32 option \<Rightarrow> async_callback
     \<Rightarrow> (socket_tables \<times> net_effect list \<times> u8 list \<times> net_io_result option) option" where
  "socket_io_read s socket_id buffer_len buffer_paddr callback =
     (case bt_get socket_id (socket_map s) of
        None \<Rightarrow> Some (s, [], [], Some (Inl FileHandleInvalid))
      | Some (UdpSocket l) \<Rightarrow>
          map_option (\<lambda>(l, bs, res). (put_socket socket_id (UdpSocket l) s, [], bs, res))
            (udp_read l buffer_len buffer_paddr callback)
      | Some (ListenerSocket l) \<Rightarrow>
          let (next_id, l, new, fx) = listener_accept (next_socket_id s) l callback
          in Some (put_new_connection new
               (put_socket socket_id (ListenerSocket l) (s \<lparr> next_socket_id := next_id \<rparr>)), fx, [], None)
      | Some (ConnectionSocket c) \<Rightarrow>
          map_option (\<lambda>(c, bs, res). (put_socket socket_id (ConnectionSocket c) s, [], bs, res))
            (tcp_read c buffer_len buffer_paddr callback))"

definition socket_io_write ::
  "socket_tables \<Rightarrow> u32 \<Rightarrow> u8 list \<Rightarrow> async_callback \<Rightarrow> socket_tables \<times> net_effect list \<times> net_io_result option" where
  "socket_io_write s socket_id buffer callback =
     (case bt_get socket_id (socket_map s) of
        None \<Rightarrow> (s, [], Some (Inl FileHandleInvalid))
      | Some (UdpSocket l) \<Rightarrow>
          let (queued, fx, res) = udp_write l buffer (resolved_local_ip s) callback
          in (case queued of None \<Rightarrow> s
              | Some w \<Rightarrow> s \<lparr> pending_udp_writes := pending_udp_writes s @ [w] \<rparr>, fx, res)
      | Some (ListenerSocket l) \<Rightarrow> (s, [], Some (Inl UnsupportedOperation))
      | Some (ConnectionSocket c) \<Rightarrow>
          let (c, fx, res) = tcp_write c buffer callback
          in (put_socket socket_id (ConnectionSocket c) s, fx, res))"

text \<open>\<^verbatim>\<open>flush_pending_udp_writes\<close>, called when the local address becomes known.\<close>

definition flush_pending_udp_writes :: "socket_tables \<Rightarrow> ipv4_address \<Rightarrow> socket_tables \<times> net_effect list" where
  "flush_pending_udp_writes s local_ip =
     (s \<lparr> resolved_local_ip := Some local_ip, pending_udp_writes := [] \<rparr>,
      concat (map (\<lambda>w. [NetRespond (puw_dest_ip w)
            (datagram local_ip (puw_source_port w) (puw_dest_ip w) (puw_dest_port w) (puw_payload w)),
          CompleteOp (puw_callback w) (Inr (of_nat (length (puw_payload w))))]) (pending_udp_writes s)))"

text \<open>
  \<^verbatim>\<open>socket_io_close\<close>: the children of a listener are closed and leave the map with the port bindings of
  their connections; a connection is removed from its listener's table, or its port is unbound when it
  owns it.
\<close>

fun close_children :: "socket_tables \<Rightarrow> u32 list \<Rightarrow> socket_tables \<times> net_effect list" where
  "close_children s [] = (s, [])"
| "close_children s (child # children) =
     (let removed = bt_get child (socket_map s);
          s = s \<lparr> socket_map := bt_remove child (socket_map s) \<rparr>
      in case removed of
           Some (ConnectionSocket conn) \<Rightarrow>
             let (conn, fx) = tcp_close conn;
                 (s, fx') = close_children
                   (s \<lparr> active_connections := bt_remove (tc_local_port conn) (active_connections s) \<rparr>) children
             in (s, fx @ fx')
         | _ \<Rightarrow> close_children s children)"

definition unbind_socket :: "u32 \<Rightarrow> socket_tables \<Rightarrow> socket_tables" where
  "unbind_socket socket_id s =
     s \<lparr> active_connections := filter (\<lambda>p. snd p \<noteq> socket_id) (active_connections s) \<rparr>"

definition close_connection ::
  "socket_tables \<Rightarrow> u32 \<Rightarrow> tcp_connection \<Rightarrow> socket_tables \<times> net_effect list" where
  "close_connection s socket_id connection =
     (let (connection, fx) = tcp_close connection;
          local_port = tc_local_port connection
      in (case bt_get local_port (active_connections s) of
            None \<Rightarrow> s
          | Some listener_id \<Rightarrow>
              if listener_id \<noteq> socket_id then
                case bt_get listener_id (socket_map s) of
                  Some (ListenerSocket l) \<Rightarrow> put_socket listener_id (ListenerSocket
                    (l \<lparr> tl_connections := fst (connections_remove (tl_connections l)
                       (remote_address connection) (tc_remote_port connection)) \<rparr>)) s
                | _ \<Rightarrow> s
              else s \<lparr> active_connections := bt_remove local_port (active_connections s) \<rparr>, fx))"

definition socket_io_close :: "socket_tables \<Rightarrow> u32 \<Rightarrow> socket_tables \<times> net_effect list" where
  "socket_io_close s socket_id =
     (let removed = bt_get socket_id (socket_map s);
          s = s \<lparr> socket_map := bt_remove socket_id (socket_map s) \<rparr>
      in case removed of
           None \<Rightarrow> (s, [])
         | Some (UdpSocket l) \<Rightarrow> (unbind_socket socket_id s, [])
         | Some (ListenerSocket l) \<Rightarrow>
             let (s, fx) = close_children s (all_connection_ids (tl_connections l))
             in (unbind_socket socket_id s, fx)
         | Some (ConnectionSocket c) \<Rightarrow> close_connection s socket_id c)"

definition handle_udp_packet ::
  "socket_tables \<Rightarrow> u16 \<Rightarrow> ipv4_address \<Rightarrow> u16 \<Rightarrow> u8 list \<Rightarrow> socket_tables \<times> net_effect list" where
  "handle_udp_packet s local_port remote_addr remote_port payload =
     (case bt_get local_port (active_connections s) of
        None \<Rightarrow> (s, [])
      | Some socket_id \<Rightarrow>
          (case bt_get socket_id (socket_map s) of
             Some (UdpSocket l) \<Rightarrow>
               let (l, fx) = udp_handle_packet l remote_addr remote_port payload
               in (put_socket socket_id (UdpSocket l) s, fx)
           | _ \<Rightarrow> (s, [])))"

definition handle_tcp_packet ::
  "(u32 \<Rightarrow> bool) \<Rightarrow> socket_tables \<Rightarrow> ipv4_address \<Rightarrow> u16 \<Rightarrow> ipv4_address \<Rightarrow> tcp_header \<Rightarrow> u8 list
     \<Rightarrow> (socket_tables \<times> net_effect list) option" where
  "handle_tcp_packet alive s local_addr local_port remote_addr header payload =
     (case bt_get local_port (active_connections s) of
        None \<Rightarrow> Some (s, [])
      | Some socket_id \<Rightarrow>
          let remote_port = to_be16 (th_source_port header);
              lookup_id = (case bt_get socket_id (socket_map s) of
                 Some (ListenerSocket l) \<Rightarrow>
                   (case connections_find (tl_connections l) remote_addr remote_port of
                      Some conn_id \<Rightarrow> conn_id | None \<Rightarrow> socket_id)
               | _ \<Rightarrow> socket_id)
          in case bt_get lookup_id (socket_map s) of
               None \<Rightarrow> Some (s, [])
             | Some (UdpSocket _) \<Rightarrow> Some (s, [])
             | Some (ConnectionSocket c) \<Rightarrow>
                 let (c, fx) = tcp_handle_packet alive c local_addr remote_addr header payload
                 in Some (put_socket lookup_id (ConnectionSocket c) s, fx)
             | Some (ListenerSocket l) \<Rightarrow>
                 (case listener_handle_packet (next_socket_id s) l local_addr remote_addr header of
                    None \<Rightarrow> None
                  | Some (next_id, l, new, fx) \<Rightarrow>
                      let s = put_new_connection new
                            (put_socket lookup_id (ListenerSocket l) (s \<lparr> next_socket_id := next_id \<rparr>))
                      in Some (s, fx @
                        (if new = None \<and> \<not> is_syn header \<and> \<not> is_rst header then
                           [NetRespond remote_addr (segment local_addr local_port remote_addr remote_port
                              (to_be32 (ack_number header))
                              (to_be32 (sequence_number header) + of_nat (length payload) +
                                 (if is_fin header then 1 else 0))
                              (FLAG_RST OR FLAG_ACK) [])]
                         else []))))"

section \<open>The invariant of the tables\<close>

definition socket_at :: "socket_tables \<Rightarrow> u32 \<Rightarrow> socket_type option" where
  "socket_at s sid = bt_get sid (socket_map s)"

definition listener_at :: "socket_tables \<Rightarrow> u32 \<Rightarrow> bool" where
  "listener_at s sid \<longleftrightarrow> (\<exists>l. socket_at s sid = Some (ListenerSocket l))"

text \<open>
  Socket ids are below the counter, and what a listener's table names is never a listener: a socket
  that was a connection once, or is gone.
\<close>

definition sockets_ok :: "socket_tables \<Rightarrow> bool" where
  "sockets_ok s \<longleftrightarrow>
     (\<forall>sid sock. socket_at s sid = Some sock \<longrightarrow> sid < next_socket_id s) \<and>
     (\<forall>sid l ep cid. socket_at s sid = Some (ListenerSocket l) \<longrightarrow> bt_get ep (tl_connections l) = Some cid \<longrightarrow>
        cid < next_socket_id s \<and> \<not> listener_at s cid)"

text \<open>How one operation may change the tables.\<close>

definition sockets_step :: "socket_tables \<Rightarrow> socket_tables \<Rightarrow> bool" where
  "sockets_step s s' \<longleftrightarrow> next_socket_id s \<le> next_socket_id s' \<and>
     (\<forall>sid sock. socket_at s' sid = Some sock \<longrightarrow> socket_at s sid = None \<longrightarrow> sid < next_socket_id s') \<and>
     (\<forall>sid l'. socket_at s' sid = Some (ListenerSocket l') \<longrightarrow>
        (\<exists>l. socket_at s sid = Some (ListenerSocket l) \<and>
           (\<forall>ep cid. bt_get ep (tl_connections l') = Some cid \<longrightarrow> bt_get ep (tl_connections l) = Some cid \<or>
              next_socket_id s \<le> cid \<and> cid < next_socket_id s' \<and> \<not> listener_at s' cid)) \<or>
        next_socket_id s \<le> sid \<and> tl_connections l' = [])"

lemma sockets_step_ok:
  assumes "sockets_ok s" "sockets_step s s'"
  shows "sockets_ok s'"
proof -
  have mono: "next_socket_id s \<le> next_socket_id s'"
    using assms(2) by (simp add: sockets_step_def)
  have "sid < next_socket_id s'" if "socket_at s' sid = Some sock" for sid sock
    using assms mono that unfolding sockets_ok_def sockets_step_def
    by (cases "socket_at s sid") (blast, metis order_less_le_trans)
  moreover have "cid < next_socket_id s' \<and> \<not> listener_at s' cid"
    if l': "socket_at s' sid = Some (ListenerSocket l')" "bt_get ep (tl_connections l') = Some cid" for sid l' ep cid
  proof -
    consider l where "socket_at s sid = Some (ListenerSocket l)" "bt_get ep (tl_connections l) = Some cid"
      | "cid < next_socket_id s'" "\<not> listener_at s' cid"
      using assms(2) l' unfolding sockets_step_def by (metis bt_get_Nil option.distinct(1))
    then show ?thesis
    proof cases
      case 1
      then have c: "cid < next_socket_id s" "\<not> listener_at s cid"
        using assms(1) unfolding sockets_ok_def by blast+
      have "\<not> listener_at s' cid"
      proof
        assume "listener_at s' cid"
        then have "listener_at s cid \<or> next_socket_id s \<le> cid"
          using assms(2) unfolding sockets_step_def listener_at_def by blast
        then show False using c by simp
      qed
      then show ?thesis using c mono by simp
    qed simp
  qed
  ultimately show ?thesis
    unfolding sockets_ok_def by blast
qed

lemma listener_kept:
  assumes "socket_at s' sid = Some (ListenerSocket l')" "socket_at s sid = Some (ListenerSocket l')"
  shows "\<exists>l. socket_at s sid = Some (ListenerSocket l) \<and>
    (\<forall>ep cid. bt_get ep (tl_connections l') = Some cid \<longrightarrow> bt_get ep (tl_connections l) = Some cid \<or> P ep cid)"
  using assms by blast

lemma next_id_grows:
  assumes "(x :: u32) \<noteq> - 1"
  shows "x < x + 1"
proof -
  have "unat x \<noteq> 4294967295"
  proof
    assume "unat x = 4294967295"
    then have "unat x = unat (- 1 :: u32)"
      by (simp add: unsigned_minus_1_eq_mask mask_eq_exp_minus_1)
    then show False using assms by (simp only: word_unat_eq_iff)
  qed
  then have "unat x + 1 < 4294967296" using unat_less_max32 [of x] by linarith
  then show ?thesis by (simp add: word_less_nat_alt unat_word_ariths)
qed

lemma socket_at_simps [simp]:
  "socket_at (put_socket i sock s) j = (if j = i then Some sock else socket_at s j)"
  "socket_at (s \<lparr> active_connections := a \<rparr>) j = socket_at s j"
  "socket_at (s \<lparr> next_socket_id := n \<rparr>) j = socket_at s j"
  "socket_at (s \<lparr> pending_udp_writes := w \<rparr>) j = socket_at s j"
  "socket_at (s \<lparr> resolved_local_ip := ip \<rparr>) j = socket_at s j"
  "socket_at (s \<lparr> socket_map := bt_remove i (socket_map s) \<rparr>) j = (if j = i then None else socket_at s j)"
  "socket_at (s \<lparr> socket_map := bt_insert i sock (socket_map s) \<rparr>) j = (if j = i then Some sock else socket_at s j)"
  by (simp_all add: socket_at_def put_socket_def)

lemma next_put [simp]: "next_socket_id (put_socket i sock s) = next_socket_id s"
  by (simp add: put_socket_def)

text \<open>The kinds of change the operations make.\<close>

lemma step_refl: "sockets_step s s"
  by (auto simp: sockets_step_def)

lemma step_remove:
  assumes "next_socket_id s' = next_socket_id s" "\<And>j sock. socket_at s' j = Some sock \<Longrightarrow> socket_at s j = Some sock"
  shows "sockets_step s s'"
  unfolding sockets_step_def using assms by auto

lemma step_shrink:
  assumes "socket_at s i = Some (ListenerSocket l)"
    "\<And>ep cid. bt_get ep (tl_connections l') = Some cid \<Longrightarrow> bt_get ep (tl_connections l) = Some cid"
  shows "sockets_step s (put_socket i (ListenerSocket l') s)"
  unfolding sockets_step_def using assms by (auto split: if_splits)

lemma step_replace:
  assumes "socket_at s i = Some old" "\<And>l. sock \<noteq> ListenerSocket l"
  shows "sockets_step s (put_socket i sock s)"
  unfolding sockets_step_def using assms by (auto split: if_splits)

lemma step_new:
  assumes "next_socket_id s \<noteq> - 1" "next_socket_id s' = next_socket_id s + 1"
    "\<And>j. socket_at s' j = (if j = next_socket_id s then Some sock else socket_at s j)"
    "\<And>l. sock = ListenerSocket l \<Longrightarrow> tl_connections l = []"
  shows "sockets_step s s'"
  unfolding sockets_step_def using assms next_id_grows [OF assms(1)] by (auto split: if_splits)

lemma step_child:
  assumes "next_socket_id s \<noteq> - 1" "next_socket_id s' = next_socket_id s + 1" "i \<noteq> next_socket_id s"
    "socket_at s i = Some (ListenerSocket l)"
    "\<And>j. socket_at s' j = (if j = next_socket_id s then Some (ConnectionSocket c)
       else if j = i then Some (ListenerSocket l') else socket_at s j)"
    "\<And>ep cid. bt_get ep (tl_connections l') = Some cid \<Longrightarrow>
       bt_get ep (tl_connections l) = Some cid \<or> cid = next_socket_id s"
  shows "sockets_step s s'"
  unfolding sockets_step_def using assms(2-6) next_id_grows [OF assms(1)]
  by (auto simp: listener_at_def split: if_splits)

lemma bind_local_step:
  assumes "next_socket_id s \<noteq> - 1" "\<And>l. sock = ListenerSocket l \<Longrightarrow> tl_connections l = []"
  shows "sockets_step s (fst (bind_local s port sock))"
proof (cases "bt_get port (active_connections s) = None")
  case True
  then show ?thesis
    using assms(2) by (intro step_new [OF assms(1), where sock = sock]) (simp_all add: bind_local_def socket_at_def Let_def)
qed (auto simp: bind_local_def step_refl)

lemma bind_remote_step:
  assumes "next_socket_id s \<noteq> - 1"
  shows "sockets_step s (fst (bind_remote s addr parsed port cb))"
proof (cases "get_ephemeral_port s")
  case None
  then show ?thesis by (simp add: bind_remote_def step_refl)
next
  case (Some lp)
  define c where "c = tcp_connection_new (next_socket_id s) lp
    (case parsed of None \<Rightarrow> Ipv4Address 255 255 255 255 | Some addr \<Rightarrow> addr) port True (Some (cb, False))"
  show ?thesis
    using Some by (intro step_new [OF assms, where sock = "ConnectionSocket c"])
      (simp_all add: bind_remote_def socket_at_def Let_def c_def)
qed

lemma bind_step:
  assumes "next_socket_id s \<noteq> - 1" "socket_io_bind s protocol addr port cb = Some (s', fx, res)"
  shows "sockets_step s s'"
proof -
  have "s' = s \<or> s' = fst (bind_local s port (UdpSocket (udp_listener_new port))) \<or>
      s' = fst (bind_local s port (ListenerSocket (tcp_listener_new port))) \<or>
      (\<exists>parsed. s' = fst (bind_remote s addr parsed port cb))"
    using assms(2)
    by (auto simp: socket_io_bind_def split: option.splits socket_protocol.splits if_splits
        dest!: arg_cong [where f = fst])
  moreover have "sockets_step s (fst (bind_local s port (UdpSocket (udp_listener_new port))))"
      "sockets_step s (fst (bind_local s port (ListenerSocket (tcp_listener_new port))))"
    by (rule bind_local_step [OF assms(1)], simp add: tcp_listener_new_def)+
  ultimately show ?thesis
    using bind_remote_step [OF assms(1)] by (elim disjE exE) (simp_all only: step_refl)
qed

lemma init_connection_facts:
  "init_connection n l la ra rp sq cb = (n', l', c, fx) \<Longrightarrow>
   n' = n + 1 \<and> tl_connections l' = bt_insert (RemoteEndpoint ra rp) n (tl_connections l)"
  by (auto simp: init_connection_def connections_add_def Let_def)

lemma child_step:
  assumes "sockets_ok s" "next_socket_id s \<noteq> - 1" "socket_at s i = Some (ListenerSocket l)"
    "tl_connections l0 = tl_connections l"
    "init_connection (next_socket_id s) l0 la ra rp sq cb = (n', l', c, fx)"
  shows "sockets_step s (put_new_connection (Some (next_socket_id s, c))
    (put_socket i (ListenerSocket l') (s \<lparr> next_socket_id := n' \<rparr>)))"
proof (rule step_child [OF assms(2) _ _ assms(3), where c = c and l' = l'])
  note f = init_connection_facts [OF assms(5)]
  show "next_socket_id (put_new_connection (Some (next_socket_id s, c))
      (put_socket i (ListenerSocket l') (s \<lparr> next_socket_id := n' \<rparr>))) = next_socket_id s + 1"
    using f by (simp add: put_new_connection_def)
  show "i \<noteq> next_socket_id s"
    using assms(1,3) by (auto simp: sockets_ok_def)
  show "bt_get ep (tl_connections l') = Some cid \<Longrightarrow>
      bt_get ep (tl_connections l) = Some cid \<or> cid = next_socket_id s" for ep cid
    using f assms(4) by (auto split: if_splits)
qed (simp add: put_new_connection_def)

lemma listener_update_step:
  assumes "socket_at s i = Some (ListenerSocket l)" "tl_connections l' = tl_connections l"
  shows "sockets_step s (put_new_connection None (put_socket i (ListenerSocket l') (s \<lparr> next_socket_id := next_socket_id s \<rparr>)))"
  using step_shrink [OF assms(1), of l'] assms(2) by (simp add: put_new_connection_def)

lemma read_step:
  assumes "sockets_ok s" "next_socket_id s \<noteq> - 1" "socket_io_read s i n paddr cb = Some (s', fx, bs, res)"
  shows "sockets_step s s'"
proof (cases "socket_at s i")
  case None
  then show ?thesis using assms(3) by (auto simp: socket_io_read_def socket_at_def step_refl)
next
  case (Some sock)
  show ?thesis
  proof (cases sock)
    case (ListenerSocket l)
    show ?thesis
    proof (cases "pending_syn l")
      case Nil
      then show ?thesis
        using assms(3) Some ListenerSocket listener_update_step [of s i l "l \<lparr> pending_accept := pending_accept l @ [cb] \<rparr>"]
        by (auto simp: socket_io_read_def socket_at_def listener_accept_def)
    next
      case (Cons syn syns)
      obtain la ra rp sq where syn: "syn = (la, ra, rp, sq)" by (metis prod_cases4)
      obtain n' l' c fx' where e: "init_connection (next_socket_id s) (l \<lparr> pending_syn := syns \<rparr>) la ra rp sq cb =
          (n', l', c, fx')"
        by (metis prod_cases4)
      show ?thesis
        using assms(3) Some ListenerSocket Cons child_step [OF assms(1,2) _ _ e, of i l]
        by (auto simp: socket_io_read_def socket_at_def listener_accept_def syn e)
    qed
  qed (use assms(3) Some in \<open>auto simp: socket_io_read_def socket_at_def intro!: step_replace\<close>)
qed

lemma write_step:
  assumes "socket_io_write s i buf cb = (s', fx, res)"
  shows "sockets_step s s'"
proof (cases "socket_at s i")
  case None
  then show ?thesis using assms by (auto simp: socket_io_write_def socket_at_def step_refl)
next
  case (Some sock)
  then show ?thesis
  proof (cases sock)
    case (UdpSocket l)
    then have "s' = s \<or> (\<exists>w. s' = s \<lparr> pending_udp_writes := w \<rparr>)"
      using assms Some by (auto simp: socket_io_write_def socket_at_def split: prod.splits option.splits)
    then show ?thesis
      using step_refl by (elim disjE exE) (auto intro!: step_remove)
  qed (use assms Some in \<open>auto simp: socket_io_write_def socket_at_def step_refl split: prod.splits
        intro!: step_replace\<close>)
qed

lemma close_children_sub:
  "close_children s cs = (s', fx) \<Longrightarrow>
   next_socket_id s' = next_socket_id s \<and> (\<forall>j sock. socket_at s' j = Some sock \<longrightarrow> socket_at s j = Some sock)"
proof (induction cs arbitrary: s s' fx)
  case (Cons child children)
  let ?r = "s \<lparr> socket_map := bt_remove child (socket_map s) \<rparr>"
  have r: "socket_at ?r j = Some sock \<Longrightarrow> socket_at s j = Some sock" for j sock
    by (auto split: if_splits)
  obtain t fx' where "close_children t children = (s', fx')" "next_socket_id t = next_socket_id s"
      "\<And>j. socket_at t j = socket_at ?r j"
    using Cons.prems by (auto simp: Let_def split: option.splits socket_type.splits prod.splits)
  then show ?case
    using Cons.IH [of t s' fx'] r by auto
qed simp

lemma step_remove_shrink:
  assumes "next_socket_id s' = next_socket_id s" "socket_at s i = Some (ListenerSocket l)"
    "\<And>j sock. socket_at s' j = Some sock \<Longrightarrow> socket_at s j = Some sock \<or> j = i \<and> sock = ListenerSocket l'"
    "\<And>ep cid. bt_get ep (tl_connections l') = Some cid \<Longrightarrow> bt_get ep (tl_connections l) = Some cid"
  shows "sockets_step s s'"
  unfolding sockets_step_def
proof (intro conjI allI impI disjI1)
  show "next_socket_id s \<le> next_socket_id s'" using assms(1) by simp
  show "j < next_socket_id s'" if "socket_at s' j = Some sock" "socket_at s j = None" for j sock
    using assms(2,3) that by fastforce
  show "\<exists>l. socket_at s j = Some (ListenerSocket l) \<and>
      (\<forall>ep cid. bt_get ep (tl_connections k) = Some cid \<longrightarrow> bt_get ep (tl_connections l) = Some cid \<or>
        next_socket_id s \<le> cid \<and> cid < next_socket_id s' \<and> \<not> listener_at s' cid)"
    if "socket_at s' j = Some (ListenerSocket k)" for j k
    using assms(2,4) assms(3) [OF that] by auto
qed

lemma close_connection_step:
  "sockets_step s (fst (close_connection (s \<lparr> socket_map := bt_remove i (socket_map s) \<rparr>) i c))"
proof -
  let ?r = "s \<lparr> socket_map := bt_remove i (socket_map s) \<rparr>"
  obtain c' fx where c': "tcp_close c = (c', fx)" by (metis surj_pair)
  have r: "sockets_step s (?r \<lparr> active_connections := a \<rparr>)" for a
    by (rule step_remove) (auto split: if_splits)
  have r0: "sockets_step s ?r"
    by (rule step_remove) (auto split: if_splits)
  have shrink: "sockets_step s (put_socket k (ListenerSocket l') ?r)"
    if "socket_at ?r k = Some (ListenerSocket l)"
      "\<And>ep cid. bt_get ep (tl_connections l') = Some cid \<Longrightarrow> bt_get ep (tl_connections l) = Some cid" for k l l'
    using that by (intro step_remove_shrink [where i = k and l = l and l' = l']) (auto split: if_splits)
  show ?thesis
  proof (cases "bt_get (tc_local_port c') (active_connections s)")
    case None
    then show ?thesis using r0 by (simp add: close_connection_def c')
  next
    case (Some k)
    show ?thesis
    proof (cases "k = i")
      case True
      then show ?thesis using Some r by (simp add: close_connection_def c')
    next
      case False
      show ?thesis
      proof (cases "\<exists>l. socket_at ?r k = Some (ListenerSocket l)")
        case True
        then obtain l where l: "socket_at ?r k = Some (ListenerSocket l)" by blast
        define l' where "l' = l \<lparr> tl_connections := fst (connections_remove (tl_connections l)
          (remote_address c') (tc_remote_port c')) \<rparr>"
        have "fst (close_connection ?r i c) = put_socket k (ListenerSocket l') ?r"
          using Some False l by (simp add: close_connection_def c' socket_at_def l'_def)
        moreover have "sockets_step s (put_socket k (ListenerSocket l') ?r)"
          by (rule shrink [OF l]) (simp add: l'_def connections_remove_def split: if_splits)
        ultimately show ?thesis by simp
      next
        case none: False
        then have "fst (close_connection ?r i c) = ?r"
          using Some False by (auto simp: close_connection_def c' socket_at_def split: option.splits socket_type.splits)
        then show ?thesis using r0 by simp
      qed
    qed
  qed
qed

lemma close_step: "sockets_step s (fst (socket_io_close s i))"
proof -
  let ?r = "s \<lparr> socket_map := bt_remove i (socket_map s) \<rparr>"
  have r: "sockets_step s ?r"
    by (rule step_remove) (auto split: if_splits)
  show ?thesis
  proof (cases "socket_at s i")
    case None
    then show ?thesis using r by (simp add: socket_io_close_def socket_at_def)
  next
    case (Some sock)
    show ?thesis
    proof (cases sock)
      case (UdpSocket l)
      then show ?thesis
        using Some by (intro step_remove)
          (auto simp: socket_io_close_def socket_at_def unbind_socket_def split: if_splits)
    next
      case (ListenerSocket l)
      obtain t fx where t: "close_children ?r (all_connection_ids (tl_connections l)) = (t, fx)"
        by (metis surj_pair)
      then have "fst (socket_io_close s i) = unbind_socket i t"
        using Some ListenerSocket by (simp add: socket_io_close_def socket_at_def)
      moreover have "socket_at s j = Some sock" if "socket_at t j = Some sock" for j sock
      proof -
        have "socket_at ?r j = Some sock" using close_children_sub [OF t] that by blast
        then show ?thesis by (simp split: if_splits)
      qed
      moreover have "next_socket_id t = next_socket_id s"
        using close_children_sub [OF t] by simp
      ultimately show ?thesis
        by (intro step_remove) (simp_all add: unbind_socket_def)
    next
      case (ConnectionSocket c)
      then have e: "fst (socket_io_close s i) = fst (close_connection ?r i c)"
        using Some by (simp add: socket_io_close_def socket_at_def)
      show ?thesis
        unfolding e by (rule close_connection_step)
    qed
  qed
qed

lemma udp_packet_step: "sockets_step s (fst (handle_udp_packet s lp ra rp payload))"
proof (cases "\<exists>i l. bt_get lp (active_connections s) = Some i \<and> socket_at s i = Some (UdpSocket l)")
  case True
  then obtain i l where "bt_get lp (active_connections s) = Some i" "socket_at s i = Some (UdpSocket l)"
    by blast
  then show ?thesis
    by (auto simp: handle_udp_packet_def socket_at_def split: prod.splits intro!: step_replace)
next
  case False
  then have "fst (handle_udp_packet s lp ra rp payload) = s"
    by (auto simp: handle_udp_packet_def socket_at_def split: option.splits socket_type.splits)
  then show ?thesis by (simp add: step_refl)
qed

text \<open>The socket a TCP packet is meant for.\<close>

definition tcp_target :: "socket_tables \<Rightarrow> u32 \<Rightarrow> ipv4_address \<Rightarrow> u16 \<Rightarrow> u32" where
  "tcp_target s i ra rp = (case socket_at s i of
     Some (ListenerSocket l) \<Rightarrow> (case connections_find (tl_connections l) ra rp of Some cid \<Rightarrow> cid | None \<Rightarrow> i)
   | _ \<Rightarrow> i)"

lemma tcp_target_listener:
  assumes "sockets_ok s" "socket_at s (tcp_target s i ra rp) = Some (ListenerSocket l)"
  shows "connections_find (tl_connections l) ra rp = None"
proof (cases "\<exists>l'. socket_at s i = Some (ListenerSocket l')")
  case True
  then obtain l' where l': "socket_at s i = Some (ListenerSocket l')" by blast
  show ?thesis
  proof (cases "connections_find (tl_connections l') ra rp")
    case None
    then show ?thesis using assms(2) l' by (simp add: tcp_target_def)
  next
    case (Some cid)
    then have "\<not> listener_at s cid"
      using assms(1) l' unfolding sockets_ok_def connections_find_def by blast
    then show ?thesis
      using assms(2) l' Some by (simp add: tcp_target_def listener_at_def)
  qed
next
  case False
  then have "tcp_target s i ra rp = i"
    by (auto simp: tcp_target_def split: option.splits socket_type.splits)
  then show ?thesis using False assms(2) by simp
qed

lemma listener_packet_cases:
  assumes "connections_find (tl_connections l) ra (to_be16 (th_source_port h)) = None"
  obtains (same) l' where "listener_handle_packet n l la ra h = Some (n, l', None, [])"
      "tl_connections l' = tl_connections l"
    | (child) l0 rp sq cb n' l' c fx where "listener_handle_packet n l la ra h = Some (n', l', Some (n, c), fx)"
      "tl_connections l0 = tl_connections l" "init_connection n l0 la ra rp sq cb = (n', l', c, fx)"
proof (cases "is_syn h \<and> pending_accept l \<noteq> []")
  case True
  then obtain cb cbs where p: "pending_accept l = cb # cbs" by (metis list.exhaust)
  obtain n' l' c fx where e: "init_connection n (l \<lparr> pending_accept := cbs \<rparr>) la ra (to_be16 (th_source_port h))
      (to_be32 (sequence_number h)) cb = (n', l', c, fx)"
    by (metis prod_cases4)
  show ?thesis
    by (rule child [OF _ _ e]) (use True assms p e in \<open>simp_all add: listener_handle_packet_def\<close>)
next
  case False
  then show ?thesis
    using assms same by (cases "is_syn h") (auto simp: listener_handle_packet_def)
qed

lemma tcp_packet_step:
  assumes "sockets_ok s" "next_socket_id s \<noteq> - 1"
  obtains s' fx where "handle_tcp_packet alive s la lp ra h payload = Some (s', fx)" "sockets_step s s'"
proof (cases "bt_get lp (active_connections s)")
  case None
  then show ?thesis using that step_refl by (simp add: handle_tcp_packet_def)
next
  case (Some i)
  define j where "j = tcp_target s i ra (to_be16 (th_source_port h))"
  note d = handle_tcp_packet_def Some Let_def socket_at_def [symmetric] j_def [unfolded tcp_target_def, symmetric]
  show ?thesis
  proof (cases "socket_at s j")
    case None
    then show ?thesis using that step_refl by (simp add: d)
  next
    case sock: (Some sock)
    show ?thesis
    proof (cases sock)
      case (UdpSocket l)
      then show ?thesis using that step_refl sock by (simp add: d)
    next
      case (ConnectionSocket c)
      obtain c' fx where "tcp_handle_packet alive c la ra h payload = (c', fx)" by (metis surj_pair)
      then show ?thesis
        using that ConnectionSocket sock step_replace [OF sock, of "ConnectionSocket c'"] by (simp add: d)
    next
      case (ListenerSocket l)
      have "connections_find (tl_connections l) ra (to_be16 (th_source_port h)) = None"
        using tcp_target_listener [OF assms(1), of i] sock ListenerSocket by (simp add: j_def)
      then show ?thesis
      proof (cases rule: listener_packet_cases [of l ra h "next_socket_id s" la])
        case (same l')
        then show ?thesis
          using that sock ListenerSocket listener_update_step [of s j l l'] by (simp add: d)
      next
        case (child l0 rp sq cb n' l' c fx)
        then show ?thesis
          using that sock ListenerSocket child_step [OF assms, of j l l0 la ra rp sq cb n' l' c fx] by (simp add: d)
      qed
    qed
  qed
qed

section \<open>Every history of the tables\<close>

text \<open>
  The operations in any order: the requests of the tasks, the packets of the network, and the network
  task's own socket and address. Socket ids are not reused, so a history creates fewer than
  \<open>2\<^sup>32 - 1\<close> sockets.
\<close>

inductive sockets_reachable :: "(u32 \<Rightarrow> bool) \<Rightarrow> socket_tables \<Rightarrow> bool" for alive where
  start: "sockets_reachable alive socket_tables_new"
| dns: "sockets_reachable alive s \<Longrightarrow> next_socket_id s \<noteq> - 1 \<Longrightarrow>
    sockets_reachable alive (create_dns_socket s port)"
| bind: "sockets_reachable alive s \<Longrightarrow> next_socket_id s \<noteq> - 1 \<Longrightarrow>
    socket_io_bind s protocol addr port cb = Some (s', fx, res) \<Longrightarrow> sockets_reachable alive s'"
| read: "sockets_reachable alive s \<Longrightarrow> next_socket_id s \<noteq> - 1 \<Longrightarrow>
    socket_io_read s i n paddr cb = Some (s', fx, bs, res) \<Longrightarrow> sockets_reachable alive s'"
| send: "sockets_reachable alive s \<Longrightarrow> socket_io_write s i buf cb = (s', fx, res) \<Longrightarrow>
    sockets_reachable alive s'"
| close: "sockets_reachable alive s \<Longrightarrow> sockets_reachable alive (fst (socket_io_close s i))"
| udp: "sockets_reachable alive s \<Longrightarrow> sockets_reachable alive (fst (handle_udp_packet s lp ra rp payload))"
| tcp: "sockets_reachable alive s \<Longrightarrow> next_socket_id s \<noteq> - 1 \<Longrightarrow>
    handle_tcp_packet alive s la lp ra h payload = Some (s', fx) \<Longrightarrow> sockets_reachable alive s'"
| address: "sockets_reachable alive s \<Longrightarrow> sockets_reachable alive (fst (flush_pending_udp_writes s ip))"

lemma sockets_reachable_ok: "sockets_reachable alive s \<Longrightarrow> sockets_ok s"
proof (induction rule: sockets_reachable.induct)
  case start
  then show ?case by (simp add: socket_tables_new_def sockets_ok_def socket_at_def)
next
  case (dns s port)
  have "sockets_step s (create_dns_socket s port)"
    using next_id_grows [OF dns.hyps(2)]
    by (auto simp: sockets_step_def create_dns_socket_def)
  then show ?case by (rule sockets_step_ok [OF dns.IH])
next
  case (bind s protocol addr port cb s' fx res)
  then show ?case using bind_step sockets_step_ok by blast
next
  case (read s i n paddr cb s' fx bs res)
  then show ?case using read_step sockets_step_ok by blast
next
  case (send s i buf cb s' fx res)
  then show ?case using write_step sockets_step_ok by blast
next
  case (close s i)
  then show ?case using close_step sockets_step_ok by blast
next
  case (udp s lp ra rp payload)
  then show ?case using udp_packet_step sockets_step_ok by blast
next
  case (tcp s la lp ra h payload s' fx)
  obtain t fx' where "handle_tcp_packet alive s la lp ra h payload = Some (t, fx')" "sockets_step s t"
    by (rule tcp_packet_step [OF tcp.IH tcp.hyps(2)])
  then show ?case using sockets_step_ok [OF tcp.IH] tcp.hyps(3) by simp
next
  case (address s ip)
  have "sockets_step s (fst (flush_pending_udp_writes s ip))"
    by (rule step_remove) (simp_all add: flush_pending_udp_writes_def)
  then show ?case by (rule sockets_step_ok [OF address.IH])
qed

text \<open>
  The panic of a TCP listener that gets a packet for a connection it already has is unreachable: after
  any history of binds, reads, writes, closes and packets, a further TCP packet, whatever its header
  and addresses, is handled without a panic, because the tables stay consistent: every socket id is
  below the counter and a listener's table never names a listener.
\<close>

theorem tcp_packets_never_panic:
  assumes "sockets_reachable alive s" "next_socket_id s \<noteq> - 1"
  shows "sockets_ok s \<and> (\<exists>s' fx. handle_tcp_packet alive s la lp ra h payload = Some (s', fx) \<and> sockets_ok s')"
proof -
  have ok: "sockets_ok s" by (rule sockets_reachable_ok [OF assms(1)])
  obtain s' fx where "handle_tcp_packet alive s la lp ra h payload = Some (s', fx)" "sockets_step s s'"
    by (rule tcp_packet_step [OF ok assms(2)])
  then show ?thesis using ok sockets_step_ok [OF ok] by blast
qed

text \<open>A listener on port 80 with one accepted connection under way.\<close>

definition listening_tables :: socket_tables where
  "listening_tables = socket_tables_new \<lparr> next_socket_id := 2, active_connections := [(80, 1)],
     socket_map := [(1, ListenerSocket (tcp_listener_new 80))] \<rparr>"

lemma listening_reachable: "sockets_reachable alive listening_tables"
proof (rule sockets_reachable.bind [OF sockets_reachable.start])
  show "next_socket_id socket_tables_new \<noteq> - 1"
    by (simp add: socket_tables_new_def)
  have "parse_bytes [48, 46, 48, 46, 48, 46, 48] = Some (Some (Ipv4Address 0 0 0 0))"
    by code_simp
  then show "socket_io_bind socket_tables_new TcpProtocol [48, 46, 48, 46, 48, 46, 48] 80 (1, 2, 3) =
      Some (listening_tables, [], Some (Inr 1))"
    by (simp add: socket_io_bind_def is_local_address_def bind_local_def listening_tables_def
        socket_tables_new_def bt_insert_def)
qed

theorem tcp_packets_never_panic_witness:
  "\<exists>s' fx. handle_tcp_packet (\<lambda>_. True) listening_tables (Ipv4Address 10 0 0 1) 80 (Ipv4Address 10 0 0 2)
     (sample_header 5 FLAG_SYN) [] = Some (s', fx) \<and> sockets_ok s'"
  using tcp_packets_never_panic [OF listening_reachable, of "\<lambda>_. True" "Ipv4Address 10 0 0 1" 80
      "Ipv4Address 10 0 0 2" "sample_header 5 FLAG_SYN" "[]"]
  by (simp add: listening_tables_def)

section \<open>Ports\<close>

lemma ephemeral_loop_spec:
  assumes "n \<le> 65535"
  shows "case ephemeral_loop s n of
      Some p \<Rightarrow> n \<le> unat p \<and> unat p < 65535 \<and> bt_get p (active_connections s) = None \<and>
        (\<forall>m. n \<le> m \<longrightarrow> m < unat p \<longrightarrow> bt_get (of_nat m) (active_connections s) \<noteq> None)
    | None \<Rightarrow> \<forall>m. n \<le> m \<longrightarrow> m < 65535 \<longrightarrow> bt_get (of_nat m) (active_connections s) \<noteq> None"
  using assms
proof (induction s n rule: ephemeral_loop.induct)
  case (1 s n)
  consider "n = 65535" | "n < 65535" "bt_get (of_nat n) (active_connections s) = None"
    | "n < 65535" "bt_get (of_nat n) (active_connections s) \<noteq> None"
    using "1.prems" by linarith
  then show ?case
  proof cases
    case 2
    then have "unat (of_nat n :: u16) = n" by (intro unat_of_nat_small) simp
    then show ?thesis using 2 by (simp add: ephemeral_loop.simps [of s n])
  next
    case 3
    then have e: "ephemeral_loop s n = ephemeral_loop s (n + 1)"
      by (auto simp: ephemeral_loop.simps [of s n])
    have IH: "case ephemeral_loop s (n + 1) of
      Some p \<Rightarrow> n + 1 \<le> unat p \<and> unat p < 65535 \<and> bt_get p (active_connections s) = None \<and>
        (\<forall>m. n + 1 \<le> m \<longrightarrow> m < unat p \<longrightarrow> bt_get (of_nat m) (active_connections s) \<noteq> None)
    | None \<Rightarrow> \<forall>m. n + 1 \<le> m \<longrightarrow> m < 65535 \<longrightarrow> bt_get (of_nat m) (active_connections s) \<noteq> None"
      using 3 by (intro "1.IH") simp_all
    have up: "bt_get (of_nat m) (active_connections s) \<noteq> None"
      if "n + 1 \<le> m \<Longrightarrow> bt_get (of_nat m) (active_connections s) \<noteq> None" "n \<le> m" for m
      using that 3(2) by (cases "m = n") simp_all
    show ?thesis
    proof (cases "ephemeral_loop s (n + 1)")
      case None
      have "\<forall>m. n \<le> m \<longrightarrow> m < 65535 \<longrightarrow> bt_get (of_nat m) (active_connections s) \<noteq> None"
        using IH [unfolded None option.case] up by blast
      then show ?thesis by (simp only: e None option.case)
    next
      case (Some p)
      note p = IH [unfolded Some option.case]
      have "\<forall>m. n \<le> m \<longrightarrow> m < unat p \<longrightarrow> bt_get (of_nat m) (active_connections s) \<noteq> None"
        using p up by blast
      then show ?thesis unfolding e Some option.case using p by simp
    qed
  next
    case 1
    have "ephemeral_loop s 65535 = None" by (subst ephemeral_loop.simps) simp
    then show ?thesis by (simp add: 1)
  qed
qed

text \<open>
  An outbound connection gets the lowest port of the dynamic range, 49152 to 65534, that no socket is
  bound to, and \<^verbatim>\<open>ResourceLimitExceeded\<close> exactly when all of them are bound.
\<close>

theorem ephemeral_port_lowest_free:
  "case get_ephemeral_port s of
     Some p \<Rightarrow> 49152 \<le> unat p \<and> unat p < 65535 \<and> bt_get p (active_connections s) = None \<and>
       (\<forall>m. 49152 \<le> m \<longrightarrow> m < unat p \<longrightarrow> bt_get (of_nat m) (active_connections s) \<noteq> None)
   | None \<Rightarrow> \<forall>m. 49152 \<le> m \<longrightarrow> m < 65535 \<longrightarrow> bt_get (of_nat m) (active_connections s) \<noteq> None"
  using ephemeral_loop_spec [of 49152 s] by (simp add: get_ephemeral_port_def)

lemma filter_insert_fresh:
  assumes "bt_wf m" "bt_get k m = None"
  shows "bt_remove k (bt_insert k v m) = m"
proof -
  have k: "fst p \<noteq> k" if "p \<in> set m" for p
    using bt_get_iff [OF assms(1), of k "snd p"] assms(2) that by (cases p) auto
  have "bt_remove k (bt_insert k v m) = filter (\<lambda>p. fst p < k) m @ filter (\<lambda>p. k < fst p) m"
    by (simp add: bt_remove_def bt_insert_def less_imp_neq less_imp_neq [symmetric] conj_absorb
        filter_filter cong: conj_cong)
  also have "\<dots> = m"
    using assms(1) k
  proof (induction m)
    case (Cons p m)
    then have m: "filter (\<lambda>p. fst p < k) m @ filter (\<lambda>p. k < fst p) m = m"
      by (simp add: bt_wf_Cons)
    show ?case
    proof (cases "fst p < k")
      case True
      then show ?thesis using m by simp
    next
      case False
      then have "k < fst p" using Cons.prems(2) [of p] by auto
      moreover have "\<not> fst q < k" if "q \<in> set m" for q
        using Cons.prems(1) that False by (auto simp: bt_wf_Cons)
      ultimately show ?thesis using m False by (simp add: filter_empty_conv)
    qed
  qed simp
  finally show ?thesis .
qed

text \<open>
  Binding a local port and closing the socket again: while the socket exists, the port is refused to
  every other local bind; the close gives back exactly the tables from before, except that the socket
  id is used up.
\<close>

theorem bind_then_close:
  assumes "bt_wf (active_connections s)" "bt_wf (socket_map s)" "sockets_ok s"
    "\<forall>p i. bt_get p (active_connections s) = Some i \<longrightarrow> i < next_socket_id s"
    "bt_get port (active_connections s) = None"
    "sock = UdpSocket (udp_listener_new port) \<or> sock = ListenerSocket (tcp_listener_new port)"
  shows "\<exists>s'. bind_local s port sock = (s', [], Some (Inr (next_socket_id s))) \<and>
    bind_local s' port other = (s', [], Some (Inl ResourceInUse)) \<and>
    socket_io_close s' (next_socket_id s) = (s \<lparr> next_socket_id := next_socket_id s + 1 \<rparr>, [])"
proof -
  define n where "n = next_socket_id s"
  define s' where "s' = s \<lparr> next_socket_id := n + 1, active_connections := bt_insert port n (active_connections s),
     socket_map := bt_insert n sock (socket_map s) \<rparr>"
  have "bt_get n (socket_map s) = None"
    using assms(3) by (cases "bt_get n (socket_map s)") (auto simp: sockets_ok_def socket_at_def n_def)
  then have m: "bt_remove n (bt_insert n sock (socket_map s)) = socket_map s"
    by (rule filter_insert_fresh [OF assms(2)])
  have "filter (\<lambda>p. snd p \<noteq> n) (bt_insert port n (active_connections s)) =
      bt_remove port (bt_insert port n (active_connections s))"
    unfolding bt_remove_def
  proof (rule filter_cong [OF refl])
    fix p assume "p \<in> set (bt_insert port n (active_connections s))"
    then consider "p = (port, n)" | "p \<in> set (active_connections s)" "fst p \<noteq> port" by auto
    then show "(snd p \<noteq> n) = (fst p \<noteq> port)"
    proof cases
      case 2
      then have "snd p < n"
        using assms(4) bt_get_iff [OF assms(1), of "fst p" "snd p"] by (auto simp: n_def)
      then show ?thesis using 2 by auto
    qed simp
  qed
  also have "\<dots> = active_connections s"
    by (rule filter_insert_fresh [OF assms(1,5)])
  finally have a: "filter (\<lambda>p. snd p \<noteq> n) (bt_insert port n (active_connections s)) = active_connections s" .
  show ?thesis
  proof (intro exI conjI)
    show "bind_local s port sock = (s', [], Some (Inr (next_socket_id s)))"
      using assms(5) by (simp add: bind_local_def s'_def n_def Let_def)
    show "bind_local s' port other = (s', [], Some (Inl ResourceInUse))"
      by (simp add: bind_local_def s'_def)
    show "socket_io_close s' (next_socket_id s) = (s \<lparr> next_socket_id := next_socket_id s + 1 \<rparr>, [])"
      using assms(6) m a
      by (auto simp: socket_io_close_def s'_def n_def [symmetric] unbind_socket_def tcp_listener_new_def
          all_connection_ids_def Let_def)
  qed
qed

theorem bind_then_close_witness:
  "\<exists>s'. bind_local socket_tables_new 53 (UdpSocket (udp_listener_new 53)) = (s', [], Some (Inr 1)) \<and>
    bind_local s' 53 (ListenerSocket (tcp_listener_new 53)) = (s', [], Some (Inl ResourceInUse)) \<and>
    socket_io_close s' 1 = (socket_tables_new \<lparr> next_socket_id := 2 \<rparr>, [])"
  using bind_then_close [of socket_tables_new 53 "UdpSocket (udp_listener_new 53)"
      "ListenerSocket (tcp_listener_new 53)"]
  by (simp add: socket_tables_new_def sockets_ok_def socket_at_def)

text \<open>
  A connection request whose initial sequence number happens to be 0 is taken for an outbound
  connection: the listener answers it with a SYN that acknowledges nothing and waits for a SYN-ACK,
  and the accepting task would get no handle of its own.
\<close>

theorem zero_sequence_taken_for_outbound:
  "init_connection n l la ra rp 0 cb =
     (n + 1, l \<lparr> tl_connections := bt_insert (RemoteEndpoint ra rp) n (tl_connections l) \<rparr>,
      tcp_connection_new n (tl_local_port l) ra rp True (Some (cb, False)),
      [NetRespond ra (segment la (tl_local_port l) ra rp 0 1 FLAG_SYN [])])"
  by (simp add: init_connection_def connections_add_def tcp_connection_new_def Let_def)

end
