(* ===== verification/Net_Dhcp.thy ===== *)
theory Net_Dhcp
  imports Net_Packet
begin

text \<open>
  Address configuration (\<^verbatim>\<open>kernel/src/net/protocol/dhcp.rs\<close>): the packets of the exchange and the state
  of the device's address. The current time is an argument of \<^verbatim>\<open>process_packet\<close>; \<open>None\<close> is a panic (an
  option that runs past the end of the packet), \<open>Inl ()\<close> is \<^verbatim>\<open>Err(())\<close>.
\<close>

section \<open>Packets\<close>

record dhcp_packet =
  dhcp_op :: u8
  htype :: u8
  hlen :: u8
  hops :: u8
  dhcp_xid :: u32
  secs :: u16
  dhcp_flags :: u16
  ciaddr :: ipv4_address
  yiaddr :: ipv4_address
  siaddr :: ipv4_address
  giaddr :: ipv4_address
  chaddr :: "u8 list"
  sname :: "u8 list"
  dhcp_file :: "u8 list"

definition dhcp_bytes :: "dhcp_packet \<Rightarrow> u8 list" where
  "dhcp_bytes p = [dhcp_op p, htype p, hlen p, hops p] @ le32_bytes (dhcp_xid p) @ le16_bytes (secs p) @
     le16_bytes (dhcp_flags p) @ ip_bytes (ciaddr p) @ ip_bytes (yiaddr p) @ ip_bytes (siaddr p) @
     ip_bytes (giaddr p) @ chaddr p @ sname p @ dhcp_file p"

definition dhcp_from :: "u8 list \<Rightarrow> dhcp_packet option" where
  "dhcp_from b = (if length b < 236 then None
     else Some \<lparr> dhcp_op = b ! 0, htype = b ! 1, hlen = b ! 2, hops = b ! 3, dhcp_xid = u32_at b 4,
       secs = u16_at b 8, dhcp_flags = u16_at b 10, ciaddr = ip_at b 12, yiaddr = ip_at b 16,
       siaddr = ip_at b 20, giaddr = ip_at b 24, chaddr = take 16 (drop 28 b), sname = take 64 (drop 44 b),
       dhcp_file = take 128 (drop 108 b) \<rparr>)"

definition dhcp_header :: "hardware_address \<Rightarrow> ipv4_address \<Rightarrow> u32 \<Rightarrow> dhcp_packet" where
  "dhcp_header mac server_ip xid =
     \<lparr> dhcp_op = 1, htype = 1, hlen = 6, hops = 0, dhcp_xid = to_be32 xid, secs = 0, dhcp_flags = 0,
       ciaddr = Ipv4Address 0 0 0 0, yiaddr = Ipv4Address 0 0 0 0, siaddr = server_ip,
       giaddr = Ipv4Address 0 0 0 0, chaddr = mac_bytes mac @ replicate 10 0, sname = replicate 64 0,
       dhcp_file = replicate 128 0 \<rparr>"

definition MAGIC_COOKIE :: "u8 list" where
  "MAGIC_COOKIE = [0x63, 0x82, 0x53, 0x63]"

definition dhcp_discover :: "hardware_address \<Rightarrow> u32 \<Rightarrow> u8 list" where
  "dhcp_discover mac xid = dhcp_bytes (dhcp_header mac ipv4_default xid) @
     MAGIC_COOKIE @ [0x35, 0x01, 0x01] @ [0xff]"

definition dhcp_request :: "hardware_address \<Rightarrow> ipv4_address \<Rightarrow> ipv4_address \<Rightarrow> u32 \<Rightarrow> u8 list" where
  "dhcp_request mac server_ip requested_ip xid = dhcp_bytes (dhcp_header mac server_ip xid) @
     MAGIC_COOKIE @ [0x35, 0x01, 0x03] @ [0x32, 0x04] @ ip_bytes requested_ip @
     [0x36, 0x04] @ ip_bytes server_ip @ [0xff]"

section \<open>The device's address\<close>

datatype ip_resolution = Unbound | Progress u32 | Bound ipv4_address u32 | Renewing ipv4_address u32

record dhcp_state =
  local_ip :: ip_resolution
  server_ip :: ipv4_address
  gateway_ip :: ipv4_address
  subnet_mask :: ipv4_address
  dns_servers :: "ipv4_address list"

definition dhcp_state_new :: dhcp_state where
  "dhcp_state_new = \<lparr> local_ip = Unbound, server_ip = ipv4_default, gateway_ip = ipv4_default,
     subnet_mask = ipv4_default, dns_servers = [] \<rparr>"

definition get_local_ip :: "dhcp_state \<Rightarrow> ipv4_address option" where
  "get_local_ip s = (case local_ip s of Bound ip _ \<Rightarrow> Some ip | _ \<Rightarrow> None)"

datatype net_event = LinkEstablished | ArpResponse ipv4_address | DhcpOffer u32 | DhcpAck u32 | DnsResponse

section \<open>Options\<close>

text \<open>The local variables that the option loop of \<^verbatim>\<open>process_packet\<close> fills.\<close>

record dhcp_options =
  opt_subnet_mask :: ipv4_address
  opt_router :: ipv4_address
  opt_dhcp_server :: ipv4_address
  opt_lease_time :: u32
  opt_dns_servers :: "ipv4_address list"
  opt_packet_type :: u8

definition dhcp_options_new :: dhcp_options where
  "dhcp_options_new = \<lparr> opt_subnet_mask = Ipv4Address 0 0 0 0, opt_router = Ipv4Address 0 0 0 0,
     opt_dhcp_server = Ipv4Address 0 0 0 0, opt_lease_time = 0, opt_dns_servers = [], opt_packet_type = 0 \<rparr>"

text \<open>Four bytes at the cursor, with the bounds check of the slice.\<close>

definition ip_opt :: "u8 list \<Rightarrow> nat \<Rightarrow> ipv4_address option" where
  "ip_opt options i = (if i + 3 < length options then Some (ip_at options i) else None)"

function dns_loop :: "u8 list \<Rightarrow> nat \<Rightarrow> nat \<Rightarrow> ipv4_address list \<Rightarrow> (nat \<times> ipv4_address list) option" where
  "dns_loop options cursor stop servers =
     (if stop \<le> cursor then Some (cursor, servers)
      else case ip_opt options cursor of None \<Rightarrow> None
        | Some ip \<Rightarrow> dns_loop options (cursor + 4) stop (servers @ [ip]))"
  by pat_completeness auto
termination
  by (relation "measure (\<lambda>(options, cursor, stop, servers). stop - cursor)") auto

declare dns_loop.simps [simp del]

text \<open>
  One turn of the loop after the tag: the options with a length byte, at \<open>cursor\<close>, with the new cursor.
\<close>

definition apply_option :: "u8 list \<Rightarrow> u8 \<Rightarrow> nat \<Rightarrow> dhcp_options \<Rightarrow> (nat \<times> dhcp_options) option" where
  "apply_option options tag cursor opts =
     (case nth_opt options cursor of None \<Rightarrow> None
      | Some len_byte \<Rightarrow>
          let len = unat len_byte; at = cursor + 1 in
          if tag = 0x01 then
            map_option (\<lambda>ip. (at + len, opts \<lparr> opt_subnet_mask := ip \<rparr>)) (ip_opt options at)
          else if tag = 0x03 then
            map_option (\<lambda>ip. (at + len, opts \<lparr> opt_router := ip \<rparr>)) (ip_opt options at)
          else if tag = 0x06 then
            map_option (\<lambda>(c, servers). (c, opts \<lparr> opt_dns_servers := servers \<rparr>))
              (dns_loop options at (at + len) (opt_dns_servers opts))
          else if tag = 0x33 then
            (if at + 3 < length options then
               Some (at + len, opts \<lparr> opt_lease_time :=
                 push_bit 24 (ucast (options ! at)) OR push_bit 16 (ucast (options ! (at + 1))) OR
                 push_bit 8 (ucast (options ! (at + 2))) OR ucast (options ! (at + 3)) \<rparr>)
             else None)
          else if tag = 0x35 then
            map_option (\<lambda>t. (at + len, opts \<lparr> opt_packet_type := t \<rparr>)) (nth_opt options at)
          else if tag = 0x36 then
            map_option (\<lambda>ip. (at + len, opts \<lparr> opt_dhcp_server := ip \<rparr>)) (ip_opt options at)
          else Some (cursor + (len + 1), opts))"

lemma dns_loop_mono: "dns_loop options cursor stop servers = Some (c, ss) \<Longrightarrow> cursor \<le> c"
proof (induction options cursor stop servers rule: dns_loop.induct)
  case (1 options cursor stop servers)
  then show ?case
    by (subst (asm) (2) dns_loop.simps) (force split: if_splits option.splits)
qed

lemma apply_option_mono: "apply_option options tag cursor opts = Some (c, o') \<Longrightarrow> cursor < c"
  by (auto simp: apply_option_def Let_def split: option.splits if_splits dest: dns_loop_mono)

function options_loop :: "u8 list \<Rightarrow> nat \<Rightarrow> dhcp_options \<Rightarrow> dhcp_options option" where
  "options_loop options cursor opts =
     (if length options \<le> cursor then Some opts
      else let tag = options ! cursor in
        if tag = 0x00 then options_loop options (cursor + 1) opts
        else if tag = 0xff then Some opts
        else case apply_option options tag (cursor + 1) opts of None \<Rightarrow> None
          | Some (c, opts') \<Rightarrow> options_loop options c opts')"
  by pat_completeness auto
termination
  by (relation "measure (\<lambda>(options, cursor, opts). length options - cursor)")
    (auto dest: apply_option_mono)

declare options_loop.simps [simp del]

section \<open>Processing a packet\<close>

definition dhcp_process_packet ::
  "dhcp_state \<Rightarrow> u32 \<Rightarrow> hardware_address \<Rightarrow> u8 list
     \<Rightarrow> (dhcp_state \<times> (unit + u8 list option \<times> net_event)) option" where
  "dhcp_process_packet s now mac raw =
     (case dhcp_from raw of None \<Rightarrow> Some (s, Inl ())
      | Some packet \<Rightarrow>
          let options = drop 236 raw; xid = to_be32 (dhcp_xid packet) in
          if local_ip s \<noteq> Progress xid then Some (s, Inl ())
          else if length options < 4 \<or> take 4 options \<noteq> MAGIC_COOKIE then Some (s, Inl ())
          else case options_loop options 4 dhcp_options_new of None \<Rightarrow> None
            | Some opts \<Rightarrow> Some
                (if opt_packet_type opts = 2 then
                   (s, Inr (Some (dhcp_request mac (opt_dhcp_server opts) (yiaddr packet) xid), DhcpOffer xid))
                 else if opt_packet_type opts = 5 then
                   (s \<lparr> local_ip := Bound (yiaddr packet) (now + opt_lease_time opts),
                       server_ip := opt_dhcp_server opts, gateway_ip := opt_router opts,
                       subnet_mask := opt_subnet_mask opts, dns_servers := opt_dns_servers opts \<rparr>,
                    Inr (None, DhcpAck xid))
                 else (s, Inl ())))"

section \<open>Well-formed options\<close>

text \<open>
  An option is a tag with its bytes, laid out as tag, length, bytes. A well-formed one has the length
  its tag calls for.
\<close>

type_synonym option_field = "u8 \<times> u8 list"

definition option_ok :: "option_field \<Rightarrow> bool" where
  "option_ok = (\<lambda>(t, bs). t \<noteq> 0 \<and> t \<noteq> 0xff \<and> length bs < 256 \<and>
     (t = 0x01 \<or> t = 0x03 \<or> t = 0x33 \<or> t = 0x36 \<longrightarrow> 4 \<le> length bs) \<and>
     (t = 0x35 \<longrightarrow> 1 \<le> length bs) \<and> (t = 0x06 \<longrightarrow> length bs mod 4 = 0))"

definition option_bytes :: "option_field \<Rightarrow> u8 list" where
  "option_bytes = (\<lambda>(t, bs). t # of_nat (length bs) # bs)"

fun addresses :: "u8 list \<Rightarrow> ipv4_address list" where
  "addresses (a # b # c # d # r) = Ipv4Address a b c d # addresses r"
| "addresses _ = []"

definition put_option :: "option_field \<Rightarrow> dhcp_options \<Rightarrow> dhcp_options" where
  "put_option = (\<lambda>(t, bs) opts.
     if t = 0x01 then opts \<lparr> opt_subnet_mask := ip_at bs 0 \<rparr>
     else if t = 0x03 then opts \<lparr> opt_router := ip_at bs 0 \<rparr>
     else if t = 0x06 then opts \<lparr> opt_dns_servers := opt_dns_servers opts @ addresses bs \<rparr>
     else if t = 0x33 then opts \<lparr> opt_lease_time := le32 (bs ! 3) (bs ! 2) (bs ! 1) (bs ! 0) \<rparr>
     else if t = 0x35 then opts \<lparr> opt_packet_type := bs ! 0 \<rparr>
     else if t = 0x36 then opts \<lparr> opt_dhcp_server := ip_at bs 0 \<rparr>
     else opts)"

lemma ip_opt_at:
  "4 \<le> length bs \<Longrightarrow> ip_opt (pre @ bs @ post) (length pre) = Some (ip_at bs 0)"
  by (auto simp: ip_opt_def ip_at_def nth_append numeral_2_eq_2)

lemma dns_loop_ok:
  "length bs mod 4 = 0 \<Longrightarrow>
   dns_loop (pre @ bs @ post) (length pre) (length pre + length bs) servers =
     Some (length pre + length bs, servers @ addresses bs)"
proof (induction bs arbitrary: pre servers rule: addresses.induct)
  case (1 a b c d r)
  have "ip_opt (pre @ (a # b # c # d # r) @ post) (length pre) = Some (Ipv4Address a b c d)"
    using ip_opt_at [of "a # b # c # d # r" pre post] by (simp add: ip_at_def)
  moreover have "dns_loop ((pre @ [a, b, c, d]) @ r @ post) (length (pre @ [a, b, c, d]))
      (length (pre @ [a, b, c, d]) + length r) (servers @ [Ipv4Address a b c d]) =
      Some (length (pre @ [a, b, c, d]) + length r, (servers @ [Ipv4Address a b c d]) @ addresses r)"
    using "1.prems" by (intro "1.IH") simp
  ultimately show ?case
    by (subst dns_loop.simps) (simp add: numeral_eq_Suc)
qed (simp_all add: dns_loop.simps)

lemma lease_le32:
  "push_bit 24 (ucast (a :: u8)) OR push_bit 16 (ucast (b :: u8)) OR push_bit 8 (ucast (c :: u8)) OR ucast (d :: u8) =
   le32 d c b a"
  by (simp add: le32_def or.commute or.left_commute or.assoc)

lemma apply_option_ok:
  assumes "option_ok (t, bs)"
  shows "apply_option (pre @ option_bytes (t, bs) @ post) t (length pre + 1) opts =
    Some (length pre + length (option_bytes (t, bs)), put_option (t, bs) opts)"
proof -
  define options where "options = pre @ option_bytes (t, bs) @ post"
  define at where "at = length pre + 2"
  have o: "options = (pre @ [t, of_nat (length bs)]) @ bs @ post" and at: "at = length (pre @ [t, of_nat (length bs)])"
    by (simp_all add: options_def option_bytes_def at_def)
  have len: "nth_opt options (Suc (length pre)) = Some (of_nat (length bs))"
    by (simp add: options_def option_bytes_def nth_append)
  have n: "unat (of_nat (length bs) :: u8) = length bs"
    using assms by (intro unat_of_nat_small) (simp add: option_ok_def)
  have byte: "options ! (at + k) = bs ! k" "at + k < length options" if "k < length bs" for k
    using that unfolding o at by (simp_all add: nth_append)
  have ip: "ip_opt options at = Some (ip_at bs 0)" if "4 \<le> length bs"
    unfolding o at using that by (rule ip_opt_at)
  have dns: "dns_loop options at (at + length bs) ss = Some (at + length bs, ss @ addresses bs)"
    if "length bs mod 4 = 0" for ss
    unfolding o at using that by (rule dns_loop_ok)
  have at': "Suc (Suc (length pre)) = at" "length pre + length (option_bytes (t, bs)) = at + length bs"
    by (simp_all add: at_def option_bytes_def)
  note d = apply_option_def len Let_def n at' put_option_def
  have "apply_option options t (length pre + 1) opts = Some (at + length bs, put_option (t, bs) opts)"
  proof -
    consider "t = 0x01" | "t = 0x03" | "t = 0x06" | "t = 0x33" | "t = 0x35" | "t = 0x36"
      | "t \<notin> {0x01, 0x03, 0x06, 0x33, 0x35, 0x36}"
      by blast
    then show ?thesis
    proof cases
      case 1
      then show ?thesis using assms ip by (simp add: d option_ok_def)
    next
      case 2
      then show ?thesis using assms ip by (simp add: d option_ok_def)
    next
      case 3
      then show ?thesis using assms dns by (simp add: d option_ok_def)
    next
      case 4
      then have l: "4 \<le> length bs" using assms by (simp add: option_ok_def)
      then have "bs \<noteq> []" by auto
      then have "options ! at = bs ! 0" "options ! (at + 1) = bs ! 1" "options ! (at + 2) = bs ! 2"
          "options ! (at + 3) = bs ! 3" "at + 3 < length options"
        using l byte(1) [of 0] byte(1) [of 1] byte(1) [of 2] byte [of 3] by simp_all
      then show ?thesis using 4 by (simp add: d lease_le32)
    next
      case 5
      then have "bs \<noteq> []" using assms by (auto simp: option_ok_def)
      then have "nth_opt options at = Some (bs ! 0)"
        using byte [of 0] by simp
      then show ?thesis using 5 by (simp add: d del: nth_opt_Some)
    next
      case 6
      then show ?thesis using assms ip by (simp add: d option_ok_def)
    next
      case 7
      then show ?thesis by (simp add: d)
    qed
  qed
  then show ?thesis
    by (simp only: options_def at'(2))
qed

lemma options_loop_ok:
  assumes "\<forall>f \<in> set fs. option_ok f"
  shows "options_loop (pre @ concat (map option_bytes fs) @ 0xff # post) (length pre) opts =
    Some (fold put_option fs opts)"
  using assms
proof (induction fs arbitrary: pre opts)
  case Nil
  then show ?case
    by (subst options_loop.simps) (simp add: nth_append)
next
  case (Cons f fs)
  obtain t bs where f: "f = (t, bs)" by (cases f)
  let ?options = "pre @ option_bytes (t, bs) @ (concat (map option_bytes fs) @ 0xff # post)"
  have t: "t \<noteq> 0" "t \<noteq> 0xff" "option_ok (t, bs)"
    using Cons.prems by (auto simp: option_ok_def f)
  have tag: "?options ! length pre = t"
    by (simp add: option_bytes_def nth_append)
  have "options_loop ((pre @ option_bytes (t, bs)) @ concat (map option_bytes fs) @ 0xff # post)
      (length (pre @ option_bytes (t, bs))) (put_option (t, bs) opts) =
      Some (fold put_option fs (put_option (t, bs) opts))"
    using Cons.prems by (intro Cons.IH) simp
  moreover have "options_loop ?options (length pre) opts =
      options_loop ?options (length pre + length (option_bytes (t, bs))) (put_option (t, bs) opts)"
    using apply_option_ok [OF t(3), of pre "concat (map option_bytes fs) @ 0xff # post" opts] t(1,2) tag
    by (subst options_loop.simps) (simp add: Let_def)
  ultimately show ?case
    by (simp add: f)
qed

definition dhcp_packet_ok :: "dhcp_packet \<Rightarrow> bool" where
  "dhcp_packet_ok p \<longleftrightarrow> length (chaddr p) = 16 \<and> length (sname p) = 64 \<and> length (dhcp_file p) = 128"

lemma dhcp_from_bytes:
  assumes "dhcp_packet_ok p"
  shows "dhcp_from (dhcp_bytes p @ rest) = Some p" "length (dhcp_bytes p) = 236"
proof -
  define hd where "hd = [dhcp_op p, htype p, hlen p, hops p] @ le32_bytes (dhcp_xid p) @ le16_bytes (secs p) @
     le16_bytes (dhcp_flags p) @ ip_bytes (ciaddr p) @ ip_bytes (yiaddr p) @ ip_bytes (siaddr p) @ ip_bytes (giaddr p)"
  have b: "dhcp_bytes p = hd @ chaddr p @ sname p @ dhcp_file p" and h: "length hd = 28"
    by (simp_all add: hd_def dhcp_bytes_def)
  have l: "length (chaddr p) = 16" "length (sname p) = 64" "length (dhcp_file p) = 128"
    using assms by (simp_all add: dhcp_packet_ok_def)
  show len: "length (dhcp_bytes p) = 236"
    by (simp add: b h l)
  have tail: "take 16 (drop 28 (dhcp_bytes p @ rest)) = chaddr p" "take 64 (drop 44 (dhcp_bytes p @ rest)) = sname p"
      "take 128 (drop 108 (dhcp_bytes p @ rest)) = dhcp_file p"
    by (simp_all add: b h l)
  have at: "(dhcp_bytes p @ rest) ! k = hd ! k" if "k < 28" for k
    using that by (simp add: b nth_append h)
  have flds: "u32_at (dhcp_bytes p @ rest) 4 = dhcp_xid p" "u16_at (dhcp_bytes p @ rest) 8 = secs p"
      "u16_at (dhcp_bytes p @ rest) 10 = dhcp_flags p" "ip_at (dhcp_bytes p @ rest) 12 = ciaddr p"
      "ip_at (dhcp_bytes p @ rest) 16 = yiaddr p" "ip_at (dhcp_bytes p @ rest) 20 = siaddr p"
      "ip_at (dhcp_bytes p @ rest) 24 = giaddr p"
    by (cases "ciaddr p"; cases "yiaddr p"; cases "siaddr p"; cases "giaddr p";
        simp add: field_at at hd_def le32_bytes_def le16_bytes_def)+
  have "(dhcp_bytes p @ rest) ! 0 = dhcp_op p" "(dhcp_bytes p @ rest) ! 1 = htype p"
      "(dhcp_bytes p @ rest) ! 2 = hlen p" "(dhcp_bytes p @ rest) ! 3 = hops p"
    using at [of 0] at [of 1] at [of 2] at [of 3] by (simp_all add: hd_def)
  then show "dhcp_from (dhcp_bytes p @ rest) = Some p"
    unfolding dhcp_from_def tail flds by (simp add: len)
qed

text \<open>A packet from a server: the fixed part, the cookie, options, the end mark.\<close>

definition server_packet :: "dhcp_packet \<Rightarrow> option_field list \<Rightarrow> u8 list \<Rightarrow> u8 list" where
  "server_packet p fs rest = dhcp_bytes p @ MAGIC_COOKIE @ concat (map option_bytes fs) @ 0xff # rest"

lemma length_cookie: "length MAGIC_COOKIE = 4"
  by (simp add: MAGIC_COOKIE_def)

lemma server_packet_processed:
  assumes "dhcp_packet_ok p" "\<forall>f \<in> set fs. option_ok f" "local_ip s = Progress (to_be32 (dhcp_xid p))"
    "opts = fold put_option fs dhcp_options_new"
  shows "dhcp_process_packet s now mac (server_packet p fs rest) = Some
    (if opt_packet_type opts = 2 then (s, Inr (Some (dhcp_request mac (opt_dhcp_server opts) (yiaddr p)
         (to_be32 (dhcp_xid p))), DhcpOffer (to_be32 (dhcp_xid p))))
     else if opt_packet_type opts = 5 then
       (s \<lparr> local_ip := Bound (yiaddr p) (now + opt_lease_time opts),
           server_ip := opt_dhcp_server opts, gateway_ip := opt_router opts,
           subnet_mask := opt_subnet_mask opts, dns_servers := opt_dns_servers opts \<rparr>,
        Inr (None, DhcpAck (to_be32 (dhcp_xid p))))
     else (s, Inl ()))"
proof -
  have "dhcp_from (server_packet p fs rest) = Some p"
    unfolding server_packet_def by (rule dhcp_from_bytes(1) [OF assms(1)])
  moreover have d: "drop 236 (server_packet p fs rest) = MAGIC_COOKIE @ concat (map option_bytes fs) @ 0xff # rest"
    by (simp add: server_packet_def dhcp_from_bytes(2) [OF assms(1)])
  moreover have "options_loop (MAGIC_COOKIE @ concat (map option_bytes fs) @ 0xff # rest) 4 dhcp_options_new = Some opts"
    using options_loop_ok [OF assms(2), of MAGIC_COOKIE rest dhcp_options_new] assms(4)
    by (simp add: length_cookie)
  moreover have "take 4 (MAGIC_COOKIE @ concat (map option_bytes fs) @ 0xff # rest) = MAGIC_COOKIE"
      "\<not> length (MAGIC_COOKIE @ concat (map option_bytes fs) @ 0xff # rest) < 4"
    by (simp_all add: MAGIC_COOKIE_def)
  ultimately show ?thesis
    by (simp add: dhcp_process_packet_def Let_def assms(3))
qed

text \<open>
  The exchange that gives a device its address. While a request is under way, a server's offer is
  answered by a request, with the same transaction id, for the offered address from the server named
  in the options, and changes nothing; the acknowledgement then binds the device to the address until
  the lease ends, with the mask, gateway and name servers of its options. The options may come in any
  number and order, unknown ones included.
\<close>

theorem dhcp_exchange:
  assumes "dhcp_packet_ok offer" "\<forall>f \<in> set offer_fields. option_ok f"
    "dhcp_packet_ok ack" "\<forall>f \<in> set ack_fields. option_ok f"
    "local_ip s = Progress xid" "to_be32 (dhcp_xid offer) = xid" "to_be32 (dhcp_xid ack) = xid"
    "o1 = fold put_option offer_fields dhcp_options_new" "opt_packet_type o1 = 2"
    "o2 = fold put_option ack_fields dhcp_options_new" "opt_packet_type o2 = 5"
  shows "dhcp_process_packet s now mac (server_packet offer offer_fields rest) =
      Some (s, Inr (Some (dhcp_request mac (opt_dhcp_server o1) (yiaddr offer) xid), DhcpOffer xid)) \<and>
    dhcp_process_packet s now' mac (server_packet ack ack_fields rest') =
      Some (s \<lparr> local_ip := Bound (yiaddr ack) (now' + opt_lease_time o2), server_ip := opt_dhcp_server o2,
          gateway_ip := opt_router o2, subnet_mask := opt_subnet_mask o2, dns_servers := opt_dns_servers o2 \<rparr>,
        Inr (None, DhcpAck xid))"
  using server_packet_processed [OF assms(1,2) _ assms(8)] server_packet_processed [OF assms(3,4) _ assms(10)]
    assms(5-7,9,11)
  by simp

definition sample_offer :: dhcp_packet where
  "sample_offer = (dhcp_header (HardwareAddress 2 0 0 0 0 1) (Ipv4Address 10 0 0 1) 0x1234)
     \<lparr> dhcp_op := 2, yiaddr := Ipv4Address 10 0 0 15 \<rparr>"

lemma sample_offer_ok: "dhcp_packet_ok sample_offer"
  by (simp add: dhcp_packet_ok_def sample_offer_def dhcp_header_def)

theorem dhcp_exchange_witness:
  "dhcp_process_packet (dhcp_state_new \<lparr> local_ip := Progress 0x1234 \<rparr>) 0 (HardwareAddress 2 0 0 0 0 1)
     (server_packet sample_offer [(0x35, [2]), (0x36, [10, 0, 0, 1])] []) =
   Some (dhcp_state_new \<lparr> local_ip := Progress 0x1234 \<rparr>, Inr (Some (dhcp_request (HardwareAddress 2 0 0 0 0 1)
     (Ipv4Address 10 0 0 1) (Ipv4Address 10 0 0 15) 0x1234), DhcpOffer 0x1234)) \<and>
   dhcp_process_packet (dhcp_state_new \<lparr> local_ip := Progress 0x1234 \<rparr>) 100 (HardwareAddress 2 0 0 0 0 1)
     (server_packet sample_offer [(0x0c, [65]), (0x01, [255, 255, 255, 0]), (0x35, [5]), (0x06, [8, 8, 8, 8])] []) =
   Some (dhcp_state_new \<lparr> local_ip := Bound (Ipv4Address 10 0 0 15) 100, server_ip := Ipv4Address 0 0 0 0,
       gateway_ip := Ipv4Address 0 0 0 0, subnet_mask := Ipv4Address 255 255 255 0,
       dns_servers := [Ipv4Address 8 8 8 8] \<rparr>, Inr (None, DhcpAck 0x1234))"
proof -
  have x: "to_be32 (dhcp_xid sample_offer) = 0x1234" "yiaddr sample_offer = Ipv4Address 10 0 0 15"
    by (simp_all add: sample_offer_def dhcp_header_def)
  show ?thesis
    using dhcp_exchange [OF sample_offer_ok _ sample_offer_ok _ _ x(1) x(1) refl _ refl,
        where offer_fields = "[(0x35, [2]), (0x36, [10, 0, 0, 1])]"
          and ack_fields = "[(0x0c, [65]), (0x01, [255, 255, 255, 0]), (0x35, [5]), (0x06, [8, 8, 8, 8])]"
          and s = "dhcp_state_new \<lparr> local_ip := Progress 0x1234 \<rparr>" and now = 0 and rest = "[]"
          and now' = 100 and rest' = "[]" and mac = "HardwareAddress 2 0 0 0 0 1"]
    by (simp add: option_ok_def put_option_def dhcp_options_new_def ip_at_def x(2))
qed

text \<open>
  An option cut off by the end of the packet is not an error but a panic of the network task: the
  length byte that should follow the last tag is read past the end of the slice.
\<close>

theorem truncated_option_panics:
  assumes "dhcp_packet_ok p" "local_ip s = Progress (to_be32 (dhcp_xid p))" "t \<noteq> 0" "t \<noteq> 0xff"
  shows "dhcp_process_packet s now mac (dhcp_bytes p @ MAGIC_COOKIE @ [t]) = None"
proof -
  have "dhcp_from (dhcp_bytes p @ MAGIC_COOKIE @ [t]) = Some p" "drop 236 (dhcp_bytes p @ MAGIC_COOKIE @ [t]) = MAGIC_COOKIE @ [t]"
    using dhcp_from_bytes(1) [OF assms(1), of "MAGIC_COOKIE @ [t]"] dhcp_from_bytes(2) [OF assms(1)] by simp_all
  moreover have "apply_option (MAGIC_COOKIE @ [t]) t 5 opts = None" for opts
    by (simp add: apply_option_def MAGIC_COOKIE_def nth_opt_def)
  then have "options_loop (MAGIC_COOKIE @ [t]) 4 dhcp_options_new = None"
    using assms(3,4) by (subst options_loop.simps) (simp add: MAGIC_COOKIE_def Let_def)
  ultimately show ?thesis
    by (simp add: dhcp_process_packet_def assms(2) Let_def) (simp add: MAGIC_COOKIE_def)
qed

theorem truncated_option_panics_witness:
  "dhcp_process_packet (dhcp_state_new \<lparr> local_ip := Progress 0x1234 \<rparr>) 0 (HardwareAddress 2 0 0 0 0 1)
     (dhcp_bytes sample_offer @ MAGIC_COOKIE @ [0x35]) = None"
  by (rule truncated_option_panics [OF sample_offer_ok])
    (simp_all add: sample_offer_def dhcp_header_def)

end
