(* ===== verification/Net_Dns.thy ===== *)
theory Net_Dns
  imports Net_Packet Utf8
begin

text \<open>
  Name resolution (\<^verbatim>\<open>kernel/src/net/protocol/dns.rs\<close>): the query packet, the parser of responses with
  its compression pointers, and the cache. A parser operation returns the parser with its new position
  and \<open>Inl ()\<close> for \<^verbatim>\<open>Err(())\<close>. Following compression pointers may never end: the loop of \<^verbatim>\<open>parse_name\<close> is a
  partial function, whose value is \<open>None\<close> where the code does not return. Strings are lists of bytes.
\<close>

section \<open>Headers and queries\<close>

record dns_header =
  dns_id :: u16
  dns_flags :: u16
  question_count :: u16
  answer_count :: u16
  authority_count :: u16
  additional_count :: u16

definition FLAG_RESPONSE :: u16 where "FLAG_RESPONSE = 0x8000"

definition FLAG_RD :: u16 where "FLAG_RD = 0x0100"

definition FLAG_RA :: u16 where "FLAG_RA = 0x0080"

definition is_response :: "dns_header \<Rightarrow> bool" where
  "is_response h \<longleftrightarrow> dns_flags h AND FLAG_RESPONSE \<noteq> 0"

definition build_query_header :: "u16 \<Rightarrow> u16 \<Rightarrow> dns_header" where
  "build_query_header xid questions =
     \<lparr> dns_id = to_be16 xid, dns_flags = to_be16 FLAG_RD, question_count = to_be16 questions,
       answer_count = 0, authority_count = 0, additional_count = 0 \<rparr>"

definition dns_header_bytes :: "dns_header \<Rightarrow> u8 list" where
  "dns_header_bytes h = le16_bytes (dns_id h) @ le16_bytes (dns_flags h) @ le16_bytes (question_count h) @
     le16_bytes (answer_count h) @ le16_bytes (authority_count h) @ le16_bytes (additional_count h)"

definition dns_header_from :: "u8 list \<Rightarrow> dns_header option" where
  "dns_header_from b = (if length b < 12 then None
     else Some \<lparr> dns_id = u16_at b 0, dns_flags = u16_at b 2, question_count = u16_at b 4,
       answer_count = u16_at b 6, authority_count = u16_at b 8, additional_count = u16_at b 10 \<rparr>)"

interpretation dns: packet_header 12 dns_header_bytes dns_header_from
proof
  fix h :: dns_header and rest :: "u8 list"
  show "length (dns_header_bytes h) = 12"
    by (simp add: dns_header_bytes_def)
  show "dns_header_from (dns_header_bytes h @ rest) = Some h"
    by (simp add: dns_header_from_def dns_header_bytes_def field_at le16_bytes_def)
next
  fix b :: "u8 list" and h
  show "dns_header_from b = None" if "length b < 12"
    using that by (simp add: dns_header_from_def)
  show "take 12 b = dns_header_bytes h" if "dns_header_from b = Some h"
    using that by (auto simp: dns_header_from_def dns_header_bytes_def field_at le16_bytes_def as_nth
        split: if_splits)
qed

datatype dns_question = QuestionA "u8 list" | QuestionCname "u8 list"

text \<open>\<^verbatim>\<open>str::split('.')\<close>: the pieces between the dots, at least one.\<close>

fun split_dots :: "u8 list \<Rightarrow> u8 list list" where
  "split_dots [] = [[]]"
| "split_dots (b # r) = (if b = 46 then [] # split_dots r
     else case split_dots r of label # labels \<Rightarrow> (b # label) # labels | [] \<Rightarrow> [[b]])"

definition encode_labels :: "u8 list list \<Rightarrow> u8 list" where
  "encode_labels labels = concat (map (\<lambda>label. of_nat (length label) # label) labels)"

definition a_record :: "u8 list \<Rightarrow> dns_question" where
  "a_record name = QuestionA (encode_labels (split_dots name) @ [0])"

primrec question_bytes :: "dns_question \<Rightarrow> u8 list" where
  "question_bytes (QuestionA name) = name @ [0, 1] @ [0, 1]"
| "question_bytes (QuestionCname name) = name @ [0, 5] @ [0, 1]"

text \<open>\<^verbatim>\<open>build_query_packet\<close>, with the random transaction id as its argument.\<close>

definition build_query_packet :: "u16 \<Rightarrow> dns_question list \<Rightarrow> u8 list" where
  "build_query_packet xid questions =
     dns_header_bytes (build_query_header xid (of_nat (length questions))) @
     concat (map question_bytes questions)"

section \<open>The parser\<close>

record dns_parser =
  dp_packet :: "u8 list"
  dp_pos :: nat

definition read_u8 :: "dns_parser \<Rightarrow> dns_parser \<times> (unit + u8)" where
  "read_u8 p = (if length (dp_packet p) \<le> dp_pos p then (p, Inl ())
     else (p \<lparr> dp_pos := dp_pos p + 1 \<rparr>, Inr (dp_packet p ! dp_pos p)))"

definition read_u16 :: "dns_parser \<Rightarrow> dns_parser \<times> (unit + u16)" where
  "read_u16 p = (if length (dp_packet p) \<le> dp_pos p + 1 then (p, Inl ())
     else (p \<lparr> dp_pos := dp_pos p + 2 \<rparr>, Inr (le16 (dp_packet p ! (dp_pos p + 1)) (dp_packet p ! dp_pos p))))"

definition read_u32 :: "dns_parser \<Rightarrow> dns_parser \<times> (unit + u32)" where
  "read_u32 p = (if length (dp_packet p) \<le> dp_pos p + 3 then (p, Inl ())
     else (p \<lparr> dp_pos := dp_pos p + 4 \<rparr>, Inr (le32 (dp_packet p ! (dp_pos p + 3)) (dp_packet p ! (dp_pos p + 2))
       (dp_packet p ! (dp_pos p + 1)) (dp_packet p ! dp_pos p))))"

definition read_n_bytes :: "dns_parser \<Rightarrow> nat \<Rightarrow> dns_parser \<times> (unit + u8 list)" where
  "read_n_bytes p n = (if length (dp_packet p) < dp_pos p + n then (p, Inl ())
     else (p \<lparr> dp_pos := dp_pos p + n \<rparr>, Inr (take n (drop (dp_pos p) (dp_packet p)))))"

text \<open>
  The loop of \<^verbatim>\<open>parse_name\<close>. A compression pointer counts from the start of the message, whose header
  the parser does not have: the code subtracts its size, in 16 bits.
\<close>

partial_function (option) name_loop ::
  "dns_parser \<Rightarrow> bool \<Rightarrow> nat \<Rightarrow> u8 list list \<Rightarrow> (dns_parser \<times> (unit + u8 list list \<times> bool \<times> nat)) option" where
  "name_loop p jumped original_pos parts =
     (case read_u8 p of
        (p, Inl _) \<Rightarrow> Some (p, Inl ())
      | (p, Inr label_len) \<Rightarrow>
          if label_len = 0 then Some (p, Inr (parts, jumped, original_pos))
          else if label_len AND 0xc0 = 0xc0 then
            (case read_u8 p of
               (p', Inl _) \<Rightarrow> Some (p', Inl ())
             | (p', Inr low) \<Rightarrow>
                 let pointer = (push_bit 8 (ucast (label_len AND 0x3f)) OR ucast low :: u16) - 12;
                     q = p' \<lparr> dp_pos := unat pointer \<rparr>
                 in if length (dp_packet q) \<le> dp_pos q then Some (q, Inl ())
                    else name_loop q True (if jumped then original_pos else dp_pos p + 1) parts)
          else if label_len AND 0xc0 \<noteq> 0 then Some (p, Inl ())
          else (case read_n_bytes p (unat label_len) of
               (p', Inl _) \<Rightarrow> Some (p', Inl ())
             | (p', Inr label) \<Rightarrow> name_loop p' jumped original_pos (parts @ [utf8_lossy label])))"

fun join_dots :: "u8 list list \<Rightarrow> u8 list" where
  "join_dots [] = []"
| "join_dots [label] = label"
| "join_dots (label # labels) = label @ 46 # join_dots labels"

definition parse_name :: "dns_parser \<Rightarrow> (dns_parser \<times> (unit + u8 list)) option" where
  "parse_name p = map_option (\<lambda>(q, r). case r of
       Inl _ \<Rightarrow> (q, Inl ())
     | Inr (parts, jumped, original_pos) \<Rightarrow>
         (if jumped then q \<lparr> dp_pos := original_pos \<rparr> else q, Inr (join_dots parts)))
     (name_loop p False (dp_pos p) [])"

text \<open>The \<^verbatim>\<open>?\<close> operator on parser results.\<close>

definition then_parse ::
  "(dns_parser \<times> (unit + 'a)) option \<Rightarrow> (dns_parser \<Rightarrow> 'a \<Rightarrow> (dns_parser \<times> (unit + 'b)) option)
     \<Rightarrow> (dns_parser \<times> (unit + 'b)) option" where
  "then_parse r f = (case r of None \<Rightarrow> None | Some (p, Inl _) \<Rightarrow> Some (p, Inl ()) | Some (p, Inr x) \<Rightarrow> f p x)"

lemma then_parse_simps [simp]:
  "then_parse None f = None" "then_parse (Some (p, Inl e)) f = Some (p, Inl ())"
  "then_parse (Some (p, Inr x)) f = f p x"
  by (simp_all add: then_parse_def)

definition parse_question :: "dns_parser \<Rightarrow> (dns_parser \<times> (unit + dns_question)) option" where
  "parse_question p =
     then_parse (parse_name p) (\<lambda>p name.
     then_parse (Some (read_u16 p)) (\<lambda>p record_type.
     then_parse (Some (read_u16 p)) (\<lambda>p cls.
       if cls \<noteq> 1 then Some (p, Inl ())
       else if record_type = 1 then Some (p, Inr (QuestionA name))
       else if record_type = 5 then Some (p, Inr (QuestionCname name))
       else Some (p, Inl ()))))"

datatype record_data = RecordA ipv4_address | RecordCname "u8 list"

record dns_record =
  dr_name :: "u8 list"
  record_type :: u16
  dr_class :: u16
  dr_ttl :: u32
  record_data :: record_data

definition parse_answer :: "dns_parser \<Rightarrow> (dns_parser \<times> (unit + dns_record)) option" where
  "parse_answer p =
     then_parse (parse_name p) (\<lambda>p name.
     then_parse (Some (read_u16 p)) (\<lambda>p rtype.
     then_parse (Some (read_u16 p)) (\<lambda>p cls.
     then_parse (Some (read_u32 p)) (\<lambda>p ttl.
     then_parse (Some (read_u16 p)) (\<lambda>p data_length.
       let rec = (\<lambda>d. \<lparr> dr_name = name, record_type = rtype, dr_class = cls, dr_ttl = ttl, record_data = d \<rparr>) in
       if cls \<noteq> 1 then Some (p, Inl ())
       else if data_length = 0 then Some (p, Inl ())
       else if rtype = 1 then
         (if data_length \<noteq> 4 then Some (p, Inl ())
          else
            then_parse (Some (read_u8 p)) (\<lambda>p a.
            then_parse (Some (read_u8 p)) (\<lambda>p b.
            then_parse (Some (read_u8 p)) (\<lambda>p c.
            then_parse (Some (read_u8 p)) (\<lambda>p d. Some (p, Inr (rec (RecordA (Ipv4Address a b c d)))))))))
       else if rtype = 5 then then_parse (parse_name p) (\<lambda>p cname. Some (p, Inr (rec (RecordCname cname))))
       else Some (p, Inl ()))))))"

type_synonym dns_cache = "u8 list \<Rightarrow> ipv4_address option"

definition lookup_dns :: "dns_cache \<Rightarrow> u8 list \<Rightarrow> ipv4_address option" where
  "lookup_dns cache name = cache name"

definition add_dns_cache :: "dns_cache \<Rightarrow> u8 list \<Rightarrow> ipv4_address \<Rightarrow> dns_cache" where
  "add_dns_cache cache name address = cache(name \<mapsto> address)"

text \<open>The two loops of \<^verbatim>\<open>handle_dns_packet\<close>: failed questions and answers are skipped.\<close>

fun question_loop :: "nat \<Rightarrow> dns_parser \<Rightarrow> dns_parser option" where
  "question_loop 0 p = Some p"
| "question_loop (Suc n) p = (case parse_question p of None \<Rightarrow> None | Some (p, _) \<Rightarrow> question_loop n p)"

fun answer_loop :: "nat \<Rightarrow> dns_parser \<Rightarrow> dns_cache \<Rightarrow> dns_cache option" where
  "answer_loop 0 p cache = Some cache"
| "answer_loop (Suc n) p cache =
     (case parse_answer p of None \<Rightarrow> None
      | Some (p, Inl _) \<Rightarrow> answer_loop n p cache
      | Some (p, Inr rec) \<Rightarrow>
          (case record_data rec of
             RecordA ip \<Rightarrow> answer_loop n p (add_dns_cache cache (dr_name rec) ip)
           | RecordCname cname \<Rightarrow> answer_loop n p cache))"

definition handle_dns_packet :: "dns_cache \<Rightarrow> u8 list \<Rightarrow> (dns_cache \<times> (unit + unit)) option" where
  "handle_dns_packet cache packet =
     (case dns_header_from packet of
        None \<Rightarrow> Some (cache, Inl ())
      | Some header \<Rightarrow>
          if \<not> is_response header then Some (cache, Inl ())
          else if answer_count header = 0 then Some (cache, Inl ())
          else
            (case question_loop (unat (to_be16 (question_count header)))
                    \<lparr> dp_packet = drop 12 packet, dp_pos = 0 \<rparr> of
               None \<Rightarrow> None
             | Some p \<Rightarrow> map_option (\<lambda>cache. (cache, Inr ()))
                 (answer_loop (unat (to_be16 (answer_count header))) p cache)))"

section \<open>Names round trip\<close>

lemma split_dots_nonempty [simp]: "split_dots name \<noteq> []"
  by (induction name) (auto split: list.splits)

lemma join_split_dots [simp]: "join_dots (split_dots name) = name"
proof (induction name)
  case (Cons b r)
  obtain label labels where s: "split_dots r = label # labels" by (metis list.exhaust split_dots_nonempty)
  then have "join_dots (x # split_dots r) = x @ 46 # join_dots (split_dots r)" for x
    by simp
  moreover have "join_dots ((b # label) # labels) = b # join_dots (label # labels)"
    by (cases labels) simp_all
  ultimately show ?case
    using Cons.IH s by simp
qed simp

text \<open>A host name the encoding is made for: every label has 1 to 63 bytes, all ASCII.\<close>

definition host_name :: "u8 list \<Rightarrow> bool" where
  "host_name name \<longleftrightarrow> (\<forall>label \<in> set (split_dots name). label \<noteq> [] \<and> length label \<le> 63 \<and> (\<forall>b \<in> set label. b < 0x80))"

lemma short_label_bits:
  assumes "unat (x :: u8) < 64"
  shows "x AND 0xc0 = 0"
proof (rule bit_word_eqI)
  fix n assume "n < LENGTH(8)"
  have "take_bit 6 x = x"
    using assms by (simp add: word_unat_eq_iff unat_take_bit)
  then have "bit x n \<Longrightarrow> n < 6"
    by (metis bit_take_bit_iff)
  moreover have "\<not> bit (0xc0 :: u8) n" if "n < 6"
  proof -
    have "n \<in> {0, 1, 2, 3, 4, 5}" using that by auto
    then show ?thesis by auto
  qed
  ultimately show "bit (x AND 0xc0) n = bit 0 n"
    by (auto simp: bit_and_iff)
qed

lemma name_loop_label:
  assumes "label \<noteq> []" "length label \<le> 63" "\<forall>b \<in> set label. b < 0x80"
  shows "name_loop \<lparr> dp_packet = pre @ of_nat (length label) # label @ post, dp_pos = length pre \<rparr> jumped orig parts =
    name_loop \<lparr> dp_packet = pre @ of_nat (length label) # label @ post, dp_pos = length pre + 1 + length label \<rparr>
      jumped orig (parts @ [label])"
proof -
  define x where "x = (of_nat (length label) :: u8)"
  have u: "unat x = length label"
    unfolding x_def using assms(2) by (intro unat_of_nat_small) simp
  then have "x \<noteq> 0" using assms(1) by auto
  moreover have "x AND 0xc0 = 0" using short_label_bits u assms(2) by simp
  ultimately show ?thesis
    by (subst name_loop.simps)
      (simp add: read_u8_def read_n_bytes_def x_def [symmetric] u utf8_lossy_ascii [OF assms(3)] nth_append)
qed

lemma name_loop_labels:
  assumes "\<forall>label \<in> set labels. label \<noteq> [] \<and> length label \<le> 63 \<and> (\<forall>b \<in> set label. b < 0x80)"
  shows "name_loop \<lparr> dp_packet = pre @ encode_labels labels @ 0 # post, dp_pos = length pre \<rparr> jumped orig parts =
    Some (\<lparr> dp_packet = pre @ encode_labels labels @ 0 # post, dp_pos = length pre + length (encode_labels labels) + 1 \<rparr>,
      Inr (parts @ labels, jumped, orig))"
  using assms
proof (induction labels arbitrary: pre parts)
  case Nil
  then show ?case
    by (subst name_loop.simps) (simp add: read_u8_def encode_labels_def nth_append)
next
  case (Cons label labels)
  let ?pre = "pre @ of_nat (length label) # label"
  have "name_loop \<lparr> dp_packet = ?pre @ encode_labels labels @ 0 # post, dp_pos = length ?pre \<rparr> jumped orig (parts @ [label]) =
    Some (\<lparr> dp_packet = ?pre @ encode_labels labels @ 0 # post, dp_pos = length ?pre + length (encode_labels labels) + 1 \<rparr>,
      Inr ((parts @ [label]) @ labels, jumped, orig))"
    using Cons.prems by (intro Cons.IH) simp
  then show ?case
    using Cons.prems name_loop_label [of label pre "encode_labels labels @ 0 # post"]
    by (simp add: encode_labels_def)
qed

lemma name_loop_pointer:
  assumes "dp_packet p ! dp_pos p = 0xC0" "dp_packet p ! (dp_pos p + 1) = 0x0C"
    "dp_pos p + 1 < length (dp_packet p)"
  shows "name_loop p jumped orig parts =
    name_loop (p \<lparr> dp_pos := 0 \<rparr>) True (if jumped then orig else dp_pos p + 2) parts"
  using assms by (subst name_loop.simps) (auto simp: read_u8_def Let_def)

lemma parse_question_ok:
  assumes "host_name name"
  shows "parse_question \<lparr> dp_packet = question_bytes (a_record name) @ rest, dp_pos = 0 \<rparr> =
    Some (\<lparr> dp_packet = question_bytes (a_record name) @ rest, dp_pos = length (question_bytes (a_record name)) \<rparr>,
      Inr (QuestionA name))"
proof -
  define labels where "labels = split_dots name"
  define pkt where "pkt = question_bytes (a_record name) @ rest"
  have pkt: "pkt = encode_labels labels @ 0 # [0, 1, 0, 1] @ rest"
    by (simp add: pkt_def a_record_def labels_def)
  have "name_loop \<lparr> dp_packet = pkt, dp_pos = 0 \<rparr> False 0 [] =
      Some (\<lparr> dp_packet = pkt, dp_pos = length (encode_labels labels) + 1 \<rparr>, Inr (labels, False, 0))"
    using name_loop_labels [of labels "[]" "[0, 1, 0, 1] @ rest" False 0 "[]"] assms
    by (simp add: pkt host_name_def labels_def)
  then have n: "parse_name \<lparr> dp_packet = pkt, dp_pos = 0 \<rparr> =
      Some (\<lparr> dp_packet = pkt, dp_pos = length (encode_labels labels) + 1 \<rparr>, Inr name)"
    by (simp add: parse_name_def labels_def)
  have "le16 1 0 = 1" by (simp add: le16_def)
  then show ?thesis
    unfolding pkt_def [symmetric] parse_question_def n
    by (simp add: read_u16_def) (simp add: pkt nth_append a_record_def labels_def)
qed

section \<open>Responses\<close>

text \<open>An answer record for the name of the first question, given by the pointer to it.\<close>

definition answer_bytes :: "u32 \<Rightarrow> ipv4_address \<Rightarrow> u8 list" where
  "answer_bytes ttl ip = [0xC0, 0x0C, 0, 1, 0, 1] @ be32_bytes ttl @ [0, 4] @ ip_bytes ip"

lemma pkt_nth: "n = length pre + k \<Longrightarrow> (pre @ xs) ! n = xs ! k"
  by (simp add: nth_append)

lemma parse_answer_ok:
  assumes "host_name name" "pre = question_bytes (a_record name)"
  shows "\<exists>p. parse_answer \<lparr> dp_packet = pre @ answer_bytes ttl ip @ rest, dp_pos = length pre \<rparr> =
    Some (p, Inr \<lparr> dr_name = name, record_type = 1, dr_class = 1, dr_ttl = ttl, record_data = RecordA ip \<rparr>)"
proof -
  obtain a b c d where ip: "ip = Ipv4Address a b c d" by (cases ip)
  define labels where "labels = split_dots name"
  define tail where "tail = answer_bytes ttl ip @ rest"
  have t: "tail = [0xC0, 0x0C, 0, 1, 0, 1, byte_of 3 ttl, byte_of 2 ttl, byte_of 1 ttl, byte_of 0 ttl,
      0, 4, a, b, c, d] @ rest"
    by (simp add: tail_def answer_bytes_def be32_bytes_def le32_bytes_def ip)
  define pkt where "pkt = pre @ tail"
  define n where "n = length pre"
  have get: "pkt ! (n + k) = tail ! k" for k
    by (simp add: pkt_def n_def)
  have get': "pkt ! (k + n) = tail ! k" "pkt ! Suc (Suc n) = tail ! 2" "pkt ! Suc (Suc (Suc n)) = tail ! 3" for k
    using get [of k] get [of 2] get [of 3] by (simp_all add: add.commute numeral_2_eq_2 numeral_3_eq_3)
  have long: "n + 16 \<le> length pkt"
    by (simp add: pkt_def n_def t)
  have p: "pkt = encode_labels labels @ 0 # [0, 1, 0, 1] @ tail"
    by (simp add: pkt_def assms(2) a_record_def labels_def)
  have "name_loop \<lparr> dp_packet = pkt, dp_pos = n \<rparr> False n [] =
      name_loop \<lparr> dp_packet = pkt, dp_pos = 0 \<rparr> True (n + 2) []"
    using name_loop_pointer [of "\<lparr> dp_packet = pkt, dp_pos = n \<rparr>" False n "[]"] get [of 0] get [of 1] long
    by (simp add: t)
  also have "\<dots> = Some (\<lparr> dp_packet = pkt, dp_pos = length (encode_labels labels) + 1 \<rparr>, Inr (labels, True, n + 2))"
    using name_loop_labels [of labels "[]" "[0, 1, 0, 1] @ tail" True "n + 2" "[]"] assms
    by (simp add: p host_name_def labels_def)
  finally have name: "parse_name \<lparr> dp_packet = pkt, dp_pos = n \<rparr> =
      Some (\<lparr> dp_packet = pkt, dp_pos = n + 2 \<rparr>, Inr name)"
    by (simp add: parse_name_def labels_def)
  have b: "le16 1 0 = 1" "le16 4 0 = 4"
    by (simp_all add: le16_def)
  have "read_u16 \<lparr> dp_packet = pkt, dp_pos = n + 2 \<rparr> = (\<lparr> dp_packet = pkt, dp_pos = n + 4 \<rparr>, Inr 1)"
      "read_u16 \<lparr> dp_packet = pkt, dp_pos = n + 4 \<rparr> = (\<lparr> dp_packet = pkt, dp_pos = n + 6 \<rparr>, Inr 1)"
      "read_u32 \<lparr> dp_packet = pkt, dp_pos = n + 6 \<rparr> = (\<lparr> dp_packet = pkt, dp_pos = n + 10 \<rparr>, Inr ttl)"
      "read_u16 \<lparr> dp_packet = pkt, dp_pos = n + 10 \<rparr> = (\<lparr> dp_packet = pkt, dp_pos = n + 12 \<rparr>, Inr 4)"
      "read_u8 \<lparr> dp_packet = pkt, dp_pos = n + 12 \<rparr> = (\<lparr> dp_packet = pkt, dp_pos = n + 13 \<rparr>, Inr a)"
      "read_u8 \<lparr> dp_packet = pkt, dp_pos = n + 13 \<rparr> = (\<lparr> dp_packet = pkt, dp_pos = n + 14 \<rparr>, Inr b)"
      "read_u8 \<lparr> dp_packet = pkt, dp_pos = n + 14 \<rparr> = (\<lparr> dp_packet = pkt, dp_pos = n + 15 \<rparr>, Inr c)"
      "read_u8 \<lparr> dp_packet = pkt, dp_pos = n + 15 \<rparr> = (\<lparr> dp_packet = pkt, dp_pos = n + 16 \<rparr>, Inr d)"
    using long get' by (simp_all add: read_u8_def read_u16_def read_u32_def get t b add.assoc)
  then have "parse_answer \<lparr> dp_packet = pkt, dp_pos = n \<rparr> = Some (\<lparr> dp_packet = pkt, dp_pos = n + 16 \<rparr>,
      Inr \<lparr> dr_name = name, record_type = 1, dr_class = 1, dr_ttl = ttl, record_data = RecordA ip \<rparr>)"
    unfolding parse_answer_def name ip by (simp add: Let_def)
  then show ?thesis
    by (simp add: pkt_def n_def tail_def)
qed

text \<open>
  A response to the query that \<^verbatim>\<open>build_query_packet\<close> sends for a host name, carrying the question back
  and one address record whose name is the usual pointer to the question, makes the cache resolve the
  queried name to that address and leaves every other entry alone; whatever follows the record does
  not matter.
\<close>

theorem dns_response_is_cached:
  assumes "host_name name" "is_response h" "question_count h = to_be16 1" "answer_count h = to_be16 1"
  shows "handle_dns_packet cache
      (dns_header_bytes h @ question_bytes (a_record name) @ answer_bytes ttl ip @ rest) =
    Some (cache(name \<mapsto> ip), Inr ())"
proof -
  define packet where "packet = dns_header_bytes h @ question_bytes (a_record name) @ answer_bytes ttl ip @ rest"
  have h: "dns_header_from packet = Some h"
    by (simp add: packet_def dns.from_as)
  have d: "drop 12 packet = question_bytes (a_record name) @ answer_bytes ttl ip @ rest"
    by (simp add: packet_def dns.bytes_size)
  obtain p where p: "parse_answer \<lparr> dp_packet = question_bytes (a_record name) @ answer_bytes ttl ip @ rest,
        dp_pos = length (question_bytes (a_record name)) \<rparr> =
      Some (p, Inr \<lparr> dr_name = name, record_type = 1, dr_class = 1, dr_ttl = ttl, record_data = RecordA ip \<rparr>)"
    using parse_answer_ok [OF assms(1) refl] by blast
  have "to_be16 1 \<noteq> 0"
    by (simp add: to_be16_def byte_of_def le16_def)
  then show ?thesis
    unfolding packet_def [symmetric] using assms(2-4) parse_question_ok [OF assms(1)] p
    by (simp add: handle_dns_packet_def h d add_dns_cache_def)
qed

definition sample_host :: "u8 list" where
  "sample_host = [0x61, 0x2E, 0x69, 0x6F]"

definition sample_dns_header :: dns_header where
  "sample_dns_header = \<lparr> dns_id = 0x1234, dns_flags = to_be16 0x8180, question_count = to_be16 1,
     answer_count = to_be16 1, authority_count = 0, additional_count = 0 \<rparr>"

lemma sample_host_name: "host_name sample_host"
  by (simp add: host_name_def sample_host_def)

lemma sample_dns_response: "is_response sample_dns_header"
  by (simp add: is_response_def sample_dns_header_def FLAG_RESPONSE_def to_be16_def byte_of_def le16_def)

theorem dns_response_is_cached_witness:
  "handle_dns_packet (\<lambda>_. None) (dns_header_bytes sample_dns_header @ question_bytes (a_record sample_host) @
      answer_bytes 60 (Ipv4Address 192 0 2 7) @ []) =
   Some ([sample_host \<mapsto> Ipv4Address 192 0 2 7], Inr ())"
  by (rule dns_response_is_cached [OF sample_host_name sample_dns_response]) (simp_all add: sample_dns_header_def)

text \<open>
  The parser follows a compression pointer that points at itself for ever, so one datagram to the
  resolver's port stops the network task: for a response whose first name is such a pointer,
  \<^verbatim>\<open>handle_dns_packet\<close> does not return.
\<close>

lemma self_pointer_diverges:
  assumes "pkt ! 0 = 0xC0" "pkt ! 1 = 0x0C" "1 < length pkt"
  shows "name_loop \<lparr> dp_packet = pkt, dp_pos = 0 \<rparr> jumped orig parts = None"
proof (rule ccontr)
  assume "name_loop \<lparr> dp_packet = pkt, dp_pos = 0 \<rparr> jumped orig parts \<noteq> None"
  then obtain y where "name_loop \<lparr> dp_packet = pkt, dp_pos = 0 \<rparr> jumped orig parts = Some y" by blast
  moreover have "p \<noteq> \<lparr> dp_packet = pkt, dp_pos = 0 \<rparr>" if "name_loop p jumped orig parts = Some y"
    for p jumped orig parts y
  proof (rule name_loop.raw_induct [where P = "\<lambda>p _ _ _ _. p \<noteq> \<lparr> dp_packet = pkt, dp_pos = 0 \<rparr>", OF _ that])
    fix loop :: "dns_parser \<Rightarrow> bool \<Rightarrow> nat \<Rightarrow> u8 list list \<Rightarrow> (dns_parser \<times> (unit + u8 list list \<times> bool \<times> nat)) option"
    fix p jumped orig parts y
    assume IH: "\<And>p jumped orig parts y. loop p jumped orig parts = Some y \<Longrightarrow> p \<noteq> \<lparr> dp_packet = pkt, dp_pos = 0 \<rparr>"
    let ?body = "case read_u8 p of
        (p, Inl _) \<Rightarrow> Some (p, Inl ())
      | (p, Inr label_len) \<Rightarrow>
          if label_len = 0 then Some (p, Inr (parts, jumped, orig))
          else if label_len AND 0xc0 = 0xc0 then
            (case read_u8 p of
               (p', Inl _) \<Rightarrow> Some (p', Inl ())
             | (p', Inr low) \<Rightarrow>
                 let pointer = (push_bit 8 (ucast (label_len AND 0x3f)) OR ucast low :: u16) - 12;
                     q = p' \<lparr> dp_pos := unat pointer \<rparr>
                 in if length (dp_packet q) \<le> dp_pos q then Some (q, Inl ())
                    else loop q True (if jumped then orig else dp_pos p + 1) parts)
          else if label_len AND 0xc0 \<noteq> 0 then Some (p, Inl ())
          else (case read_n_bytes p (unat label_len) of
               (p', Inl _) \<Rightarrow> Some (p', Inl ())
             | (p', Inr label) \<Rightarrow> loop p' jumped orig (parts @ [utf8_lossy label]))"
    assume body: "?body = Some y"
    show "p \<noteq> \<lparr> dp_packet = pkt, dp_pos = 0 \<rparr>"
    proof
      assume p: "p = \<lparr> dp_packet = pkt, dp_pos = 0 \<rparr>"
      have "pkt \<noteq> []" using assms(3) by auto
      then have "?body = loop \<lparr> dp_packet = pkt, dp_pos = 0 \<rparr> True (if jumped then orig else Suc (Suc 0)) parts"
        using assms by (simp add: p read_u8_def Let_def)
      then have "loop \<lparr> dp_packet = pkt, dp_pos = 0 \<rparr> True (if jumped then orig else Suc (Suc 0)) parts = Some y"
        by (rule trans [OF sym body])
      then show False using IH by blast
    qed
  qed
  ultimately show False by blast
qed

theorem dns_pointer_loop_hangs:
  assumes "is_response h" "answer_count h \<noteq> 0" "question_count h = to_be16 1"
  shows "handle_dns_packet cache (dns_header_bytes h @ [0xC0, 0x0C] @ rest) = None"
proof -
  have "name_loop \<lparr> dp_packet = [0xC0, 0x0C] @ rest, dp_pos = 0 \<rparr> False 0 [] = None"
    by (rule self_pointer_diverges) simp_all
  then have "parse_question \<lparr> dp_packet = [0xC0, 0x0C] @ rest, dp_pos = 0 \<rparr> = None"
    by (simp add: parse_question_def parse_name_def)
  moreover have "dns_header_from (dns_header_bytes h @ [0xC0, 0x0C] @ rest) = Some h"
    by (rule dns.from_as)
  ultimately show ?thesis
    using assms by (simp add: handle_dns_packet_def dns.bytes_size)
qed

theorem dns_pointer_loop_hangs_witness:
  "handle_dns_packet (\<lambda>_. None) (dns_header_bytes sample_dns_header @ [0xC0, 0x0C] @ []) = None"
  using sample_dns_response
  by (rule dns_pointer_loop_hangs) (simp_all add: sample_dns_header_def to_be16_def byte_of_def le16_def)

text \<open>
  The response test looks at the wrong bit: the flags are compared in memory order, so \<^verbatim>\<open>is_response\<close>
  holds exactly when the packet's recursion-available flag is set, whether or not it is a response.
\<close>

theorem response_test_reads_recursion_flag:
  "is_response h \<longleftrightarrow> to_be16 (dns_flags h) AND FLAG_RA \<noteq> 0"
proof -
  have m: "(w AND FLAG_RESPONSE \<noteq> 0) = bit w 15" "(w AND FLAG_RA \<noteq> 0) = bit w 7" for w :: u16
    using and_exp_eq_0_iff_not_bit [of w 15] and_exp_eq_0_iff_not_bit [of w 7]
    by (simp_all add: FLAG_RESPONSE_def FLAG_RA_def)
  show ?thesis
    by (simp add: is_response_def m to_be16_def bit_le16 bit_byte_of)
qed

end
