(* ===== verification/Net_Device.thy ===== *)
theory Net_Device
  imports Net_Sockets Net_Dhcp Net_Dns
begin

text \<open>
  A network device and the dispatch of received frames (\<^verbatim>\<open>kernel/src/net/netdevice.rs\<close>, and
  \<^verbatim>\<open>get_dns_port\<close> of \<^verbatim>\<open>dns.rs\<close>). The driver is outside: a completed read is its return value and the
  contents of the read buffer, a write is the frame handed to it, kept in \<^verbatim>\<open>active_writes\<close> until the
  driver completes it. \<open>None\<close> is a panic of the network task, or a parser that does not return.
\<close>

section \<open>State\<close>

record net_device =
  nd_mac :: hardware_address
  is_open :: bool
  read_buffer :: "u8 list"
  active_writes :: "(u8 list \<times> nat) list"
  next_op :: nat
  known_arp :: "ipv4_address \<Rightarrow> hardware_address option"
  nd_dhcp :: dhcp_state

definition net_device_new :: "hardware_address \<Rightarrow> net_device" where
  "net_device_new mac = \<lparr> nd_mac = mac, is_open = False, read_buffer = replicate 1536 0,
     active_writes = [], next_op = 0, known_arp = Map.empty, nd_dhcp = dhcp_state_new \<rparr>"

text \<open>The device with the tables of the socket layer and of the resolver.\<close>

record net_stack =
  device :: net_device
  sockets :: socket_tables
  dns_cache :: dns_cache
  dns_port :: u16

section \<open>Sending\<close>

definition send_raw :: "net_device \<Rightarrow> ethernet_frame_header \<Rightarrow> u8 list \<Rightarrow> net_device \<times> (u8 list \<times> nat)" where
  "send_raw d eth_header payload =
     (d \<lparr> next_op := next_op d + 1 \<rparr>, (ethernet_bytes eth_header @ payload, next_op d))"

definition add_write :: "net_device \<Rightarrow> u8 list \<times> nat \<Rightarrow> net_device" where
  "add_write d w = d \<lparr> active_writes := active_writes d @ [w] \<rparr>"

text \<open>Completed writes are dropped from the front of the queue, up to the first one under way.\<close>

definition clear_completed_writes :: "(nat \<Rightarrow> bool) \<Rightarrow> net_device \<Rightarrow> net_device" where
  "clear_completed_writes is_complete d =
     d \<lparr> active_writes := dropWhile (\<lambda>w. is_complete (snd w)) (active_writes d) \<rparr>"

definition send_dhcp_packet :: "net_device \<Rightarrow> u8 list \<Rightarrow> net_device" where
  "send_dhcp_packet d payload =
     (let eth_header = ethernet_new_ipv4 (nd_mac d) BROADCAST;
          ip_packet = datagram (Ipv4Address 0 0 0 0) 68 (Ipv4Address 255 255 255 255) 67 payload;
          (d, w) = send_raw d eth_header ip_packet
      in add_write d w)"

definition init_dhcp :: "net_device \<Rightarrow> u32 \<Rightarrow> net_device" where
  "init_dhcp d xid =
     (let discovery_packet = dhcp_discover (nd_mac d) xid;
          d = d \<lparr> nd_dhcp := (nd_dhcp d) \<lparr> local_ip := Progress xid \<rparr> \<rparr>
      in send_dhcp_packet d discovery_packet)"

section \<open>Receiving\<close>

definition handle_arp_packet :: "net_device \<Rightarrow> nat \<Rightarrow> (net_device \<times> net_event option) option" where
  "handle_arp_packet d offset =
     (case arp_from (drop offset (read_buffer d)) of None \<Rightarrow> None
      | Some arp \<Rightarrow> Some
          (if arp_is_request arp then (d, None)
           else (d \<lparr> known_arp := (known_arp d)(source_protocol_addr arp \<mapsto> source_hardware_addr arp) \<rparr>,
                 Some (ArpResponse (source_protocol_addr arp)))))"

definition get_dns_port :: "net_stack \<Rightarrow> (net_stack \<times> u16) option" where
  "get_dns_port s =
     (if dns_port s = 0 then
        map_option (\<lambda>p. (s \<lparr> dns_port := p \<rparr>, p)) (get_ephemeral_port (sockets s))
      else Some (s, dns_port s))"

text \<open>The slice of the payload, with the wrapping subtraction of the code and the slice's bounds checks.\<close>

definition ip_payload :: "u8 list \<Rightarrow> nat \<Rightarrow> ipv4_header \<Rightarrow> u8 list option" where
  "ip_payload buffer offset header =
     (let payload_offset = of_nat offset + 20 :: u32;
          payload_length = ucast (to_be16 (ih_total_length header)) - 20 :: u32;
          stop = payload_offset + payload_length
      in if payload_offset \<le> stop \<and> unat stop \<le> length buffer
         then Some (take (unat stop - unat payload_offset) (drop (unat payload_offset) buffer)) else None)"

definition handle_udp_payload ::
  "net_stack \<Rightarrow> u32 \<Rightarrow> ipv4_header \<Rightarrow> u8 list \<Rightarrow> (net_stack \<times> net_effect list \<times> net_event option) option" where
  "handle_udp_payload s now ip_header payload =
     (case udp_from payload of
        None \<Rightarrow> Some (s, [], None)
      | Some header \<Rightarrow>
          let dest_port = to_be16 (uh_dest_port header);
              udp_payload = drop 8 payload;
              d = device s
          in if dest_port = 68 then
               (case dhcp_process_packet (nd_dhcp d) now (nd_mac d) udp_payload of
                  None \<Rightarrow> None
                | Some (dhcp, Inl _) \<Rightarrow> Some (s \<lparr> device := d \<lparr> nd_dhcp := dhcp \<rparr> \<rparr>, [], None)
                | Some (dhcp, Inr (response, event)) \<Rightarrow>
                    let d = d \<lparr> nd_dhcp := dhcp \<rparr>;
                        d = (case response of None \<Rightarrow> d | Some res \<Rightarrow> send_dhcp_packet d res)
                    in Some (s \<lparr> device := d \<rparr>, [], Some event))
             else
               (case get_dns_port s of None \<Rightarrow> None
                | Some (s, port) \<Rightarrow>
                    if dest_port = port then
                      (case handle_dns_packet (dns_cache s) udp_payload of
                         None \<Rightarrow> None
                       | Some (cache, Inl _) \<Rightarrow> Some (s \<lparr> dns_cache := cache \<rparr>, [], None)
                       | Some (cache, Inr _) \<Rightarrow> Some (s \<lparr> dns_cache := cache \<rparr>, [], Some DnsResponse))
                    else
                      let (socks, fx) = handle_udp_packet (sockets s) dest_port (ih_source ip_header)
                        (uh_source_port header) udp_payload
                      in Some (s \<lparr> sockets := socks \<rparr>, fx, None)))"

definition handle_tcp_payload ::
  "(u32 \<Rightarrow> bool) \<Rightarrow> net_stack \<Rightarrow> ipv4_header \<Rightarrow> u8 list \<Rightarrow> (net_stack \<times> net_effect list \<times> net_event option) option" where
  "handle_tcp_payload alive s ip_header payload =
     (case tcp_from payload of
        None \<Rightarrow> Some (s, [], None)
      | Some header \<Rightarrow>
          map_option (\<lambda>(socks, fx). (s \<lparr> sockets := socks \<rparr>, fx, None))
            (handle_tcp_packet alive (sockets s) (ih_dest ip_header) (to_be16 (th_dest_port header))
               (ih_source ip_header) header (drop 20 payload)))"

definition handle_ip_packet ::
  "(u32 \<Rightarrow> bool) \<Rightarrow> net_stack \<Rightarrow> u32 \<Rightarrow> nat \<Rightarrow> (net_stack \<times> net_effect list \<times> net_event option) option" where
  "handle_ip_packet alive s now offset =
     (case ipv4_from (drop offset (read_buffer (device s))) of None \<Rightarrow> None
      | Some ip_header \<Rightarrow>
          (case ip_payload (read_buffer (device s)) offset ip_header of None \<Rightarrow> None
           | Some payload \<Rightarrow>
               if ih_protocol ip_header = IP_UDP then handle_udp_payload s now ip_header payload
               else if ih_protocol ip_header = IP_TCP then handle_tcp_payload alive s ip_header payload
               else Some (s, [], None)))"

text \<open>\<^verbatim>\<open>process_read_result\<close>: \<open>res\<close> is the return value of the read, once it is complete.\<close>

definition process_read_result ::
  "(u32 \<Rightarrow> bool) \<Rightarrow> net_stack \<Rightarrow> u32 \<Rightarrow> u32 option \<Rightarrow> (net_stack \<times> net_effect list \<times> net_event option) option" where
  "process_read_result alive s now res =
     (case res of
        None \<Rightarrow> Some (s, [], None)
      | Some r \<Rightarrow>
          if \<not> is_open (device s) then
            (if r AND 0x80000000 \<noteq> 0 then Some (s, [], None)
             else Some (s \<lparr> device := (device s) \<lparr> is_open := True \<rparr> \<rparr>, [], Some LinkEstablished))
          else if r AND 0x80000000 \<noteq> 0 then Some (s, [], None)
          else if r AND 0x7fffffff = 0 then Some (s, [], None)
          else
            map_option (\<lambda>(s, fx, event).
                (s \<lparr> device := (device s) \<lparr> read_buffer := replicate (length (read_buffer (device s))) 0 \<rparr> \<rparr>, fx, event))
              (case ethernet_from (read_buffer (device s)) of
                 None \<Rightarrow> Some (s, [], None)
               | Some frame \<Rightarrow>
                   if get_ethertype frame = ETHERTYPE_ARP then
                     map_option (\<lambda>(d, event). (s \<lparr> device := d \<rparr>, [], event)) (handle_arp_packet (device s) 14)
                   else if get_ethertype frame = ETHERTYPE_IP then handle_ip_packet alive s now 14
                   else Some (s, [], None)))"

section \<open>What arrives\<close>

lemma ip_payload_eq:
  assumes "length buffer < 2 ^ 31"
  shows "ip_payload buffer 14 h =
    (if 20 \<le> unat (to_be16 (ih_total_length h)) \<and> unat (to_be16 (ih_total_length h)) + 14 \<le> length buffer
     then Some (take (unat (to_be16 (ih_total_length h)) - 20) (drop 34 buffer)) else None)"
proof -
  define n where "n = unat (to_be16 (ih_total_length h))"
  define w where "w = (ucast (to_be16 (ih_total_length h)) :: u32)"
  have n: "n < 65536" using unat_u16 by (simp add: n_def)
  have w: "unat w = n"
    using n by (simp add: w_def n_def unsigned_ucast_eq take_bit_nat_eq_self)
  have stop: "unat (34 + (w - 20)) = n + 14"
  proof -
    have "34 + (w - 20) = w + 14" by simp
    then show ?thesis using n w by (simp add: unat_word_ariths)
  qed
  have "(34 :: u32) \<le> 34 + (w - 20) \<longleftrightarrow> 20 \<le> n"
    using stop by (simp add: word_le_nat_alt)
  then show ?thesis
    using stop by (auto simp: ip_payload_def Let_def w_def [symmetric] n_def [symmetric])
qed

text \<open>A frame as the driver leaves it in the zeroed buffer.\<close>

definition holds_frame :: "net_device \<Rightarrow> u8 list \<Rightarrow> bool" where
  "holds_frame d frame \<longleftrightarrow> is_open d \<and> frame \<noteq> [] \<and> length frame \<le> 1536 \<and>
     read_buffer d = frame @ replicate (1536 - length frame) 0"

lemma received_length:
  assumes "0 < n" "n \<le> 1536"
  shows "of_nat n AND 0x80000000 = (0 :: u32)" "of_nat n AND 0x7fffffff \<noteq> (0 :: u32)"
proof -
  have u: "unat (of_nat n :: u32) = n" using assms by (intro unat_of_nat_small) simp
  have "unat (of_nat n AND 0x7fffffff :: u32) = n mod 2 ^ 31"
    using unat_and_mask [of "of_nat n :: u32" 31] u by (simp add: mask_eq_exp_minus_1)
  then show "of_nat n AND 0x7fffffff \<noteq> (0 :: u32)"
    using assms by (auto simp: unat_eq_zero)
  have "take_bit 31 (of_nat n :: u32) = of_nat n"
    using assms u by (simp add: word_unat_eq_iff unat_take_bit)
  then have "\<not> bit (of_nat n :: u32) 31"
    by (metis bit_take_bit_iff less_irrefl)
  then show "of_nat n AND 0x80000000 = (0 :: u32)"
    using and_exp_eq_0_iff_not_bit [of "of_nat n :: u32" 31] by simp
qed

definition clear_buffer :: "net_stack \<Rightarrow> net_stack" where
  "clear_buffer s = s \<lparr> device := (device s) \<lparr> read_buffer := replicate (length (read_buffer (device s))) 0 \<rparr> \<rparr>"

definition dispatch_ip ::
  "(u32 \<Rightarrow> bool) \<Rightarrow> net_stack \<Rightarrow> u32 \<Rightarrow> ipv4_header \<Rightarrow> u8 list \<Rightarrow> (net_stack \<times> net_effect list \<times> net_event option) option" where
  "dispatch_ip alive s now ip payload =
     (if ih_protocol ip = IP_UDP then handle_udp_payload s now ip payload
      else if ih_protocol ip = IP_TCP then handle_tcp_payload alive s ip payload else Some (s, [], None))"

lemma ip_frame_received:
  assumes "holds_frame (device s) (ethernet_bytes (ethernet_new_ipv4 src_mac dest_mac) @ ipv4_bytes ip @ body)"
  shows "process_read_result alive s now (Some (of_nat (34 + length body))) =
      map_option (\<lambda>(s, fx, event). (clear_buffer s, fx, event))
        (case ip_payload (read_buffer (device s)) 14 ip of None \<Rightarrow> None | Some payload \<Rightarrow> dispatch_ip alive s now ip payload)"
    and "length (read_buffer (device s)) = 1536" "34 + length body \<le> 1536"
    and "take (length body) (drop 34 (read_buffer (device s))) = body"
proof -
  let ?eth = "ethernet_new_ipv4 src_mac dest_mac"
  show len: "34 + length body \<le> 1536"
    using assms by (simp add: holds_frame_def eth.bytes_size ipv4.bytes_size)
  have o: "is_open (device s)"
    and buf: "read_buffer (device s) = ethernet_bytes ?eth @ ipv4_bytes ip @ body @
      replicate (1536 - (34 + length body)) 0"
    using assms by (simp_all add: holds_frame_def eth.bytes_size ipv4.bytes_size)
  show "length (read_buffer (device s)) = 1536"
    using len by (simp add: buf eth.bytes_size ipv4.bytes_size)
  show "take (length body) (drop 34 (read_buffer (device s))) = body"
    unfolding buf by (simp add: eth.bytes_size ipv4.bytes_size)
  have frame: "ethernet_from (read_buffer (device s)) = Some ?eth"
    unfolding buf by (rule eth.from_as)
  have et: "get_ethertype ?eth = ETHERTYPE_IP" "ETHERTYPE_IP \<noteq> ETHERTYPE_ARP"
    by (simp_all add: get_ethertype_def ethernet_new_ipv4_def ethernet_new_def ETHERTYPE_IP_def ETHERTYPE_ARP_def)
  have ip: "ipv4_from (drop 14 (read_buffer (device s))) = Some ip"
    unfolding buf by (simp add: eth.bytes_size ipv4.from_as)
  show "process_read_result alive s now (Some (of_nat (34 + length body))) =
      map_option (\<lambda>(s, fx, event). (clear_buffer s, fx, event))
        (case ip_payload (read_buffer (device s)) 14 ip of None \<Rightarrow> None | Some payload \<Rightarrow> dispatch_ip alive s now ip payload)"
    using received_length [of "34 + length body"] len o
    by (simp add: process_read_result_def frame et handle_ip_packet_def ip dispatch_ip_def clear_buffer_def
        split: option.split del: of_nat_add of_nat_Suc)
qed

lemma ip_frame_dispatch:
  assumes "holds_frame (device s) (ethernet_bytes (ethernet_new_ipv4 src_mac dest_mac) @ ipv4_bytes ip @ body)"
    "unat (to_be16 (ih_total_length ip)) = 20 + length body"
  shows "process_read_result alive s now (Some (of_nat (34 + length body))) =
    map_option (\<lambda>(s, fx, event). (clear_buffer s, fx, event)) (dispatch_ip alive s now ip body)"
proof -
  note r = ip_frame_received [OF assms(1)]
  have "ip_payload (read_buffer (device s)) 14 ip = Some body"
    using r(2-4) by (subst ip_payload_eq) (simp_all add: assms(2))
  then show ?thesis by (simp only: r(1) option.case)
qed

text \<open>
  A datagram built by \<^verbatim>\<open>create_datagram\<close>, framed by the sender and read into the receiver's buffer, of
  up to 1494 payload bytes, is checked out of its three headers and queued at the UDP socket bound to
  its destination port, payload unchanged and zero padding left out, after the datagrams that wait
  there; the read buffer is cleared and nothing else changes. The six bytes in front of the payload
  are the sender's address and the sender's port, low byte first.
\<close>

theorem datagram_delivered:
  assumes "holds_frame (device s) (ethernet_bytes (ethernet_new_ipv4 src_mac dest_mac) @
      datagram src sp dst dp payload)"
    "length payload \<le> 1494" "dp \<noteq> 68" "dns_port s \<noteq> 0" "dp \<noteq> dns_port s"
    "bt_get dp (active_connections (sockets s)) = Some i"
    "bt_get i (socket_map (sockets s)) = Some (UdpSocket l)" "ul_pending_reads l = []"
  shows "process_read_result alive s now (Some (of_nat (42 + length payload))) =
    Some (clear_buffer (s \<lparr> sockets := put_socket i (UdpSocket (l \<lparr> buffered_datagrams :=
        buffered_datagrams l @ [ip_bytes src @ le16_bytes sp @ payload] \<rparr>)) (sockets s) \<rparr>), [], None)"
proof -
  have "length payload \<le> 65507" using assms(2) by simp
  then obtain ip udp where d:
    "create_datagram src sp dst dp payload = Some (ipv4_bytes ip @ udp_bytes udp @ payload)"
    "unat (to_be16 (ih_total_length ip)) = 28 + length payload"
    "ih_source ip = src" "ih_protocol ip = IP_UDP"
    "to_be16 (uh_source_port udp) = sp" "to_be16 (uh_dest_port udp) = dp"
    by (rule datagram_ok [of payload src sp dst dp])
  have "be16_bytes (uh_source_port udp) = le16_bytes sp"
    using d(5) by (metis le16_bytes_be to_be16_involution)
  then have "handle_udp_payload s now ip (udp_bytes udp @ payload) =
      Some (s \<lparr> sockets := put_socket i (UdpSocket (l \<lparr> buffered_datagrams :=
        buffered_datagrams l @ [ip_bytes src @ le16_bytes sp @ payload] \<rparr>)) (sockets s) \<rparr>, [], None)"
    using assms(3-8) d(3,6)
    by (simp add: handle_udp_payload_def udp.from_as udp.bytes_size Let_def get_dns_port_def
        handle_udp_packet_def udp_handle_packet_def)
  then show ?thesis
    using ip_frame_dispatch [of s src_mac dest_mac ip "udp_bytes udp @ payload" alive now] assms(1) d(1,2,4)
    by (simp add: datagram_def udp.bytes_size dispatch_ip_def)
qed

lemma datagram_length:
  assumes "length payload \<le> 65507"
  shows "length (datagram src sp dst dp payload) = 28 + length payload"
  by (rule datagram_ok [OF assms, of src sp dst dp])
    (simp add: datagram_def ipv4.bytes_size udp.bytes_size)

text \<open>A stack whose device has just received a datagram for a UDP socket on port 5353.\<close>

definition sample_frame :: "u8 list" where
  "sample_frame = ethernet_bytes (ethernet_new_ipv4 (HardwareAddress 2 0 0 0 0 1) (HardwareAddress 2 0 0 0 0 2)) @
     datagram (Ipv4Address 10 0 0 2) 0x1234 (Ipv4Address 10 0 0 1) 5353 [1, 2, 3]"

definition sample_stack :: net_stack where
  "sample_stack = \<lparr> device = (net_device_new (HardwareAddress 2 0 0 0 0 2))
       \<lparr> is_open := True, read_buffer := sample_frame @ replicate (1536 - length sample_frame) 0 \<rparr>,
     sockets = socket_tables_new \<lparr> active_connections := [(5353, 1)],
       socket_map := [(1, UdpSocket (udp_listener_new 5353))] \<rparr>,
     dns_cache = (\<lambda>_. None), dns_port = 49152 \<rparr>"

theorem datagram_delivered_witness:
  "process_read_result (\<lambda>_. True) sample_stack 0 (Some 45) =
    Some (clear_buffer (sample_stack \<lparr> sockets := put_socket 1 (UdpSocket ((udp_listener_new 5353) \<lparr> buffered_datagrams :=
        [[10, 0, 0, 2, 0x34, 0x12, 1, 2, 3]] \<rparr>)) (sockets sample_stack) \<rparr>), [], None)"
proof -
  have "length sample_frame = 45"
    by (simp add: sample_frame_def eth.bytes_size datagram_length)
  then have "holds_frame (device sample_stack) sample_frame"
    by (auto simp: holds_frame_def sample_stack_def)
  moreover have "le16_bytes 0x1234 = [0x34, 0x12]"
    by (simp add: le16_bytes_def byte_of_def)
  ultimately show ?thesis
    using datagram_delivered [of sample_stack "HardwareAddress 2 0 0 0 0 1" "HardwareAddress 2 0 0 0 0 2"
        "Ipv4Address 10 0 0 2" "0x1234" "Ipv4Address 10 0 0 1" 5353 "[1, 2, 3]" 1 "udp_listener_new 5353"]
    unfolding sample_frame_def [symmetric]
    by (simp add: sample_stack_def udp_listener_new_def bt_get_def)
qed

text \<open>
  A UDP reply misses its sender. The write format wants the port high byte first; a task that answers
  a datagram by writing to the address it was read with sends its reply to the byte-swapped port.
\<close>

theorem udp_reply_goes_to_swapped_port:
  "udp_write l (ip_bytes src @ le16_bytes sp @ reply) (Some local) cb =
     (None, [NetRespond src (datagram local (ul_port l) src (to_be16 sp) reply),
             CompleteOp cb (Inr (of_nat (length reply)))], Some (Inr (of_nat (length reply))))"
  by (cases src) (simp add: udp_write_def ip_at_def le16_bytes_def to_be16_def Let_def)

text \<open>
  An IP packet whose total length is below the 20 bytes of its header, or above what the buffer
  holds, is not dropped: the slice of its payload panics, and with it the network task.
\<close>

theorem ip_length_panics:
  assumes "holds_frame (device s) (ethernet_bytes (ethernet_new_ipv4 src_mac dest_mac) @ ipv4_bytes ip @ body)"
    "unat (to_be16 (ih_total_length ip)) < 20 \<or> 1522 < unat (to_be16 (ih_total_length ip))"
  shows "process_read_result alive s now (Some (of_nat (34 + length body))) = None"
proof -
  note r = ip_frame_received [OF assms(1)]
  have "ip_payload (read_buffer (device s)) 14 ip = None"
    using assms(2) by (subst ip_payload_eq) (auto simp: r(2))
  then show ?thesis by (simp only: r(1) option.case option.map)
qed

definition short_header :: ipv4_header where
  "short_header = \<lparr> version_header_len = 0x45, diff_services = 0, ih_total_length = 0, identification = 0,
     fragment = 0, ih_ttl = 64, ih_protocol = IP_UDP, ih_checksum = 0, ih_source = Ipv4Address 10 0 0 2,
     ih_dest = Ipv4Address 10 0 0 1 \<rparr>"

definition short_stack :: net_stack where
  "short_stack = sample_stack \<lparr> device := (device sample_stack) \<lparr> read_buffer :=
     ethernet_bytes (ethernet_new_ipv4 (HardwareAddress 2 0 0 0 0 1) (HardwareAddress 2 0 0 0 0 2)) @
     ipv4_bytes short_header @ replicate 1502 0 \<rparr> \<rparr>"

theorem ip_length_panics_witness: "process_read_result (\<lambda>_. True) short_stack 0 (Some 34) = None"
proof -
  have "holds_frame (device short_stack) (ethernet_bytes (ethernet_new_ipv4 (HardwareAddress 2 0 0 0 0 1)
      (HardwareAddress 2 0 0 0 0 2)) @ ipv4_bytes short_header @ [])"
    using ipv4.bytes_size [of short_header]
    by (auto simp: holds_frame_def short_stack_def sample_stack_def eth.bytes_size)
  moreover have "unat (to_be16 (ih_total_length short_header)) < 20"
    by (simp add: short_header_def to_be16_def byte_of_def le16_def)
  ultimately show ?thesis
    using ip_length_panics [of short_stack "HardwareAddress 2 0 0 0 0 1" "HardwareAddress 2 0 0 0 0 2" short_header "[]"]
    by simp
qed

end
