(* ===== verification/Spec2Isabelle.thy ===== *)
theory Spec2Isabelle
  imports Slot_List Ring_Buffer Ref_Counts Paging Scheduler Fat_Subdir Net_Device
begin

text \<open>
  \<^bold>\<open>Verification of IDOS-NX\<close>

  IDOS-NX is a 32-bit operating system for the PC written in Rust. A small kernel (\<^verbatim>\<open>kernel/\<close>) manages physical
  frames, page tables, tasks, messages and handles; file systems and devices are served by drivers, some of
  them user programs (\<^verbatim>\<open>components/drivers/\<close>), that answer requests of the kernel. This development models the
  parts whose behaviour is decided by their own code, from the collections of the kernel up to the FAT file
  system driver, and proves what the rest of the system relies on.

  \<^bold>\<open>Conventions.\<close> The system is built in release mode for i386: \<^verbatim>\<open>u32\<close> and \<^verbatim>\<open>usize\<close> have 32 bits and arithmetic
  wraps. Addresses, counters and fields are words of the width of the source; indices and lengths are natural
  numbers. A panic (index out of bounds, \<^verbatim>\<open>unwrap\<close>, \<^verbatim>\<open>panic!\<close>) and a loop that does not return are \<open>None\<close> of an
  option; a \<^verbatim>\<open>Result\<close> is a sum whose left side is the error. Mutation is explicit state passing on records.

  \<^bold>\<open>Memory.\<close>
  \<^item> \<open>Address\<close>: \<^verbatim>\<open>memory/address.rs\<close> and \<^verbatim>\<open>memory/physical/range.rs\<close>, page arithmetic on 32-bit addresses.
  \<^item> \<open>Frame_Bitmap\<close>: \<^verbatim>\<open>memory/physical/bitmap.rs\<close> and \<^verbatim>\<open>bios.rs\<close>. Allocation of frames is first fit, freeing is its
    inverse, the count of free frames is exact. It interprets the locale \<open>frame_allocator\<close>.
  \<^item> \<open>Frame_Tracker\<close>: \<^verbatim>\<open>memory/physical/tracking.rs\<close>, a radix tree of reference counts, equal to a map
    from frames to counters (locale \<open>ref_counter\<close>).
  \<^item> \<open>Physical_Memory\<close>: \<^verbatim>\<open>memory/physical/mod.rs\<close>, which combines both (locale \<open>tracked_frames\<close>): a tracked frame is
    fresh, shared frames stay allocated, and the last release frees.
  \<^item> \<open>BTree_Map\<close> and \<open>Mapped_Memory\<close>: the map of regions of a task (\<^verbatim>\<open>task/memory.rs\<close>). Placement of a mapping, the
    exact effect of unmapping, and what happens when the address space is full.
  \<^item> \<open>Paging\<close>: page directories and tables, \<^verbatim>\<open>task/paging.rs\<close> and \<^verbatim>\<open>task/actions/memory.rs\<close>: page faults, mapping,
    translation, and the clean-up of unmapped pages, for the running task and for another one.

  \<^bold>\<open>Kernel data structures.\<close>
  \<^item> \<open>Slot_List\<close>: the slot lists of the kernel and of the FAT driver and the handle table (locale \<open>slot_table\<close>,
    interpreted twice).
  \<^item> \<open>Ring_Buffer\<close>: \<^verbatim>\<open>collections/ringbuffer.rs\<close> as a bounded queue (locale \<open>bounded_fifo\<close>) and with the loads and
    stores of one writer and one reader interleaved.
  \<^item> \<open>Ref_Counts\<close>: \<^verbatim>\<open>collections/refcount.rs\<close>, a second instance of \<open>ref_counter\<close>.

  \<^bold>\<open>Tasks.\<close>
  \<^item> \<open>Task_State\<close>: \<^verbatim>\<open>task/state.rs\<close>, \<^verbatim>\<open>messaging.rs\<close>, \<^verbatim>\<open>args.rs\<close> and the error codes of \<^verbatim>\<open>api/src/io/error.rs\<close>: run
    states, timeouts, the message queue, the kernel stack of a new task.
  \<^item> \<open>Scheduler\<close>: \<^verbatim>\<open>task/scheduling/mod.rs\<close>, \<^verbatim>\<open>task/switching.rs\<close>, \<^verbatim>\<open>sync/futex.rs\<close>, \<^verbatim>\<open>task/actions/lifecycle.rs\<close>: the work
    queue shared by the processors, switching, futexes, timeouts, creation and termination of tasks. Its step
    relation interleaves the processors; \<open>sched_inv\<close> is proved by rule induction over it. Two counterexamples show
    what goes wrong without the exclusion of interrupts and with waiters that timed out.

  \<^bold>\<open>The FAT driver\<close> (\<^verbatim>\<open>components/drivers/fatdriver/src\<close>).
  \<^item> \<open>Lba_Hash\<close>: the index of the sector cache, open addressing with linear probing. The proof cuts the circular
    table at an empty cell; removal by rehashing a run is shown to end and to keep every key reachable.
  \<^item> \<open>Fat_Disk\<close>: the cache of \<^verbatim>\<open>disk.rs\<close>, with read-ahead, eviction and write-back. It implements an array of
    bytes (locale \<open>byte_disk\<close>), as long as fewer than \<open>2 ^ 32\<close> sectors are accessed; what happens then is shown too.
  \<^item> \<open>Byte_Order\<close> and \<open>Fat_Table\<close>: the parameter block and the allocation table of \<^verbatim>\<open>bpb.rs\<close> and \<^verbatim>\<open>table.rs\<close>, on top of
    \<open>byte_disk\<close>: packing of 12-bit entries, allocation, chains. \<^verbatim>\<open>free_chain\<close> is a partial function, shown to
    terminate on well-formed chains.
  \<^item> \<open>Fat_Time\<close> and \<open>Fat_Names\<close>: packed dates and times, directory entries and their names (\<^verbatim>\<open>dir.rs\<close>), with the
    round trips of timestamps, entries and names.
  \<^item> \<open>Fat_Root\<close>: the root directory of \<^verbatim>\<open>dir.rs\<close>. The slots are read off the bytes of \<open>byte_disk\<close>; adding, removing,
    looking up and listing are stated on the slots, and an added entry is found again.
  \<^item> \<open>Fat_File\<close>: \<^verbatim>\<open>File\<close> of \<^verbatim>\<open>dir.rs\<close>, the cluster cache, reading and writing. A file is the bytes of its chain
    (\<open>file_pos\<close>); writing grows the chain by free clusters (\<open>grown\<close>) and stores the data (\<open>stored\<close>). Two theorems show
    what a read does for an empty file and behind the end of a file.

  \<^bold>\<open>Bounds and fuel.\<close> Loops over finite structures are recursion on them. Rehashing takes at most one turn around
  the table, so its fuel is the size of the table; \<open>hash_remove_ok\<close> shows it is never exhausted. The month loop
  has twelve turns. Other loops are bounded by the source or are partial functions.

  \<^bold>\<open>Not modelled.\<close> Port and register access, interrupt and descriptor tables, ACPI, the boot loader, the hardware
  drivers, the window manager and the programs act on devices or pixels and are left out. The dispatch of
  requests to drivers, the network stack, the C library and the system call wrappers are not modelled yet.
\<close>

end
